(* ===== verification/Kernel_Prelude.thy ===== *)
theory Kernel_Prelude
  imports Main "HOL-Library.Word" "HOL-Library.Monad_Syntax"
begin

text \<open>
  The shared prelude of the development: the machine-integer types of the kernel, the
  memory accesses of C (an access outside the object is \<open>None\<close>, the value this development
  gives to undefined behaviour and to a kernel panic), and the generic lemmas on lists,
  sums and words that the component theories use.
\<close>

unbundle bit_operations_syntax

section \<open>Types\<close>

type_synonym u8 = "8 word"
type_synonym u16 = "16 word"
type_synonym u32 = "32 word"
type_synonym u64 = "64 word"

type_synonym tid = nat

text \<open>
  A collection for the equations that describe reads and writes of C memory, and one for the
  effect of an operation on the counts that make up a reference count.
\<close>

named_theorems mem_simps
named_theorems count_simps

section \<open>C memory as a list of cells\<close>

text \<open>
  An object (or a flat stretch of address space) is a list of cells. Reading or writing a
  range that leaves the object is undefined behaviour and yields \<open>None\<close>.
\<close>

definition mem_read :: "'a list \<Rightarrow> nat \<Rightarrow> nat \<Rightarrow> 'a list option" where
  "mem_read m a n = (if a + n \<le> length m then Some (take n (drop a m)) else None)"

definition mem_write :: "'a list \<Rightarrow> nat \<Rightarrow> 'a list \<Rightarrow> 'a list option" where
  "mem_write m a xs =
     (if a + length xs \<le> length m then Some (take a m @ xs @ drop (a + length xs) m) else None)"

definition load :: "'a list \<Rightarrow> nat \<Rightarrow> 'a option" where
  "load m a = (if a < length m then Some (m ! a) else None)"

definition store :: "'a list \<Rightarrow> nat \<Rightarrow> 'a \<Rightarrow> 'a list option" where
  "store m a x = (if a < length m then Some (m[a := x]) else None)"

lemma mem_read_length: "mem_read m a n = Some xs \<Longrightarrow> length xs = n"
  by (auto simp: mem_read_def split: if_splits)

lemma mem_read_Some [mem_simps]:
  "a + n \<le> length m \<Longrightarrow> mem_read m a n = Some (take n (drop a m))"
  by (simp add: mem_read_def)

lemma mem_write_Some [mem_simps]:
  "a + length xs \<le> length m \<Longrightarrow>
   mem_write m a xs = Some (take a m @ xs @ drop (a + length xs) m)"
  by (simp add: mem_write_def)

lemma load_Some [mem_simps]: "a < length m \<Longrightarrow> load m a = Some (m ! a)"
  by (simp add: load_def)

lemma store_Some [mem_simps]: "a < length m \<Longrightarrow> store m a x = Some (m[a := x])"
  by (simp add: store_def)

lemma mem_write_length: "mem_write m a xs = Some m' \<Longrightarrow> length m' = length m"
  by (auto simp: mem_write_def split: if_splits)

lemma mem_write_nth:
  assumes "mem_write m a xs = Some m'" and "i < length m"
  shows "m' ! i = (if a \<le> i \<and> i < a + length xs then xs ! (i - a) else m ! i)"
  using assms by (auto simp: mem_write_def nth_append min_def split: if_splits)

section \<open>Sums over lists and counting\<close>

lemma sum_list_update_nat:
  fixes xs :: "nat list"
  assumes "i < length xs"
  shows "sum_list (xs[i := x]) + xs ! i = sum_list xs + x"
  using assms
proof (induction xs arbitrary: i)
  case (Cons y ys)
  then show ?case by (cases i) auto
qed simp

lemma sum_list_map_update:
  fixes f :: "'a \<Rightarrow> nat"
  assumes "i < length xs"
  shows "sum_list (map f (xs[i := x])) + f (xs ! i) = sum_list (map f xs) + f x"
  using sum_list_update_nat[of i "map f xs" "f x"] assms by (simp add: map_update)

lemma sum_list_map_ge_nth:
  fixes f :: "'a \<Rightarrow> nat"
  assumes "i < length xs"
  shows "f (xs ! i) \<le> sum_list (map f xs)"
  using assms by (simp add: member_le_sum_list)

lemma count_list_map_snd_pos: "(k, v) \<in> set kvs \<Longrightarrow> 0 < count_list (map snd kvs) v"
  by (induction kvs) auto

section \<open>Machine words\<close>

lemma unat_Suc_word:
  fixes x :: "'a::len word"
  assumes "unat x + 1 < 2 ^ LENGTH('a)"
  shows "unat (x + 1) = unat x + 1"
  using assms by (simp add: unat_word_ariths)

lemma unat_pred_word:
  fixes x :: "'a::len word"
  assumes "x \<noteq> 0"
  shows "unat (x - 1) = unat x - 1"
  using assms unat_minus_one by blast

lemma unat_plus_no_overflow:
  fixes x y :: "'a::len word"
  assumes "unat x + unat y < 2 ^ LENGTH('a)"
  shows "unat (x + y) = unat x + unat y"
  using assms by (simp add: unat_word_ariths)

lemma word_add_wraps_iff:
  fixes x y :: "'a::len word"
  shows "x + y < x \<longleftrightarrow> 2 ^ LENGTH('a) \<le> unat x + unat y"
proof -
  let ?B = "2 ^ LENGTH('a) :: nat"
  have x: "unat x < ?B" and y: "unat y < ?B" by simp_all
  show ?thesis
  proof (cases "unat x + unat y < ?B")
    case True
    then show ?thesis by (simp add: word_less_nat_alt unat_plus_no_overflow)
  next
    case False
    have lt: "unat x + unat y - ?B < ?B" using x y False by linarith
    have "(unat x + unat y) mod ?B = (unat x + unat y - ?B) mod ?B"
      using False by (intro le_mod_geq) simp
    with lt have "unat (x + y) = unat x + unat y - ?B" by (simp add: unat_word_ariths)
    moreover have "unat x + unat y - ?B < unat x" using x y False by linarith
    ultimately show ?thesis using False by (simp add: word_less_nat_alt)
  qed
qed

end
