(* ===== verification/Libc_Memory.thy ===== *)
theory Libc_Memory
  imports Kernel_Prelude
begin

text \<open>
  The freestanding C library of the kernel, \<open>src/libc/string.c\<close>. The memory functions work on
  a flat memory (a list of bytes, an address is an index), so that overlap and alignment are
  visible; the string functions take a \<open>char*\<close> as the list of the characters from the pointer
  to the end of the object. \<open>None\<close> is an access outside the memory or the object. The routines
  that are assembly (\<open>memcpy_avx\<close> and the like) are not modelled; \<open>memset_sse2\<close> and
  \<open>memcpy_sse2\<close> are C with single SSE stores, which are 16-byte writes here.
\<close>

section \<open>Memory functions\<close>

definition le_bytes :: "u64 \<Rightarrow> u8 list" where
  "le_bytes w = map (\<lambda>i. ucast (drop_bit (8 * i) w)) [0..<8]"

fun memset_words :: "u8 list \<Rightarrow> nat \<Rightarrow> u64 \<Rightarrow> nat \<Rightarrow> (u8 list \<times> nat \<times> nat) option" where
  "memset_words m p v64 num =
     (if num \<ge> 8
      then do { m1 \<leftarrow> mem_write m p (le_bytes v64); memset_words m1 (p + 8) v64 (num - 8) }
      else Some (m, p, num))"

fun memset_bytes :: "u8 list \<Rightarrow> nat \<Rightarrow> u8 \<Rightarrow> nat \<Rightarrow> u8 list option" where
  "memset_bytes m p v 0 = Some m"
| "memset_bytes m p v (Suc num) =
     do { m1 \<leftarrow> store m p v; memset_bytes m1 (p + 1) v num }"

definition memset_generic :: "u8 list \<Rightarrow> nat \<Rightarrow> u32 \<Rightarrow> nat \<Rightarrow> u8 list option" where
  "memset_generic m ptr value num =
     (let v64 = (ucast (ucast value :: u8) :: u64) * 0x0101010101010101
      in do { (m1, p8, rest) \<leftarrow> memset_words m ptr v64 num;
              memset_bytes m1 p8 (ucast value) rest })"

fun memcpy_generic :: "u8 list \<Rightarrow> nat \<Rightarrow> nat \<Rightarrow> nat \<Rightarrow> u8 list option" where
  "memcpy_generic m d s 0 = Some m"
| "memcpy_generic m d s (Suc num) =
     do { c \<leftarrow> load m s; m1 \<leftarrow> store m d c; memcpy_generic m1 (d + 1) (s + 1) num }"

fun memcmp_generic :: "u8 list \<Rightarrow> nat \<Rightarrow> nat \<Rightarrow> nat \<Rightarrow> int option" where
  "memcmp_generic m p1 p2 0 = Some 0"
| "memcmp_generic m p1 p2 (Suc num) =
     do { a \<leftarrow> load m p1; b \<leftarrow> load m p2;
          if a \<noteq> b then Some (uint a - uint b) else memcmp_generic m (p1 + 1) (p2 + 1) num }"

fun memchr_generic :: "u8 list \<Rightarrow> nat \<Rightarrow> u32 \<Rightarrow> nat \<Rightarrow> nat option option" where
  "memchr_generic m p ch 0 = Some None"
| "memchr_generic m p ch (Suc count) =
     do { a \<leftarrow> load m p;
          if a = ucast ch then Some (Some p) else memchr_generic m (p + 1) ch count }"

definition memzero_nt_generic :: "u8 list \<Rightarrow> nat \<Rightarrow> nat \<Rightarrow> u8 list option" where
  "memzero_nt_generic m dest count = memset_generic m dest 0 count"

definition memcpy_nt_generic :: "u8 list \<Rightarrow> nat \<Rightarrow> nat \<Rightarrow> nat \<Rightarrow> u8 list option" where
  "memcpy_nt_generic m dest src count = memcpy_generic m dest src count"

definition explicit_bzero :: "u8 list \<Rightarrow> nat \<Rightarrow> nat \<Rightarrow> u8 list option" where
  "explicit_bzero m ptr len = memset_bytes m ptr 0 len"

subsection \<open>The SSE2 variants\<close>

fun memset_align :: "u8 list \<Rightarrow> nat \<Rightarrow> u8 \<Rightarrow> nat \<Rightarrow> (u8 list \<times> nat \<times> nat) option" where
  "memset_align m p v 0 = Some (m, p, 0)"
| "memset_align m p v (Suc num) =
     (if p mod 16 \<noteq> 0 then do { m1 \<leftarrow> store m p v; memset_align m1 (p + 1) v num }
      else Some (m, p, Suc num))"

fun sse2_zero_blocks4 :: "u8 list \<Rightarrow> nat \<Rightarrow> nat \<Rightarrow> (u8 list \<times> nat \<times> nat) option" where
  "sse2_zero_blocks4 m p loops =
     (if loops \<ge> 4
      then do { m1 \<leftarrow> mem_write m p (replicate 16 0);
                m2 \<leftarrow> mem_write m1 (p + 16) (replicate 16 0);
                m3 \<leftarrow> mem_write m2 (p + 32) (replicate 16 0);
                m4 \<leftarrow> mem_write m3 (p + 48) (replicate 16 0);
                sse2_zero_blocks4 m4 (p + 64) (loops - 4) }
      else Some (m, p, loops))"

fun sse2_zero_blocks :: "u8 list \<Rightarrow> nat \<Rightarrow> nat \<Rightarrow> (u8 list \<times> nat) option" where
  "sse2_zero_blocks m p 0 = Some (m, p)"
| "sse2_zero_blocks m p (Suc loops) =
     do { m1 \<leftarrow> mem_write m p (replicate 16 0); sse2_zero_blocks m1 (p + 16) loops }"

definition memset_sse2 :: "u8 list \<Rightarrow> nat \<Rightarrow> u32 \<Rightarrow> nat \<Rightarrow> u8 list option" where
  "memset_sse2 m ptr value num =
     (if num < 64 then memset_generic m ptr value num
      else do {
        (m1, p, num1) \<leftarrow> memset_align m ptr (ucast value) num;
        if value = 0
        then do {
          (m2, p2, loops) \<leftarrow> sse2_zero_blocks4 m1 p (num1 div 16);
          (m3, p3) \<leftarrow> sse2_zero_blocks m2 p2 loops;
          memset_bytes m3 p3 0 (num1 mod 16) }
        else memset_generic m1 ptr value num1 })"

fun sse2_copy_blocks ::
  "u8 list \<Rightarrow> nat \<Rightarrow> nat \<Rightarrow> nat \<Rightarrow> (u8 list \<times> nat \<times> nat \<times> nat) option" where
  "sse2_copy_blocks m d s left =
     (if left \<ge> 16
      then do { xs \<leftarrow> mem_read m s 16; m1 \<leftarrow> mem_write m d xs;
                sse2_copy_blocks m1 (d + 16) (s + 16) (left - 16) }
      else Some (m, d, s, left))"

definition memcpy_sse2 :: "u8 list \<Rightarrow> nat \<Rightarrow> nat \<Rightarrow> nat \<Rightarrow> u8 list option" where
  "memcpy_sse2 m dest src num =
     (if num < 64 then memcpy_generic m dest src num
      else do { (m1, d, s, left) \<leftarrow> sse2_copy_blocks m dest src num;
                memcpy_generic m1 d s left })"

text \<open>\<open>memmove\<close> calls the selected \<open>g_memcpy\<close> when the destination lies below the source.\<close>

fun memmove_back :: "u8 list \<Rightarrow> nat \<Rightarrow> nat \<Rightarrow> nat \<Rightarrow> u8 list option" where
  "memmove_back m d s 0 = Some m"
| "memmove_back m d s (Suc num) =
     do { c \<leftarrow> load m (s + num); m1 \<leftarrow> store m (d + num) c; memmove_back m1 d s num }"

definition memmove ::
  "(u8 list \<Rightarrow> nat \<Rightarrow> nat \<Rightarrow> nat \<Rightarrow> u8 list option) \<Rightarrow>
   u8 list \<Rightarrow> nat \<Rightarrow> nat \<Rightarrow> nat \<Rightarrow> u8 list option" where
  "memmove g_memcpy m d s num =
     (if d = s then Some m
      else if d < s then g_memcpy m d s num
      else memmove_back m d s num)"

declare memset_words.simps [simp del] sse2_zero_blocks4.simps [simp del]
  sse2_copy_blocks.simps [simp del]

section \<open>What the memory functions compute\<close>

text \<open>
  \<open>filled m p n v m'\<close>: the memory \<open>m'\<close> is \<open>m\<close> with the \<open>n\<close> cells from \<open>p\<close> set to \<open>v\<close>;
  \<open>copied m d s n m'\<close>: with the \<open>n\<close> cells from \<open>d\<close> set to those that \<open>m\<close> has from \<open>s\<close>.
\<close>

definition filled :: "'a list \<Rightarrow> nat \<Rightarrow> nat \<Rightarrow> 'a \<Rightarrow> 'a list" where
  "filled m p n v = map (\<lambda>i. if p \<le> i \<and> i < p + n then v else m ! i) [0..<length m]"

definition copied :: "'a list \<Rightarrow> nat \<Rightarrow> nat \<Rightarrow> nat \<Rightarrow> 'a list" where
  "copied m d s n =
     map (\<lambda>i. if d \<le> i \<and> i < d + n then m ! (s + (i - d)) else m ! i) [0..<length m]"

lemma length_filled [simp]: "length (filled m p n v) = length m"
  by (simp add: filled_def)

lemma nth_filled [simp]:
  "i < length m \<Longrightarrow> filled m p n v ! i = (if p \<le> i \<and> i < p + n then v else m ! i)"
  by (simp add: filled_def)

lemma length_copied [simp]: "length (copied m d s n) = length m"
  by (simp add: copied_def)

lemma nth_copied [simp]:
  "i < length m \<Longrightarrow>
   copied m d s n ! i = (if d \<le> i \<and> i < d + n then m ! (s + (i - d)) else m ! i)"
  by (simp add: copied_def)

lemma filled_0 [simp]: "filled m p 0 v = m"
  by (rule nth_equalityI) auto

lemma copied_0 [simp]: "copied m d s 0 = m"
  by (rule nth_equalityI) auto

lemma filled_filled: "filled (filled m p a v) (p + a) b v = filled m p (a + b) v"
  by (rule nth_equalityI) auto

lemma store_filled:
  "p < length m \<Longrightarrow> store m p v = Some (filled m p 1 v)"
  by (auto simp: store_def intro!: nth_equalityI simp: nth_list_update)

lemma mem_write_replicate:
  "p + n \<le> length m \<Longrightarrow> mem_write m p (replicate n v) = Some (filled m p n v)"
  by (auto simp: mem_write_def nth_append min_def intro!: nth_equalityI)

lemma mem_write_read_copied:
  assumes "s + n \<le> length m" and "d + n \<le> length m"
  shows "do { xs \<leftarrow> mem_read m s n; mem_write m d xs } = Some (copied m d s n)"
  using assms
  by (auto simp: mem_read_def mem_write_def nth_append min_def intro!: nth_equalityI)

subsection \<open>Filling\<close>

lemma splat_digit:
  fixes n low d high :: nat
  assumes "n < 256" and "n * low < d"
  shows "n * (low + d * (1 + 256 * high)) div d mod 256 = n"
proof -
  have "n * (low + d * (1 + 256 * high)) = n * low + d * (n + 256 * (n * high))"
    by (simp add: algebra_simps)
  moreover have "(n * low + d * (n + 256 * (n * high))) div d = n + 256 * (n * high)"
    using assms(2) by (subst div_mult_self2) auto
  ultimately show ?thesis using assms(1) by (simp only: mod_mult_self2 mod_less)
qed

lemma splat_arith:
  fixes n :: nat
  assumes n: "n < 256" and "k < 8"
  shows "n * 0x0101010101010101 div 2 ^ (8 * k) mod 256 = n"
proof -
  from assms(2) consider "k = 0" | "k = 1" | "k = 2" | "k = 3" | "k = 4" | "k = 5" | "k = 6" | "k = 7"
    by linarith
  then show ?thesis
  proof cases
    case 1 then show ?thesis using splat_digit[of n 0 1 "0x01010101010101"] n by simp
  next
    case 2 then show ?thesis using splat_digit[of n 1 "0x100" "0x010101010101"] n by simp
  next
    case 3 then show ?thesis using splat_digit[of n "0x0101" "0x10000" "0x0101010101"] n by simp
  next
    case 4 then show ?thesis using splat_digit[of n "0x010101" "0x1000000" "0x01010101"] n by simp
  next
    case 5 then show ?thesis using splat_digit[of n "0x01010101" "0x100000000" "0x010101"] n by simp
  next
    case 6 then show ?thesis using splat_digit[of n "0x0101010101" "0x10000000000" "0x0101"] n by simp
  next
    case 7 then show ?thesis using splat_digit[of n "0x010101010101" "0x1000000000000" 1] n by simp
  next
    case 8 then show ?thesis using splat_digit[of n "0x01010101010101" "0x100000000000000" 0] n by simp
  qed
qed

lemma le_bytes_splat: "le_bytes (ucast (v :: u8) * 0x0101010101010101) = replicate 8 v"
proof -
  let ?w = "ucast v * 0x0101010101010101 :: u64"
  have b: "unat v < 256" using unsigned_less[of v] by simp
  have mul: "unat ?w = unat v * 0x0101010101010101"
    using b by (simp add: unat_word_ariths unsigned_ucast_eq take_bit_eq_mod)
  have "unat (ucast (drop_bit (8 * i) ?w) :: u8) = unat v * 0x0101010101010101 div 2 ^ (8 * i) mod 256"
    for i
  proof -
    have "unat (drop_bit (8 * i) ?w) = unat v * 0x0101010101010101 div 2 ^ (8 * i)"
      unfolding unsigned_drop_bit_eq mul
      using b by (simp add: drop_bit_eq_div take_bit_nat_eq_self)
    then show ?thesis by (simp only: unsigned_ucast_eq) (simp add: take_bit_eq_mod)
  qed
  then have "ucast (drop_bit (8 * i) ?w) = v" if "i < 8" for i
    using splat_arith[OF b that] by (metis word_unat_eq_iff)
  then show ?thesis by (auto simp: le_bytes_def intro!: nth_equalityI)
qed

lemma memset_bytes_filled:
  "p + n \<le> length m \<Longrightarrow> memset_bytes m p v n = Some (filled m p n v)"
  by (induction m p v n rule: memset_bytes.induct)
    (auto simp: store_filled filled_filled[of _ _ 1, simplified])

lemma memset_words_filled:
  "p + n \<le> length m \<Longrightarrow>
   memset_words m p (ucast (v :: u8) * 0x0101010101010101) n
     = Some (filled m p (8 * (n div 8)) v, p + 8 * (n div 8), n mod 8)"
proof (induction n arbitrary: m p rule: less_induct)
  case (less n)
  show ?case
  proof (cases "n \<ge> 8")
    case True
    then have "memset_words (filled m p 8 v) (p + 8) (ucast v * 0x0101010101010101) (n - 8)
      = Some (filled (filled m p 8 v) (p + 8) (8 * ((n - 8) div 8)) v,
              p + 8 + 8 * ((n - 8) div 8), (n - 8) mod 8)"
      using less by simp
    moreover have "8 + 8 * ((n - 8) div 8) = 8 * (n div 8)" "(n - 8) mod 8 = n mod 8"
      using True by (simp_all add: le_div_geq le_mod_geq)
    ultimately show ?thesis using True less.prems
      by (subst memset_words.simps)
        (simp add: le_bytes_splat mem_write_replicate filled_filled add.assoc)
  next
    case False
    then show ?thesis by (subst memset_words.simps) simp
  qed
qed

lemma memset_generic_filled:
  assumes "p + n \<le> length m"
  shows "memset_generic m p value n = Some (filled m p n (ucast value))"
proof -
  have "p + 8 * (n div 8) + n mod 8 \<le> length m" using assms by simp
  then have "memset_bytes (filled m p (8 * (n div 8)) (ucast value)) (p + 8 * (n div 8))
      (ucast value) (n mod 8) = Some (filled m p (8 * (n div 8) + n mod 8) (ucast value))"
    by (simp add: memset_bytes_filled filled_filled)
  then show ?thesis using assms by (simp add: memset_generic_def memset_words_filled)
qed

text \<open>The number of bytes before the next 16-byte boundary.\<close>

definition align_gap :: "nat \<Rightarrow> nat" where
  "align_gap p = (16 - p mod 16) mod 16"

lemma align_gap_Suc: "p mod 16 \<noteq> 0 \<Longrightarrow> align_gap p = Suc (align_gap (p + 1))"
proof -
  assume "p mod 16 \<noteq> 0"
  moreover have "p mod 16 < 16" by simp
  ultimately show ?thesis by (auto simp: align_gap_def mod_Suc)
qed

lemma align_gap_0: "p mod 16 = 0 \<Longrightarrow> align_gap p = 0"
  by (simp add: align_gap_def)

lemma align_gap_less: "align_gap p < 16"
  by (simp add: align_gap_def)

lemma memset_align_filled:
  "p + n \<le> length m \<Longrightarrow> align_gap p \<le> n \<Longrightarrow>
   memset_align m p v n = Some (filled m p (align_gap p) v, p + align_gap p, n - align_gap p)"
proof (induction m p v n rule: memset_align.induct)
  case (2 m p v num)
  show ?case
  proof (cases "p mod 16 = 0")
    case False
    then have g: "align_gap p = Suc (align_gap (p + 1))" by (rule align_gap_Suc)
    show ?thesis
      using "2.IH"[OF False, of "filled m p 1 v"] "2.prems" False
      by (simp add: g store_filled filled_filled[of _ _ 1, simplified])
  qed (simp add: align_gap_0)
qed simp

lemma sse2_zero_blocks4_filled:
  "p + 16 * l \<le> length m \<Longrightarrow>
   sse2_zero_blocks4 m p l = Some (filled m p (64 * (l div 4)) 0, p + 64 * (l div 4), l mod 4)"
proof (induction l arbitrary: m p rule: less_induct)
  case (less l)
  show ?case
  proof (cases "l \<ge> 4")
    case True
    have 4: "filled (filled (filled (filled m p 16 0) (p + 16) 16 0) (p + 32) 16 0) (p + 48) 16 0
      = filled m p 64 (0 :: u8)"
      by (rule nth_equalityI) auto
    have "64 + 64 * ((l - 4) div 4) = 64 * (l div 4)" "(l - 4) mod 4 = l mod 4"
      using True by (simp_all add: le_div_geq le_mod_geq)
    then show ?thesis using True less.prems less.IH[of "l - 4" "p + 64" "filled m p 64 0"]
      by (subst sse2_zero_blocks4.simps)
        (simp add: mem_write_replicate 4 filled_filled add.assoc)
  next
    case False
    then show ?thesis by (subst sse2_zero_blocks4.simps) simp
  qed
qed

lemma sse2_zero_blocks_filled:
  "p + 16 * l \<le> length m \<Longrightarrow>
   sse2_zero_blocks m p l = Some (filled m p (16 * l) 0, p + 16 * l)"
  by (induction m p l rule: sse2_zero_blocks.induct)
    (auto simp: mem_write_replicate filled_filled)

text \<open>
  The zero path of \<open>memset_sse2\<close>: alignment bytes, 64-byte blocks, 16-byte blocks, tail.
\<close>

lemma memset_sse2_zero_filled:
  assumes "p + n \<le> length m"
  shows "memset_sse2 m p 0 n = Some (filled m p n 0)"
proof (cases "n < 64")
  case True
  then show ?thesis using assms by (simp add: memset_sse2_def memset_generic_filled)
next
  case False
  define g where "g = align_gap p"
  define n1 where "n1 = n - g"
  have g: "g < 16" "g \<le> n" using align_gap_less[of p] False by (simp_all add: g_def)
  have n: "n = g + n1" using g by (simp add: n1_def)
  define l where "l = n1 div 16"
  have l: "16 * l + n1 mod 16 = n1" by (simp add: l_def)
  have q: "64 * (l div 4) + 16 * (l mod 4) = 16 * l" by presburger
  have 1: "memset_align m p (ucast (0 :: u32)) n = Some (filled m p g 0, p + g, n1)"
    using assms g memset_align_filled[of p n m 0] by (simp add: g_def n1_def)
  have 2: "sse2_zero_blocks4 (filled m p g 0) (p + g) l
      = Some (filled m p (g + 64 * (l div 4)) 0, p + g + 64 * (l div 4), l mod 4)"
    using assms n l by (simp add: sse2_zero_blocks4_filled filled_filled)
  have 3: "sse2_zero_blocks (filled m p (g + 64 * (l div 4)) 0) (p + g + 64 * (l div 4)) (l mod 4)
      = Some (filled m p (g + 16 * l) 0, p + g + 16 * l)"
    using assms n l q filled_filled[of m p "g + 64 * (l div 4)" 0 "16 * (l mod 4)"]
    by (simp add: sse2_zero_blocks_filled add.assoc)
  have 4: "memset_bytes (filled m p (g + 16 * l) 0) (p + g + 16 * l) 0 (n1 mod 16)
      = Some (filled m p (g + n1) 0)"
    using assms n l filled_filled[of m p "g + 16 * l" 0 "n1 mod 16"]
    by (simp add: memset_bytes_filled add.assoc)
  show ?thesis using False 1 2 3 4 n by (simp add: memset_sse2_def l_def)
qed

subsection \<open>Copying\<close>

text \<open>
  A copy that runs upwards may be split when the destination does not lie inside the part of
  the source that is still to be read.
\<close>

lemma copied_copied:
  assumes "d \<le> s \<or> s + (a + b) \<le> d" and "s + (a + b) \<le> length m" and "d + (a + b) \<le> length m"
  shows "copied (copied m d s a) (d + a) (s + a) b = copied m d s (a + b)"
proof (rule nth_equalityI)
  fix i
  assume "i < length (copied (copied m d s a) (d + a) (s + a) b)"
  then have i: "i < length m" by simp
  show "copied (copied m d s a) (d + a) (s + a) b ! i = copied m d s (a + b) ! i"
  proof (cases "d + a \<le> i \<and> i < d + a + b")
    case True
    moreover have "s + a + (i - (d + a)) = s + (i - d)" using True by simp
    moreover have "s + (i - d) < length m" "\<not> (d \<le> s + (i - d) \<and> s + (i - d) < d + a)"
      using True assms by auto
    ultimately show ?thesis using i by auto
  qed (use i in auto)
qed simp

lemma load_store_copied:
  assumes "s < length m" and "d < length m"
  shows "do { c \<leftarrow> load m s; store m d c } = Some (copied m d s 1)"
  using assms
  by (auto simp: load_def store_def nth_list_update intro!: nth_equalityI)

lemma memmove_back_copied:
  "s \<le> d \<Longrightarrow> s + n \<le> length m \<Longrightarrow> d + n \<le> length m \<Longrightarrow>
   memmove_back m d s n = Some (copied m d s n)"
proof (induction n arbitrary: m)
  case (Suc n)
  let ?m = "m[d + n := m ! (s + n)]"
  have "memmove_back ?m d s n = Some (copied ?m d s n)" using Suc by simp
  moreover have "copied ?m d s n = copied m d s (Suc n)"
    using Suc.prems by (intro nth_equalityI) (auto simp: nth_list_update)
  ultimately show ?case using Suc.prems by (simp add: mem_simps)
qed simp

lemma memcpy_generic_copied:
  "d \<le> s \<or> s + n \<le> d \<Longrightarrow> s + n \<le> length m \<Longrightarrow> d + n \<le> length m \<Longrightarrow>
   memcpy_generic m d s n = Some (copied m d s n)"
proof (induction n arbitrary: m d s)
  case (Suc n)
  have step: "m[d := m ! s] = copied m d s 1"
    using load_store_copied[of s m d] Suc.prems by (simp add: mem_simps)
  have "memcpy_generic (copied m d s 1) (d + 1) (s + 1) n
      = Some (copied (copied m d s 1) (d + 1) (s + 1) n)"
    using Suc.prems by (intro Suc.IH) auto
  then show ?case
    using Suc.prems copied_copied[of d s 1 n m] step by (simp add: mem_simps)
qed simp

lemma sse2_copy_blocks_copied:
  "d \<le> s \<or> s + n \<le> d \<Longrightarrow> s + n \<le> length m \<Longrightarrow> d + n \<le> length m \<Longrightarrow>
   sse2_copy_blocks m d s n
     = Some (copied m d s (16 * (n div 16)), d + 16 * (n div 16), s + 16 * (n div 16), n mod 16)"
proof (induction n arbitrary: m d s rule: less_induct)
  case (less n)
  show ?case
  proof (cases "n \<ge> 16")
    case True
    have k: "16 + 16 * ((n - 16) div 16) = 16 * (n div 16)" "(n - 16) mod 16 = n mod 16"
      using True by (simp_all add: le_div_geq le_mod_geq)
    have le: "16 + 16 * ((n - 16) div 16) \<le> n" using True by simp
    have cc: "copied (copied m d s 16) (d + 16) (s + 16) (16 * ((n - 16) div 16))
        = copied m d s (16 * (n div 16))"
      using copied_copied[of d s 16 "16 * ((n - 16) div 16)" m] less.prems le
      unfolding k(1) by linarith
    have st: "do { xs \<leftarrow> mem_read m s 16; mem_write m d xs } = Some (copied m d s 16)"
      using True less.prems by (intro mem_write_read_copied) auto
    have ih: "sse2_copy_blocks (copied m d s 16) (d + 16) (s + 16) (n - 16)
        = Some (copied m d s (16 * (n div 16)), d + 16 * (n div 16), s + 16 * (n div 16), n mod 16)"
    proof -
      have "d + 16 \<le> s + 16 \<or> s + 16 + (n - 16) \<le> d + 16" using True less.prems(1) by linarith
      then show ?thesis
        using less.IH[of "n - 16" "d + 16" "s + 16" "copied m d s 16"] True less.prems(2,3) cc k
        by (simp add: add.assoc)
    qed
    show ?thesis using True st ih
      by (subst sse2_copy_blocks.simps) (auto split: bind_splits)
  next
    case False
    then show ?thesis by (subst sse2_copy_blocks.simps) simp
  qed
qed

lemma memcpy_sse2_copied:
  assumes "d \<le> s \<or> s + n \<le> d" and "s + n \<le> length m" and "d + n \<le> length m"
  shows "memcpy_sse2 m d s n = Some (copied m d s n)"
proof (cases "n < 64")
  case True
  then show ?thesis using assms by (simp add: memcpy_sse2_def memcpy_generic_copied)
next
  case False
  let ?k = "16 * (n div 16)"
  have n: "?k + n mod 16 = n" by simp
  have "memcpy_generic (copied m d s ?k) (d + ?k) (s + ?k) (n mod 16)
      = Some (copied (copied m d s ?k) (d + ?k) (s + ?k) (n mod 16))"
    using assms n by (intro memcpy_generic_copied) auto
  also have "copied (copied m d s ?k) (d + ?k) (s + ?k) (n mod 16) = copied m d s n"
    using copied_copied[of d s ?k "n mod 16" m] assms n by auto
  finally show ?thesis using False assms
    by (simp add: memcpy_sse2_def sse2_copy_blocks_copied)
qed

text \<open>The contract every routine installed as \<open>g_memcpy\<close> has to meet.\<close>

locale memcpy_provider =
  fixes cpy :: "u8 list \<Rightarrow> nat \<Rightarrow> nat \<Rightarrow> nat \<Rightarrow> u8 list option"
  assumes forward:
    "d \<le> s \<or> s + n \<le> d \<Longrightarrow> s + n \<le> length m \<Longrightarrow> d + n \<le> length m \<Longrightarrow>
     cpy m d s n = Some (copied m d s n)"
begin

lemma memmove_copied:
  assumes "s + n \<le> length m" and "d + n \<le> length m"
  shows "memmove cpy m d s n = Some (copied m d s n)"
proof (cases "d = s")
  case True
  then show ?thesis by (auto simp: memmove_def intro!: nth_equalityI)
next
  case False
  then show ?thesis
    using assms forward[of d s n m] memmove_back_copied[of s d n m] by (auto simp: memmove_def)
qed

end

interpretation generic_copy: memcpy_provider memcpy_generic
  by unfold_locales (rule memcpy_generic_copied)

interpretation sse2_copy: memcpy_provider memcpy_sse2
  by unfold_locales (rule memcpy_sse2_copied)

section \<open>Properties\<close>

text \<open>
  \<^bold>\<open>C20.\<close> \<open>memmove\<close> copies correctly for every overlap of source and destination, whether the
  scalar or the SSE2 \<open>memcpy\<close> is installed: the destination range of the result holds the bytes
  the source range held before the call, and no other byte changes.
\<close>

theorem memmove_correct:
  assumes "s + n \<le> length m" and "d + n \<le> length m"
  shows "memmove memcpy_generic m d s n = Some (copied m d s n) \<and>
    memmove memcpy_sse2 m d s n = Some (copied m d s n)"
  using assms by (simp add: generic_copy.memmove_copied sse2_copy.memmove_copied)

theorem memmove_correct_witness:
  "memmove memcpy_sse2 [1, 2, 3, 4, 5] 1 0 4 = Some [1, 1, 2, 3, 4]"
  using memmove_correct[of 0 4 "[1, 2, 3, 4, 5]" 1] by (simp add: copied_def)

text \<open>
  \<^bold>\<open>C21.\<close> \<open>memset_sse2\<close> on every branch. For fewer than 64 bytes and for the value 0 it fills the
  whole range. For a non-zero value it restarts \<open>memset_generic\<close> at the original pointer with the
  count that is left after aligning, so the last \<open>align_gap ptr\<close> bytes of the range keep their
  old contents.
\<close>

theorem memset_sse2_effect:
  assumes "p + n \<le> length m"
  shows "memset_sse2 m p value n
    = Some (filled m p (if n < 64 \<or> value = 0 then n else n - align_gap p) (ucast value))"
proof (cases "n < 64 \<or> value = 0")
  case True
  then show ?thesis using assms memset_sse2_zero_filled[of p n m]
    by (auto simp: memset_sse2_def memset_generic_filled)
next
  case False
  have g: "align_gap p < 16" by (rule align_gap_less)
  then have "filled (filled m p (align_gap p) v) p (n - align_gap p) v
      = filled m p (n - align_gap p) v" for v :: u8
    using False by (intro nth_equalityI) auto
  then show ?thesis using False g assms
    by (simp add: memset_sse2_def memset_align_filled memset_generic_filled)
qed

text \<open>An unaligned fill with a non-zero byte: the last byte of the range is not written.\<close>

theorem memset_sse2_effect_witness:
  "map_option (\<lambda>m. (m ! 1, m ! 49, m ! 50, m ! 64)) (memset_sse2 (replicate 80 0) 1 7 64)
     = Some (7, 7, 0, 0)"
  using memset_sse2_effect[of 1 64 "replicate 80 0" 7] by (simp add: align_gap_def)

end
