(* ===== verification/Libc_String.thy ===== *)
theory Libc_String
  imports Kernel_Prelude "HOL-Library.Char_ord" "HOL-Library.List_Lexorder" "HOL-Library.Sublist"
begin

text \<open>
  The string functions of \<open>src/libc/string.c\<close>. A \<open>const char*\<close> is the list of the characters
  from the pointer to the end of the object it points into; a written \<open>char*\<close> is such a list
  that is returned updated. \<open>None\<close> is an access outside the object. A returned pointer is the
  offset from the pointer that was passed, with \<open>Some None\<close> for \<open>NULL\<close>.
\<close>

abbreviation NUL :: char where "NUL \<equiv> CHR 0x00"

section \<open>The functions\<close>

fun strlen_generic :: "string \<Rightarrow> nat option" where
  "strlen_generic [] = None"
| "strlen_generic (c # str) = (if c = NUL then Some 0 else map_option Suc (strlen_generic str))"

text \<open>\<open>strcmp\<close>: the difference of the first two characters that differ, as unsigned chars.\<close>

fun strcmp :: "string \<Rightarrow> string \<Rightarrow> int option" where
  "strcmp (a # s1) (b # s2) =
     (if a \<noteq> NUL \<and> a = b then strcmp s1 s2 else Some (int (of_char a) - int (of_char b)))"
| "strcmp _ _ = None"

fun strncmp :: "string \<Rightarrow> string \<Rightarrow> nat \<Rightarrow> int option" where
  "strncmp s1 s2 0 = Some 0"
| "strncmp (a # s1) (b # s2) (Suc n) =
     (if a \<noteq> NUL \<and> a = b then strncmp s1 s2 n else Some (int (of_char a) - int (of_char b)))"
| "strncmp _ _ (Suc n) = None"

text \<open>The inner loop of \<open>strstr\<close> followed by its test \<open>!*n\<close>.\<close>

fun strstr_match :: "string \<Rightarrow> string \<Rightarrow> bool option" where
  "strstr_match (h # hs) (n # ns) =
     (if h \<noteq> NUL \<and> n \<noteq> NUL \<and> h = n then strstr_match hs ns else Some (n = NUL))"
| "strstr_match _ _ = None"

fun strstr_loop :: "string \<Rightarrow> string \<Rightarrow> nat \<Rightarrow> nat option option" where
  "strstr_loop [] needle i = None"
| "strstr_loop (h # hs) needle i =
     (if h = NUL then Some None
      else do {
        n \<leftarrow> load needle 0;
        if h = n
        then do { hit \<leftarrow> strstr_match (h # hs) needle;
                  if hit then Some (Some i) else strstr_loop hs needle (Suc i) }
        else strstr_loop hs needle (Suc i) })"

definition strstr :: "string \<Rightarrow> string \<Rightarrow> nat option option" where
  "strstr haystack needle =
     do { n \<leftarrow> load needle 0;
          if n = NUL then Some (Some 0) else strstr_loop haystack needle 0 }"

fun strchr :: "string \<Rightarrow> char \<Rightarrow> nat option option" where
  "strchr [] ch = None"
| "strchr (c # s) ch =
     (if c \<noteq> ch then (if c = NUL then Some None else map_option (map_option Suc) (strchr s ch))
      else Some (Some 0))"

text \<open>\<open>strcpy\<close> with the destination cursor \<open>d\<close>.\<close>

fun strcpy_at :: "string \<Rightarrow> nat \<Rightarrow> string \<Rightarrow> string option" where
  "strcpy_at dest d [] = None"
| "strcpy_at dest d (c # src) =
     do { dest1 \<leftarrow> store dest d c; if c = NUL then Some dest1 else strcpy_at dest1 (d + 1) src }"

definition strcpy :: "string \<Rightarrow> string \<Rightarrow> string option" where
  "strcpy dest src = strcpy_at dest 0 src"

definition strcat :: "string \<Rightarrow> string \<Rightarrow> string option" where
  "strcat dest src = do { d \<leftarrow> strlen_generic dest; strcpy_at dest d src }"

fun strnlen :: "string \<Rightarrow> nat \<Rightarrow> nat option" where
  "strnlen s 0 = Some 0"
| "strnlen [] (Suc maxlen) = None"
| "strnlen (c # s) (Suc maxlen) =
     (if c = NUL then Some 0 else map_option Suc (strnlen s maxlen))"

text \<open>The copy loop of \<open>strncpy\<close> and \<open>strncat\<close>: at most \<open>n\<close> characters, the stop position is returned.\<close>

fun strn_copy :: "string \<Rightarrow> nat \<Rightarrow> string \<Rightarrow> nat \<Rightarrow> (string \<times> nat \<times> nat) option" where
  "strn_copy dest d src 0 = Some (dest, d, 0)"
| "strn_copy dest d [] (Suc n) = None"
| "strn_copy dest d (c # src) (Suc n) =
     (if c = NUL then Some (dest, d, Suc n)
      else do { dest1 \<leftarrow> store dest d c; strn_copy dest1 (d + 1) src n })"

fun strn_pad :: "string \<Rightarrow> nat \<Rightarrow> nat \<Rightarrow> string option" where
  "strn_pad dest d 0 = Some dest"
| "strn_pad dest d (Suc n) = do { dest1 \<leftarrow> store dest d NUL; strn_pad dest1 (d + 1) n }"

definition strncpy :: "string \<Rightarrow> string \<Rightarrow> nat \<Rightarrow> string option" where
  "strncpy dest src n = do { (dest1, i, left) \<leftarrow> strn_copy dest 0 src n; strn_pad dest1 i left }"

definition strncat :: "string \<Rightarrow> string \<Rightarrow> nat \<Rightarrow> string option" where
  "strncat dest src n =
     do { dest_len \<leftarrow> strlen_generic dest;
          (dest1, i, left) \<leftarrow> strn_copy dest dest_len src n;
          store dest1 i NUL }"

fun strrchr_loop :: "string \<Rightarrow> char \<Rightarrow> nat \<Rightarrow> nat option \<Rightarrow> nat option option" where
  "strrchr_loop [] ch i lst = None"
| "strrchr_loop (c # str) ch i lst =
     (let lst1 = (if c = ch then Some i else lst)
      in if c = NUL then Some lst1 else strrchr_loop str ch (Suc i) lst1)"

definition strrchr :: "string \<Rightarrow> char \<Rightarrow> nat option option" where
  "strrchr str ch = strrchr_loop str ch 0 None"

fun strpbrk_accept :: "char \<Rightarrow> string \<Rightarrow> bool option" where
  "strpbrk_accept c [] = None"
| "strpbrk_accept c (a # accept) =
     (if a = NUL then Some False else if a = c then Some True else strpbrk_accept c accept)"

fun strpbrk :: "string \<Rightarrow> string \<Rightarrow> nat option option" where
  "strpbrk [] accept = None"
| "strpbrk (c # s) accept =
     (if c = NUL then Some None
      else do { hit \<leftarrow> strpbrk_accept c accept;
                if hit then Some (Some 0) else map_option (map_option Suc) (strpbrk s accept) })"

text \<open>
  \<open>itoa\<close>. The base is an \<open>int\<close> and is converted to 64 bits for the division; the remainder is
  converted back to \<open>int\<close> and its character to \<open>char\<close>. Base 0 divides by zero; with base 1 the
  digit loop does not end before it has left the buffer.
\<close>

definition itoa_digit :: "u32 \<Rightarrow> char" where
  "itoa_digit rem =
     (let c = (if sint rem > 9 then (sint rem - 10) + 65 else sint rem + 48)
      in char_of (nat (c mod 256)))"

function itoa_digits :: "u64 \<Rightarrow> string \<Rightarrow> nat \<Rightarrow> u64 \<Rightarrow> (string \<times> nat) option" where
  "itoa_digits n str i base =
     (if n = 0 then Some (str, i)
      else if base = 0 \<or> i \<ge> length str then None
      else itoa_digits (n div base) (str[i := itoa_digit (ucast (n mod base))]) (i + 1) base)"
  by pat_completeness auto

termination
  by (relation "measure (\<lambda>(n, str, i, base). length str - i)") auto

declare itoa_digits.simps [simp del]

function itoa_reverse :: "string \<Rightarrow> nat \<Rightarrow> nat \<Rightarrow> string option" where
  "itoa_reverse str start end' =
     (if start < end'
      then do { a \<leftarrow> load str start; b \<leftarrow> load str end';
                str1 \<leftarrow> store str start b; str2 \<leftarrow> store str1 end' a;
                itoa_reverse str2 (start + 1) (end' - 1) }
      else Some str)"
  by pat_completeness auto

termination
  by (relation "measure (\<lambda>(str, start, end'). end' - start)") auto

declare itoa_reverse.simps [simp del]

definition itoa :: "u64 \<Rightarrow> string \<Rightarrow> u32 \<Rightarrow> string option" where
  "itoa n str base =
     (if n = 0 then do { str1 \<leftarrow> store str 0 (CHR ''0''); store str1 1 NUL }
      else do { (str1, i) \<leftarrow> itoa_digits n str 0 (scast base);
                str2 \<leftarrow> store str1 i NUL;
                itoa_reverse str2 0 (i - 1) })"

section \<open>C strings\<close>

text \<open>The string a pointer denotes: the characters before the first NUL of the object.\<close>

definition cstr :: "string \<Rightarrow> string option" where
  "cstr s = (if NUL \<in> set s then Some (takeWhile (\<lambda>c. c \<noteq> NUL) s) else None)"

lemma cstr_Nil [simp]: "cstr [] = None"
  by (simp add: cstr_def)

lemma cstr_Cons [simp]:
  "cstr (c # s) = (if c = NUL then Some [] else map_option ((#) c) (cstr s))"
  by (auto simp: cstr_def)

lemma cstr_no_NUL: "cstr s = Some x \<Longrightarrow> NUL \<notin> set x"
  by (auto simp: cstr_def dest: set_takeWhileD split: if_splits)

lemma cstr_append_NUL [simp]: "NUL \<notin> set x \<Longrightarrow> cstr (x @ NUL # r) = Some x"
  by (induction x) auto

lemma strlen_generic_cstr: "strlen_generic s = map_option length (cstr s)"
  by (induction s) (auto simp: option.map_comp comp_def)

lemma strchr_cstr:
  "cstr s = Some x \<Longrightarrow> ch \<noteq> NUL \<Longrightarrow>
   strchr s ch = Some (if ch \<in> set x then Some (length (takeWhile (\<lambda>c. c \<noteq> ch) x)) else None)"
  by (induction s arbitrary: x) (auto split: if_splits)

lemma strnlen_cstr: "cstr s = Some x \<Longrightarrow> strnlen s n = Some (min n (length x))"
  by (induction s n arbitrary: x rule: strnlen.induct) (auto split: if_splits)

section \<open>Comparison and search\<close>

lemma of_char_pos: "c \<noteq> NUL \<Longrightarrow> 0 < (of_char c :: nat)"
proof -
  assume "c \<noteq> NUL"
  then have "(of_char c :: nat) \<noteq> of_char NUL" by (simp only: of_char_eq_iff) simp
  then show ?thesis by simp
qed

lemma strcmp_cstr:
  "cstr s1 = Some x \<Longrightarrow> cstr s2 = Some y \<Longrightarrow>
   \<exists>r. strcmp s1 s2 = Some r \<and> (r = 0 \<longleftrightarrow> x = y) \<and> (r < 0 \<longleftrightarrow> x < y)"
  by (induction s1 s2 arbitrary: x y rule: strcmp.induct)
    (auto simp: less_char_def of_char_pos split: if_splits)

lemma strncmp_cstr:
  "cstr s1 = Some x \<Longrightarrow> cstr s2 = Some y \<Longrightarrow>
   \<exists>r. strncmp s1 s2 n = Some r \<and> (r = 0 \<longleftrightarrow> take n x = take n y)
     \<and> (r < 0 \<longleftrightarrow> take n x < take n y)"
  by (induction s1 s2 n arbitrary: x y rule: strncmp.induct)
    (auto simp: less_char_def of_char_pos split: if_splits)

lemma strstr_match_cstr:
  "cstr h = Some x \<Longrightarrow> cstr n = Some y \<Longrightarrow> strstr_match h n = Some (prefix y x)"
  by (induction h n arbitrary: x y rule: strstr_match.induct) (auto split: if_splits)

text \<open>The offset of the first occurrence of \<open>y\<close> in \<open>x\<close>.\<close>

fun find_sub :: "string \<Rightarrow> string \<Rightarrow> nat option" where
  "find_sub y [] = (if y = [] then Some 0 else None)"
| "find_sub y (c # x) =
     (if prefix y (c # x) then Some 0 else map_option Suc (find_sub y x))"

lemma find_sub_None: "find_sub y x = None \<longleftrightarrow> \<not> sublist y x"
  by (induction x) (auto simp: sublist_Cons_right)

lemma find_sub_Some:
  "find_sub y x = Some i \<Longrightarrow> prefix y (drop i x) \<and> i \<le> length x \<and> (\<forall>j<i. \<not> prefix y (drop j x))"
proof (induction x arbitrary: i)
  case (Cons c x)
  show ?case
  proof (cases "prefix y (c # x)")
    case False
    with Cons.prems obtain k where k: "find_sub y x = Some k" "i = Suc k" by auto
    have "\<not> prefix y (drop j (c # x))" if "j < i" for j
      using that False Cons.IH[OF k(1)] k(2) by (cases j) auto
    then show ?thesis using Cons.IH[OF k(1)] k(2) by auto
  qed (use Cons.prems in simp)
qed (simp split: if_splits)

lemma strstr_loop_cstr:
  "cstr h = Some x \<Longrightarrow> cstr n = Some y \<Longrightarrow> y \<noteq> [] \<Longrightarrow>
   strstr_loop h n i = Some (map_option ((+) i) (find_sub y x))"
proof (induction h arbitrary: x i)
  case (Cons c hs)
  obtain a ns where n: "n = a # ns" "a \<noteq> NUL" "a = hd y"
    using Cons.prems(2,3) by (cases n) (auto split: if_splits)
  show ?case
  proof (cases "c = NUL")
    case True
    then show ?thesis using Cons.prems by simp
  next
    case False
    then obtain x1 where x: "x = c # x1" "cstr hs = Some x1" using Cons.prems(1) by auto
    have m: "strstr_match (c # hs) n = Some (prefix y x)"
      using Cons.prems(1,2) by (rule strstr_match_cstr)
    have hd: "prefix y x \<Longrightarrow> c = a" using n x Cons.prems(3) by (cases y) auto
    have "strstr_loop hs n (Suc i) = Some (map_option ((+) (Suc i)) (find_sub y x1))"
      using Cons.IH x(2) Cons.prems(2,3) by simp
    moreover have "map_option ((+) (Suc i)) z = map_option ((+) i) (map_option Suc z)" for z
      by (cases z) auto
    ultimately show ?thesis using False m x n hd by (auto simp: load_def)
  qed
qed simp

section \<open>Copying strings\<close>

lemma strn_copy_cstr:
  "cstr src = Some x \<Longrightarrow> d + min n (length x) \<le> length dest \<Longrightarrow>
   strn_copy dest d src n
     = Some (take d dest @ take n x @ drop (d + min n (length x)) dest,
             d + min n (length x), n - length x)"
proof (induction dest d src n arbitrary: x rule: strn_copy.induct)
  case (3 dest d c src n)
  show ?case
  proof (cases "c = NUL")
    case False
    then obtain x1 where x: "x = c # x1" "cstr src = Some x1" using 3 by auto
    have d: "d < length dest" using 3 x by simp
    have "strn_copy (dest[d := c]) (d + 1) src n
        = Some (take (d + 1) (dest[d := c]) @ take n x1
                  @ drop (d + 1 + min n (length x1)) (dest[d := c]),
                d + 1 + min n (length x1), n - length x1)"
      using "3.IH"[of "dest[d := c]" x1] False d x "3.prems" by (simp add: mem_simps)
    moreover have "take (d + 1) (dest[d := c]) = take d dest @ [c]"
      using d by (simp add: take_Suc_conv_app_nth)
    ultimately show ?thesis using False d x by (simp add: mem_simps)
  qed (use 3 in simp)
qed simp_all

lemma strn_pad_eq:
  "d + n \<le> length dest \<Longrightarrow>
   strn_pad dest d n = Some (take d dest @ replicate n NUL @ drop (d + n) dest)"
proof (induction n arbitrary: dest d)
  case (Suc n)
  have "strn_pad (dest[d := NUL]) (d + 1) n
      = Some (take (d + 1) (dest[d := NUL]) @ replicate n NUL @ drop (d + 1 + n) (dest[d := NUL]))"
    using Suc by simp
  moreover have "take (d + 1) (dest[d := NUL]) = take d dest @ [NUL]"
    using Suc.prems by (simp add: take_Suc_conv_app_nth)
  ultimately show ?case using Suc.prems by (simp add: mem_simps)
qed simp

section \<open>Number conversion\<close>

text \<open>The digits of a number, least significant first, and the value of a string of digits.\<close>

function digits_le :: "nat \<Rightarrow> nat \<Rightarrow> nat list" where
  "digits_le b n = (if n = 0 \<or> b < 2 then [] else n mod b # digits_le b (n div b))"
  by pat_completeness auto

termination
  by (relation "measure snd") auto

declare digits_le.simps [simp del]

definition digit_char :: "nat \<Rightarrow> char" where
  "digit_char k = (if k > 9 then char_of (k - 10 + 65) else char_of (k + 48))"

definition char_value :: "char \<Rightarrow> nat" where
  "char_value c = (if of_char c \<ge> (65 :: nat) then of_char c - 55 else of_char c - 48)"

definition parse_digits :: "nat \<Rightarrow> string \<Rightarrow> nat" where
  "parse_digits b = foldl (\<lambda>a c. a * b + char_value c) 0"

lemma char_value_digit_char: "k < 36 \<Longrightarrow> char_value (digit_char k) = k"
  by (simp add: char_value_def digit_char_def of_char_of)

lemma digit_char_not_NUL: "k < 36 \<Longrightarrow> digit_char k \<noteq> NUL"
proof
  assume "k < 36" and "digit_char k = NUL"
  then have "(of_char (digit_char k) :: nat) = of_char NUL" by simp
  then show False using \<open>k < 36\<close> by (simp add: digit_char_def of_char_of split: if_splits)
qed

lemma digits_le_bound: "2 \<le> b \<Longrightarrow> k \<in> set (digits_le b n) \<Longrightarrow> k < b"
  by (induction b n rule: digits_le.induct)
    (subst (asm) (2) digits_le.simps, auto split: if_splits)

lemma digits_le_length: "2 \<le> b \<Longrightarrow> n < 2 ^ k \<Longrightarrow> length (digits_le b n) \<le> k"
proof (induction k arbitrary: n)
  case (Suc k)
  have "n div b \<le> n div 2" using Suc.prems(1) by (simp add: div_le_mono2)
  then have "n div b < 2 ^ k" using Suc.prems(2) by simp
  then show ?case using Suc by (subst digits_le.simps) simp
qed (simp add: digits_le.simps)

lemma parse_digits_le:
  assumes "2 \<le> b" and "b \<le> 36"
  shows "parse_digits b (rev (map digit_char (digits_le b n))) = n"
proof (induction n rule: less_induct)
  case (less n)
  show ?case
  proof (cases "n = 0")
    case True
    then show ?thesis by (simp add: parse_digits_def digits_le.simps)
  next
    case False
    have "n mod b < 36" using assms mod_less_divisor[of b n] by linarith
    then show ?thesis using False assms less[of "n div b"]
      by (subst digits_le.simps) (simp add: parse_digits_def char_value_digit_char)
  qed
qed

lemma itoa_digit_eq:
  assumes "unat w < 36"
  shows "itoa_digit (ucast (w :: u64)) = digit_char (unat w)"
proof -
  have u: "unat (ucast w :: u32) = unat w"
    using assms by (simp add: unsigned_ucast_eq take_bit_nat_eq_self)
  have "uint (ucast w :: u32) = int (unat w)" by (simp flip: u)
  moreover have "signed_take_bit 31 (int (unat w)) = int (unat w)"
  proof -
    have "0 \<le> int (unat w)" "int (unat w) < 36" using assms by linarith+
    then show ?thesis by (intro signed_take_bit_int_eq_self) (simp_all del: of_nat_unat)
  qed
  ultimately have "sint (ucast w :: u32) = int (unat w)" by (simp add: sint_uint)
  moreover have "nat ((int k - 10 + 65) mod 256) = k - 10 + 65" if "9 < k" "k < 36" for k
    using that by (simp add: nat_diff_distrib')
  moreover have "nat ((int k + 48) mod 256) = k + 48" if "k < 36" for k
    using that by simp
  ultimately show ?thesis using assms unfolding itoa_digit_def digit_char_def Let_def
    by (simp del: of_nat_unat)
qed

lemma itoa_digits_eq:
  assumes "2 \<le> unat base" and "unat base \<le> 36"
  shows "i + length (digits_le (unat base) (unat n)) \<le> length str \<Longrightarrow>
    itoa_digits n str i base
      = Some (take i str @ map digit_char (digits_le (unat base) (unat n))
                @ drop (i + length (digits_le (unat base) (unat n))) str,
              i + length (digits_le (unat base) (unat n)))"
proof (induction "unat n" arbitrary: n str i rule: less_induct)
  case less
  show ?case
  proof (cases "n = 0")
    case True
    then show ?thesis by (simp add: itoa_digits.simps digits_le.simps)
  next
    case False
    let ?b = "unat base"
    let ?str = "str[i := digit_char (unat n mod ?b)]"
    have b0: "base \<noteq> 0" and n0: "unat n \<noteq> 0" using assms False by (auto simp: unat_eq_zero)
    have dec: "unat (n div base) < unat n" using n0 assms by (simp add: unat_div)
    have ds: "digits_le ?b (unat n) = unat n mod ?b # digits_le ?b (unat (n div base))"
      using n0 assms by (subst digits_le.simps) (simp add: unat_div)
    have i: "i < length str" using less.prems ds by simp
    have "unat n mod ?b < 36" using assms mod_less_divisor[of ?b "unat n"] by linarith
    then have d: "itoa_digit (ucast (n mod base)) = digit_char (unat n mod ?b)"
      using itoa_digit_eq[of "n mod base"] by (simp add: unat_mod)
    have "take (Suc i) ?str = take i str @ [digit_char (unat n mod ?b)]"
      using i by (simp add: take_Suc_conv_app_nth)
    then show ?thesis
      using less.hyps[OF dec, of "Suc i" ?str] less.prems False b0 i d ds
      by (subst itoa_digits.simps) simp
  qed
qed

definition reversed :: "'a list \<Rightarrow> nat \<Rightarrow> nat \<Rightarrow> 'a list" where
  "reversed xs s e = map (\<lambda>k. if s \<le> k \<and> k \<le> e then xs ! (s + e - k) else xs ! k) [0..<length xs]"

lemma itoa_reverse_eq:
  "e < length str \<Longrightarrow> itoa_reverse str s e = Some (reversed str s e)"
proof (induction str s e rule: itoa_reverse.induct)
  case (1 str s e)
  show ?case
  proof (cases "s < e")
    case True
    let ?str = "str[s := str ! e, e := str ! s]"
    have "itoa_reverse ?str (s + 1) (e - 1) = Some (reversed ?str (s + 1) (e - 1))"
      using 1 True by (simp add: mem_simps)
    moreover have "reversed ?str (s + 1) (e - 1) = reversed str s e"
      using True "1.prems" by (auto simp: reversed_def nth_list_update)
    ultimately show ?thesis using True "1.prems"
      by (subst itoa_reverse.simps) (simp add: mem_simps)
  next
    case False
    then have "s + e - k = k" if "s \<le> k" "k \<le> e" for k using that by simp
    then have "reversed str s e = str" by (auto simp: reversed_def intro!: nth_equalityI)
    then show ?thesis using False by (subst itoa_reverse.simps) simp
  qed
qed

lemma reversed_prefix:
  "ds \<noteq> [] \<Longrightarrow> reversed (ds @ r) 0 (length ds - 1) = rev ds @ r"
proof (rule nth_equalityI)
  assume ds: "ds \<noteq> []"
  fix i
  assume "i < length (reversed (ds @ r) 0 (length ds - 1))"
  then have "i < length (ds @ r)" by (simp add: reversed_def)
  moreover have "length ds - 1 - i < length ds" using ds by (cases ds) auto
  moreover have "i \<le> length ds - 1 \<longleftrightarrow> i < length ds" using ds by (cases ds) auto
  ultimately show "reversed (ds @ r) 0 (length ds - 1) ! i = (rev ds @ r) ! i"
    by (auto simp: reversed_def nth_append rev_nth)
qed (simp add: reversed_def)

text \<open>
  Round trip of \<open>itoa\<close>: for a base from 2 to 36 and a buffer of 65 characters it returns,
  the buffer is terminated and its digits, read back in that base, are the number.
\<close>

lemma itoa_roundtrip:
  assumes "2 \<le> unat (scast base :: u64)" and "unat (scast base :: u64) \<le> 36" and "65 \<le> length str"
  shows "\<exists>str' ds. itoa n str base = Some str' \<and> cstr str' = Some ds
    \<and> parse_digits (unat (scast base :: u64)) ds = unat n \<and> length str' = length str"
proof (cases "n = 0")
  case True
  obtain a b r where "str = a # b # r" using assms(3) by (cases str; cases "tl str") auto
  then show ?thesis using True
    by (auto simp: itoa_def store_def parse_digits_def char_value_def of_char_of)
next
  case False
  let ?b = "unat (scast base :: u64)"
  let ?ds = "map digit_char (digits_le ?b (unat n))"
  have n0: "unat n \<noteq> 0" using False by (simp add: unat_eq_zero)
  have len: "length ?ds \<le> 64"
    using digits_le_length[OF assms(1), of "unat n" 64] unsigned_less[of n] by simp
  have ne: "?ds \<noteq> []" using n0 assms(1) by (subst digits_le.simps) simp
  have nul: "NUL \<notin> set (rev ?ds)"
  proof
    assume "NUL \<in> set (rev ?ds)"
    then obtain k where "k \<in> set (digits_le ?b (unat n))" "digit_char k = NUL" by auto
    then show False
      using digits_le_bound[OF assms(1), of k "unat n"] digit_char_not_NUL[of k] assms(2) by simp
  qed
  obtain c r where d: "drop (length ?ds) str = c # r"
    using len assms(3) by (cases "drop (length ?ds) str") auto
  have l: "length (?ds @ c # r) = length str"
    using len assms(3) arg_cong[OF d, of length] by simp
  have "itoa_digits n str 0 (scast base) = Some (?ds @ c # r, length ?ds)"
    using itoa_digits_eq[OF assms(1,2), of 0 n str] len assms(3) d by simp
  moreover have "store (?ds @ c # r) (length ?ds) NUL = Some (?ds @ NUL # r)"
    unfolding store_def by (simp only: list_update_length) simp
  moreover have "itoa_reverse (?ds @ NUL # r) 0 (length ?ds - 1) = Some (rev ?ds @ NUL # r)"
    using ne itoa_reverse_eq[of "length ?ds - 1" "?ds @ NUL # r" 0] reversed_prefix[OF ne, of "NUL # r"]
    by simp
  ultimately have "itoa n str base = Some (rev ?ds @ NUL # r)"
    using False by (simp add: itoa_def)
  then show ?thesis
    using cstr_append_NUL[OF nul, of r] parse_digits_le[OF assms(1,2), of "unat n"] l by auto
qed

section \<open>Properties\<close>

text \<open>
  \<open>strstr\<close> returns the offset of the first occurrence of the needle, and \<open>NULL\<close> exactly
  when the needle does not occur.
\<close>

lemma strstr_correct:
  assumes "cstr h = Some x" and "cstr n = Some y"
  shows "(\<exists>i. strstr h n = Some (Some i) \<and> prefix y (drop i x) \<and> (\<forall>j<i. \<not> prefix y (drop j x)))
    \<or> strstr h n = Some None \<and> \<not> sublist y x"
proof (cases "y = []")
  case True
  then show ?thesis using assms by (cases n) (auto simp: strstr_def load_def split: if_splits)
next
  case False
  then have "strstr h n = Some (find_sub y x)"
    using assms strstr_loop_cstr[OF assms, of 0]
    by (cases n; cases "find_sub y x") (auto simp: strstr_def load_def split: if_splits)
  then show ?thesis
    using find_sub_None[of y x] find_sub_Some[of y x] by (cases "find_sub y x") auto
qed

lemma strncpy_text:
  assumes "cstr src = Some x" and "n \<le> length buf"
  shows "strncpy buf src n = Some (take n (x @ replicate n NUL) @ drop n buf)"
proof -
  have "take n x @ replicate (n - length x) NUL = take n (x @ replicate n NUL)"
    by (simp add: min_def)
  moreover have "strn_copy buf 0 src n = Some (take n x @ drop (min n (length x)) buf, min n (length x), n - length x)"
    using strn_copy_cstr[OF assms(1), of 0 n buf] assms(2) by simp
  moreover have "strn_pad (take n x @ drop (min n (length x)) buf) (min n (length x)) (n - length x)
      = Some (take n x @ replicate (n - length x) NUL @ drop n buf)"
    using assms(2) by (subst strn_pad_eq) (auto simp: min_def)
  ultimately show ?thesis
    by (simp add: strncpy_def flip: append_assoc)
qed

text \<open>
  \<open>strncpy\<close> writes exactly \<open>n\<close> characters, the source cut or padded with NUL, and
  \<open>strncat\<close> appends at most \<open>n\<close> characters and terminates the result; neither leaves the
  destination when it has that room.
\<close>

lemma strncpy_strncat_correct:
  assumes "cstr src = Some x" and "n \<le> length buf"
    and "cstr dest = Some d" and "length d + min n (length x) < length dest"
  shows "strncpy buf src n = Some (take n (x @ replicate n NUL) @ drop n buf)
    \<and> (\<exists>dest'. strncat dest src n = Some dest' \<and> cstr dest' = Some (d @ take n x)
          \<and> length dest' = length dest)"
proof
  show "strncpy buf src n = Some (take n (x @ replicate n NUL) @ drop n buf)"
    using assms(1,2) by (rule strncpy_text)
next
  have "d = takeWhile (\<lambda>c. c \<noteq> NUL) dest" using assms(3) by (simp add: cstr_def split: if_splits)
  then have d: "take (length d) dest = d" "NUL \<notin> set d" "NUL \<notin> set x"
    using assms(1,3) cstr_no_NUL takeWhile_eq_take by metis+
  let ?k = "length d + min n (length x)"
  have "drop ?k dest = dest ! ?k # drop (Suc ?k) dest"
    using assms(4) by (simp add: Cons_nth_drop_Suc)
  then have "store (d @ take n x @ drop ?k dest) ?k NUL = Some (d @ take n x @ NUL # drop (Suc ?k) dest)"
    by (simp add: store_def list_update_append min_def)
  then have "strncat dest src n = Some (d @ take n x @ NUL # drop (Suc ?k) dest)"
    using strn_copy_cstr[OF assms(1), of "length d" n dest] assms(3,4) d(1)
    by (simp add: strncat_def strlen_generic_cstr)
  moreover have "NUL \<notin> set (d @ take n x)" using d by (auto dest: in_set_takeD)
  ultimately show "\<exists>dest'. strncat dest src n = Some dest' \<and> cstr dest' = Some (d @ take n x)
      \<and> length dest' = length dest"
    using assms(4) cstr_append_NUL[of "d @ take n x"] by (auto simp: min_def)
qed

end
