(* ===== verification/Kom_Types.thy ===== *)
theory Kom_Types
  imports Kernel_Prelude
begin

text \<open>
  Types shared by the components of the kernel object model: the error codes and the object
  types of \<open>src/archs/kom/common/kobject.hpp\<close>.
\<close>

section \<open>Error codes\<close>

text \<open>The \<open>KOM_ERR\<close> codes of \<open>kobject.hpp\<close>, shared by every component of the object model.\<close>

datatype kom_error =
    KOM_OK
  | KOM_ERR_STALE_HANDLE
  | KOM_ERR_CAP_DENIED
  | KOM_ERR_INVALID_TYPE
  | KOM_ERR_NO_MEMORY
  | KOM_ERR_UNSUPPORTED
  | KOM_ERR_NOT_FOUND
  | KOM_ERR_COLLISION
  | KOM_ERR_IO
  | KOM_ERR_PEER_CLOSED
  | KOM_ERR_BUFFER_TOO_SMALL

section \<open>Object types\<close>

datatype kobject_type =
    PROCESS
  | THREAD
  | MEMORY_OBJECT
  | EVENT
  | INTERRUPT
  | TIMER
  | CHANNEL
  | PORT
  | BLOB
  | CONTAINER
  | DEVICE
  | BLOCK_DEVICE
  | CHAR_DEVICE
  | NET_DEVICE
  | GPU_DEVICE

end
