(* ===== verification/Kblob.thy ===== *)
theory Kblob
  imports Kom_Types
begin

text \<open>
  Byte objects of the kernel object model, \<open>src/archs/kom/common/kblob.cpp\<close>. A
  \<open>KVolatileBlob\<close> keeps a growable kernel buffer; its read, write and resize run under the
  blob's reader-writer lock and are atomic here. \<open>kmalloc\<close> is an argument: for a size it
  returns a block of that many bytes with arbitrary contents, or null.
\<close>

section \<open>Volatile blobs\<close>

record kvolatile_blob =
  blob_name :: string
  blob_size :: u64
  blob_buffer :: "u8 list option"
  blob_capacity :: u64

text \<open>\<open>KBlob::KBlob\<close> keeps at most 127 characters of the name.\<close>

definition kblob_name :: "string option \<Rightarrow> string" where
  "kblob_name blobName = (case blobName of None \<Rightarrow> [] | Some n \<Rightarrow> take 127 n)"

definition kvolatile_blob_new :: "string option \<Rightarrow> kvolatile_blob" where
  "kvolatile_blob_new blobName =
     \<lparr>blob_name = kblob_name blobName, blob_size = 0, blob_buffer = None, blob_capacity = 0\<rparr>"

definition kvolatile_blob_new_data ::
  "(u64 \<Rightarrow> u8 list option) \<Rightarrow> string option \<Rightarrow> u8 list option \<Rightarrow> u64 \<Rightarrow> kvolatile_blob option" where
  "kvolatile_blob_new_data kmalloc blobName data data_size =
     do { buf \<leftarrow>
            (if data_size > 0
             then (case (kmalloc data_size, data) of
                     (Some m, Some d) \<Rightarrow>
                       do { xs \<leftarrow> mem_read d 0 (unat data_size);
                            m1 \<leftarrow> mem_write m 0 xs; Some (Some m1) }
                   | (b, _) \<Rightarrow> Some b)
             else Some None);
          Some \<lparr>blob_name = kblob_name blobName, blob_size = data_size, blob_buffer = buf,
                blob_capacity = data_size\<rparr> }"

text \<open>Reads and writes through the \<open>buffer\<close> pointer; through a null pointer only an empty one is defined.\<close>

definition buffer_read :: "u8 list option \<Rightarrow> nat \<Rightarrow> nat \<Rightarrow> u8 list option" where
  "buffer_read b off n =
     (case b of None \<Rightarrow> (if n = 0 then Some [] else None) | Some m \<Rightarrow> mem_read m off n)"

definition buffer_write :: "u8 list option \<Rightarrow> nat \<Rightarrow> u8 list \<Rightarrow> u8 list option option" where
  "buffer_write b off xs =
     (case b of None \<Rightarrow> (if xs = [] then Some None else None)
      | Some m \<Rightarrow> map_option Some (mem_write m off xs))"

definition kvolatile_blob_read :: "kvolatile_blob \<Rightarrow> u64 \<Rightarrow> u64 \<Rightarrow> (kom_error \<times> u8 list) option" where
  "kvolatile_blob_read b offset count =
     (if offset \<ge> blob_size b then Some (KOM_OK, [])
      else let available = blob_size b - offset;
               to_read = (if count < available then count else available)
           in do { xs \<leftarrow> buffer_read (blob_buffer b) (unat offset) (unat to_read);
                   Some (KOM_OK, xs) })"

text \<open>
  The common part of \<open>write\<close> and \<open>resize\<close>: a capacity that is too small is replaced by a new
  block that takes over the first \<open>size\<close> bytes. \<open>Some None\<close> is \<open>KOM_ERR_NO_MEMORY\<close>.
\<close>

definition blob_grow ::
  "(u64 \<Rightarrow> u8 list option) \<Rightarrow> kvolatile_blob \<Rightarrow> u64 \<Rightarrow> kvolatile_blob option option" where
  "blob_grow kmalloc b new_cap =
     (if new_cap > blob_capacity b
      then case kmalloc new_cap of
             None \<Rightarrow> Some None
           | Some new_buf \<Rightarrow>
               do { new_buf1 \<leftarrow>
                      (case blob_buffer b of
                         None \<Rightarrow> Some new_buf
                       | Some m \<Rightarrow> do { xs \<leftarrow> mem_read m 0 (unat (blob_size b));
                                        mem_write new_buf 0 xs });
                    Some (Some (b\<lparr>blob_buffer := Some new_buf1, blob_capacity := new_cap\<rparr>)) }
      else Some (Some b))"

definition kvolatile_blob_write ::
  "(u64 \<Rightarrow> u8 list option) \<Rightarrow> kvolatile_blob \<Rightarrow> u64 \<Rightarrow> u8 list \<Rightarrow> u64 \<Rightarrow>
   (kom_error \<times> u64 \<times> kvolatile_blob) option" where
  "kvolatile_blob_write kmalloc b offset buf count =
     (if offset + count < offset then Some (KOM_ERR_IO, 0, b)
      else do {
        grown \<leftarrow> blob_grow kmalloc b (offset + count);
        case grown of
          None \<Rightarrow> Some (KOM_ERR_NO_MEMORY, 0, b)
        | Some b1 \<Rightarrow> do {
            buf1 \<leftarrow> (if offset > blob_size b1
                     then buffer_write (blob_buffer b1) (unat (blob_size b1))
                            (replicate (unat (offset - blob_size b1)) 0)
                     else Some (blob_buffer b1));
            xs \<leftarrow> mem_read buf 0 (unat count);
            buf2 \<leftarrow> buffer_write buf1 (unat offset) xs;
            Some (KOM_OK, count,
                  b1\<lparr>blob_buffer := buf2,
                     blob_size := (if offset + count > blob_size b1 then offset + count
                                   else blob_size b1)\<rparr>) } })"

definition kvolatile_blob_resize ::
  "(u64 \<Rightarrow> u8 list option) \<Rightarrow> kvolatile_blob \<Rightarrow> u64 \<Rightarrow> (kom_error \<times> kvolatile_blob) option" where
  "kvolatile_blob_resize kmalloc b new_size =
     do { grown \<leftarrow> blob_grow kmalloc b new_size;
          case grown of
            None \<Rightarrow> Some (KOM_ERR_NO_MEMORY, b)
          | Some b1 \<Rightarrow> do {
              buf1 \<leftarrow> (if new_size > blob_size b1
                       then buffer_write (blob_buffer b1) (unat (blob_size b1))
                              (replicate (unat (new_size - blob_size b1)) 0)
                       else Some (blob_buffer b1));
              Some (KOM_OK, b1\<lparr>blob_buffer := buf1, blob_size := new_size\<rparr>) } }"

text \<open>Dynamic blobs produce their contents by a callback and refuse writes.\<close>

definition kdynamic_blob_read ::
  "(u64 \<Rightarrow> u64 \<Rightarrow> u8 list) option \<Rightarrow> u64 \<Rightarrow> u64 \<Rightarrow> kom_error \<times> u8 list" where
  "kdynamic_blob_read read_cb offset count =
     (case read_cb of None \<Rightarrow> (KOM_ERR_UNSUPPORTED, []) | Some cb \<Rightarrow> (KOM_OK, cb offset count))"

definition kdynamic_blob_write :: "u64 \<Rightarrow> u8 list \<Rightarrow> u64 \<Rightarrow> kom_error \<times> u64" where
  "kdynamic_blob_write offset buf count = (KOM_ERR_CAP_DENIED, 0)"

section \<open>Specification\<close>

text \<open>
  The contents of a blob are the first \<open>size\<close> bytes of the buffer. The invariant: the buffer
  has \<open>capacity\<close> bytes and the size fits.
\<close>

definition buf_cells :: "u8 list option \<Rightarrow> u8 list" where
  "buf_cells buf = (case buf of None \<Rightarrow> [] | Some m \<Rightarrow> m)"

definition blob_content :: "kvolatile_blob \<Rightarrow> u8 list" where
  "blob_content b = take (unat (blob_size b)) (buf_cells (blob_buffer b))"

definition blob_inv :: "kvolatile_blob \<Rightarrow> bool" where
  "blob_inv b \<longleftrightarrow>
     length (buf_cells (blob_buffer b)) = unat (blob_capacity b) \<and> blob_size b \<le> blob_capacity b"

definition kmalloc_ok :: "(u64 \<Rightarrow> u8 list option) \<Rightarrow> bool" where
  "kmalloc_ok kmalloc \<longleftrightarrow> (\<forall>n m. kmalloc n = Some m \<longrightarrow> length m = unat n)"

definition resize_spec :: "u8 list \<Rightarrow> nat \<Rightarrow> u8 list" where
  "resize_spec c n = take n c @ replicate (n - length c) 0"

definition write_spec :: "u8 list \<Rightarrow> nat \<Rightarrow> u8 list \<Rightarrow> u8 list" where
  "write_spec c off xs = resize_spec c off @ xs @ drop (off + length xs) c"

section \<open>Lemmas\<close>

lemma blob_inv_nat:
  "blob_inv b \<longleftrightarrow> length (buf_cells (blob_buffer b)) = unat (blob_capacity b)
     \<and> unat (blob_size b) \<le> unat (blob_capacity b)"
  by (simp add: blob_inv_def word_le_nat_alt)

lemma blob_content_length: "blob_inv b \<Longrightarrow> length (blob_content b) = unat (blob_size b)"
  by (simp add: blob_content_def blob_inv_nat)

lemma buffer_read_cells:
  "off + n \<le> length (buf_cells buf) \<Longrightarrow> buffer_read buf off n = Some (take n (drop off (buf_cells buf)))"
  by (auto simp: buffer_read_def buf_cells_def mem_simps split: option.splits)

lemma buffer_write_cells:
  assumes "off + length xs \<le> length (buf_cells buf)"
  shows "\<exists>buf1. buffer_write buf off xs = Some buf1 \<and>
    buf_cells buf1 = take off (buf_cells buf) @ xs @ drop (off + length xs) (buf_cells buf)"
  using assms by (auto simp: buffer_write_def buf_cells_def mem_simps split: option.splits)

lemma blob_grow_fits:
  assumes "blob_inv b" and "kmalloc_ok kmalloc" and "blob_capacity b < n \<Longrightarrow> kmalloc n \<noteq> None"
  shows "\<exists>b1. blob_grow kmalloc b n = Some (Some b1) \<and> blob_inv b1 \<and> unat n \<le> unat (blob_capacity b1)
       \<and> blob_size b1 = blob_size b \<and> blob_content b1 = blob_content b"
proof (cases "blob_capacity b < n")
  case True
  then obtain m where m: "kmalloc n = Some m" "length m = unat n"
    using assms(2,3) by (auto simp: kmalloc_ok_def)
  have le: "unat (blob_size b) \<le> unat (blob_capacity b)" "unat (blob_capacity b) < unat n"
    using assms(1) True by (simp_all add: blob_inv_nat word_less_nat_alt)
  show ?thesis
  proof (cases "blob_buffer b")
    case None
    then have "unat (blob_size b) = 0" using assms(1) by (simp add: blob_inv_nat buf_cells_def)
    then show ?thesis using True m le None
      by (simp add: blob_grow_def blob_inv_nat blob_content_def buf_cells_def)
  next
    case (Some c)
    then have "length c = unat (blob_capacity b)" using assms(1) by (simp add: blob_inv_nat buf_cells_def)
    then show ?thesis using True m le Some
      by (simp add: blob_grow_def blob_inv_nat blob_content_def buf_cells_def mem_simps)
  qed
next
  case False
  then show ?thesis using assms(1) by (simp add: blob_grow_def word_less_nat_alt)
qed

text \<open>The zeros between the old size and the offset.\<close>

lemma blob_zero_gap:
  assumes "blob_inv b" and "unat off \<le> unat (blob_capacity b)"
  shows "\<exists>buf1. (if off > blob_size b
       then buffer_write (blob_buffer b) (unat (blob_size b)) (replicate (unat (off - blob_size b)) 0)
       else Some (blob_buffer b)) = Some buf1
    \<and> length (buf_cells buf1) = unat (blob_capacity b)
    \<and> take (max (unat off) (unat (blob_size b))) (buf_cells buf1)
        = blob_content b @ replicate (unat off - unat (blob_size b)) 0"
proof (cases "off > blob_size b")
  case True
  let ?z = "replicate (unat off - unat (blob_size b)) 0"
  have le: "unat (blob_size b) < unat off" "unat off \<le> length (buf_cells (blob_buffer b))"
    using True assms by (simp_all add: blob_inv_nat word_less_nat_alt)
  have d: "unat (off - blob_size b) = unat off - unat (blob_size b)"
    using True by (intro unat_sub) simp
  obtain buf1 where "buffer_write (blob_buffer b) (unat (blob_size b)) ?z = Some buf1"
    and "buf_cells buf1 = take (unat (blob_size b)) (buf_cells (blob_buffer b)) @ ?z
           @ drop (unat (blob_size b) + length ?z) (buf_cells (blob_buffer b))"
    using buffer_write_cells[of "unat (blob_size b)" ?z "blob_buffer b"] le by auto
  then show ?thesis using True le d assms(1) by (simp add: blob_content_def blob_inv_nat)
next
  case False
  then show ?thesis using assms(1)
    by (simp add: blob_content_def blob_inv_nat word_less_nat_alt max_def)
qed

lemma write_spec_take:
  assumes pre: "take (max off s) cs = c @ replicate (off - s) 0" and "length c = s"
    and "off + length xs \<le> length cs"
  shows "take (max (off + length xs) s) (take off cs @ xs @ drop (off + length xs) cs)
    = write_spec c off xs"
proof -
  have "take off cs = take off (take (max off s) cs)" by (simp add: min_def)
  also have "\<dots> = resize_spec c off" using assms(2) by (simp add: pre resize_spec_def)
  finally have 1: "take off cs = resize_spec c off" .
  have "take s cs = take s (take (max off s) cs)" by (simp add: min_def)
  also have "\<dots> = c" using assms(2) by (simp add: pre)
  finally have 2: "take s cs = c" .
  have 3: "take (s - (off + length xs)) (drop (off + length xs) cs) = drop (off + length xs) c"
    unfolding 2[symmetric] by (simp add: drop_take)
  have "length (resize_spec c off) = off" by (simp add: resize_spec_def)
  then show ?thesis using assms(3) 1 3 by (auto simp: write_spec_def max_def)
qed

lemma blob_write_ok:
  assumes "blob_inv b" and "kmalloc_ok kmalloc" and "length buf = unat count"
    and "unat offset + unat count < 2 ^ 64"
    and "blob_capacity b < offset + count \<Longrightarrow> kmalloc (offset + count) \<noteq> None"
  shows "\<exists>b'. kvolatile_blob_write kmalloc b offset buf count = Some (KOM_OK, count, b') \<and> blob_inv b'
    \<and> blob_content b' = write_spec (blob_content b) (unat offset) buf"
proof -
  have nw: "\<not> offset + count < offset" and sum: "unat (offset + count) = unat offset + unat count"
    using assms(4) word_add_wraps_iff[of offset count] unat_plus_no_overflow[of offset count]
    by simp_all
  obtain b1 where g: "blob_grow kmalloc b (offset + count) = Some (Some b1)" "blob_inv b1"
    and cap: "unat offset + unat count \<le> unat (blob_capacity b1)"
    and same: "blob_size b1 = blob_size b" "blob_content b1 = blob_content b"
    using blob_grow_fits[OF assms(1,2,5)] sum by auto
  obtain buf1 where
    z: "(if offset > blob_size b1 then buffer_write (blob_buffer b1) (unat (blob_size b1))
           (replicate (unat (offset - blob_size b1)) 0) else Some (blob_buffer b1)) = Some buf1"
    and len1: "length (buf_cells buf1) = unat (blob_capacity b1)"
    and pre: "take (max (unat offset) (unat (blob_size b1))) (buf_cells buf1)
      = blob_content b1 @ replicate (unat offset - unat (blob_size b1)) 0"
    using blob_zero_gap[OF g(2), of offset] cap by auto
  obtain buf2 where w: "buffer_write buf1 (unat offset) buf = Some buf2"
    and c2: "buf_cells buf2 = take (unat offset) (buf_cells buf1) @ buf
        @ drop (unat offset + length buf) (buf_cells buf1)"
    using buffer_write_cells[of "unat offset" buf buf1] len1 cap assms(3) by auto
  let ?sz = "if offset + count > blob_size b1 then offset + count else blob_size b1"
  let ?b = "b1\<lparr>blob_buffer := buf2, blob_size := ?sz\<rparr>"
  have sz: "unat ?sz = max (unat offset + length buf) (unat (blob_size b1))"
    using sum assms(3) by (simp add: word_less_nat_alt max_def)
  have "blob_inv ?b" using g(2) c2 len1 cap assms(3) sz by (auto simp: blob_inv_nat)
  moreover have "blob_content ?b = write_spec (blob_content b1) (unat offset) buf"
    using write_spec_take[OF pre blob_content_length[OF g(2)], of buf] sz c2 len1 cap assms(3)
    by (simp add: blob_content_def)
  moreover have "kvolatile_blob_write kmalloc b offset buf count = Some (KOM_OK, count, ?b)"
    using nw g(1) z w assms(3) by (simp add: kvolatile_blob_write_def mem_simps)
  ultimately show ?thesis using same by auto
qed

lemma blob_resize_ok:
  assumes "blob_inv b" and "kmalloc_ok kmalloc"
    and "blob_capacity b < n \<Longrightarrow> kmalloc n \<noteq> None"
  shows "\<exists>b'. kvolatile_blob_resize kmalloc b n = Some (KOM_OK, b') \<and> blob_inv b'
    \<and> blob_content b' = resize_spec (blob_content b) (unat n)"
proof -
  obtain b1 where g: "blob_grow kmalloc b n = Some (Some b1)" "blob_inv b1"
    and cap: "unat n \<le> unat (blob_capacity b1)"
    and same: "blob_size b1 = blob_size b" "blob_content b1 = blob_content b"
    using blob_grow_fits[OF assms] by auto
  obtain buf1 where
    z: "(if n > blob_size b1 then buffer_write (blob_buffer b1) (unat (blob_size b1))
           (replicate (unat (n - blob_size b1)) 0) else Some (blob_buffer b1)) = Some buf1"
    and len1: "length (buf_cells buf1) = unat (blob_capacity b1)"
    and pre: "take (max (unat n) (unat (blob_size b1))) (buf_cells buf1)
      = blob_content b1 @ replicate (unat n - unat (blob_size b1)) 0"
    using blob_zero_gap[OF g(2), of n] cap by auto
  have "take (unat n) (buf_cells buf1) = take (unat n) (take (max (unat n) (unat (blob_size b1))) (buf_cells buf1))"
    by (simp add: min_def)
  also have "\<dots> = resize_spec (blob_content b1) (unat n)"
    unfolding pre using blob_content_length[OF g(2)] by (simp add: resize_spec_def)
  finally have "take (unat n) (buf_cells buf1) = resize_spec (blob_content b1) (unat n)" .
  moreover have "kvolatile_blob_resize kmalloc b n = Some (KOM_OK, b1\<lparr>blob_buffer := buf1, blob_size := n\<rparr>)"
    using g(1) z by (simp add: kvolatile_blob_resize_def)
  ultimately show ?thesis using same len1 cap by (auto simp: blob_inv_nat blob_content_def)
qed

lemma blob_read_ok:
  assumes "blob_inv b"
  shows "kvolatile_blob_read b offset count
    = Some (KOM_OK, take (unat count) (drop (unat offset) (blob_content b)))"
proof (cases "offset \<ge> blob_size b")
  case True
  then show ?thesis using blob_content_length[OF assms]
    by (simp add: kvolatile_blob_read_def word_le_nat_alt)
next
  case False
  let ?r = "if count < blob_size b - offset then count else blob_size b - offset"
  have d: "unat (blob_size b - offset) = unat (blob_size b) - unat offset"
    using False by (intro unat_sub) simp
  have r: "unat ?r = min (unat count) (unat (blob_size b) - unat offset)"
    using d by (simp add: word_less_nat_alt min_def)
  have "unat offset + unat ?r \<le> length (buf_cells (blob_buffer b))"
    using assms False unfolding r blob_inv_nat word_le_nat_alt by linarith
  then have "buffer_read (blob_buffer b) (unat offset) (unat ?r)
      = Some (take (unat ?r) (drop (unat offset) (buf_cells (blob_buffer b))))"
    by (rule buffer_read_cells)
  moreover have "take (unat ?r) (drop (unat offset) (buf_cells (blob_buffer b)))
      = take (unat count) (drop (unat offset) (blob_content b))"
    unfolding r blob_content_def by (simp add: drop_take)
  ultimately show ?thesis using False by (simp add: kvolatile_blob_read_def Let_def)
qed

section \<open>Properties\<close>

text \<open>
  \<^bold>\<open>C19.\<close> Refinement of \<open>KVolatileBlob::write\<close>: a write whose end overflows 64 bits is refused, a
  failed allocation leaves the blob as it was, and otherwise the contents become the old ones,
  zero-padded to the offset, with the bytes spliced in. The invariant is kept on every branch.
\<close>

theorem blob_write_refines:
  assumes "blob_inv b" and "kmalloc_ok kmalloc" and "length buf = unat count"
  shows "\<exists>err n b'. kvolatile_blob_write kmalloc b offset buf count = Some (err, n, b') \<and> blob_inv b' \<and>
    (if 2 ^ 64 \<le> unat offset + unat count then err = KOM_ERR_IO \<and> n = 0 \<and> b' = b
     else if blob_capacity b < offset + count \<and> kmalloc (offset + count) = None
     then err = KOM_ERR_NO_MEMORY \<and> n = 0 \<and> b' = b
     else err = KOM_OK \<and> n = count
          \<and> blob_content b' = write_spec (blob_content b) (unat offset) buf)"
proof (cases "2 ^ 64 \<le> unat offset + unat count")
  case True
  then have "offset + count < offset" using word_add_wraps_iff[of offset count] by simp
  then show ?thesis using True assms(1) by (simp add: kvolatile_blob_write_def)
next
  case False
  then have nw: "\<not> offset + count < offset" using word_add_wraps_iff[of offset count] by simp
  show ?thesis
  proof (cases "blob_capacity b < offset + count \<and> kmalloc (offset + count) = None")
    case True
    then show ?thesis using False nw assms(1) by (simp add: kvolatile_blob_write_def blob_grow_def)
  next
    case fits: False
    then show ?thesis using False blob_write_ok[OF assms, of offset] by auto
  qed
qed

theorem blob_write_refines_witness:
  "\<exists>b'. kvolatile_blob_write (\<lambda>n. Some (replicate (unat n) 9)) (kvolatile_blob_new None) 2 [1] 1
     = Some (KOM_OK, 1, b') \<and> blob_content b' = replicate 2 0 @ [1]"
  using blob_write_refines[of "kvolatile_blob_new None" "\<lambda>n. Some (replicate (unat n) 9)" "[1]" 1 2]
  by (auto simp: kvolatile_blob_new_def blob_inv_def buf_cells_def kmalloc_ok_def blob_content_def
      write_spec_def resize_spec_def)

text \<open>
  \<^bold>\<open>C22.\<close> \<open>resize\<close> truncates the contents or extends them with zeros, and \<open>read\<close> returns the part of
  the contents that the range covers; a read never leaves the buffer.
\<close>

theorem blob_resize_read:
  assumes "blob_inv b" and "kmalloc_ok kmalloc" and "blob_capacity b < n \<Longrightarrow> kmalloc n \<noteq> None"
  shows "\<exists>b'. kvolatile_blob_resize kmalloc b n = Some (KOM_OK, b') \<and> blob_inv b' \<and>
    (\<forall>offset count. kvolatile_blob_read b' offset count
       = Some (KOM_OK, take (unat count) (drop (unat offset) (resize_spec (blob_content b) (unat n)))))"
  using blob_resize_ok[OF assms] blob_read_ok by metis

theorem blob_resize_read_witness:
  "\<exists>b'. kvolatile_blob_resize (\<lambda>n. Some (replicate (unat n) 9)) (kvolatile_blob_new None) 2
     = Some (KOM_OK, b') \<and> kvolatile_blob_read b' 1 5 = Some (KOM_OK, [0])"
  using blob_resize_read[of "kvolatile_blob_new None" "\<lambda>n. Some (replicate (unat n) 9)" 2]
  by (auto simp: kvolatile_blob_new_def blob_inv_def buf_cells_def kmalloc_ok_def blob_content_def
      resize_spec_def)

end
