(* ===== verification/Wait_Queue.thy ===== *)
theory Wait_Queue
  imports Kernel_Prelude
begin

text \<open>
  Wait queues of threads, \<open>wait_queue_init\<close>, \<open>wait_queue_push\<close> and \<open>wait_queue_pop_safe\<close> of
  \<open>src/system/process/process.c\<close>. A queue is a head and a tail pointer; the links are the
  \<open>wait_next\<close> fields of the threads, which all queues share. The pointer structure is related
  to a list of threads, and the other components use the list operations.
\<close>

section \<open>The pointer structure\<close>

record wait_queue =
  wq_head :: "tid option"
  wq_tail :: "tid option"

type_synonym wait_links = "tid \<Rightarrow> tid option"

definition wait_queue_init :: wait_queue where
  "wait_queue_init = \<lparr>wq_head = None, wq_tail = None\<rparr>"

definition wait_queue_push :: "wait_links \<Rightarrow> wait_queue \<Rightarrow> tid \<Rightarrow> (wait_links \<times> wait_queue) option" where
  "wait_queue_push nx q task =
     (let nx1 = nx(task := None)
      in case wq_head q of
           None \<Rightarrow> Some (nx1, \<lparr>wq_head = Some task, wq_tail = Some task\<rparr>)
         | Some _ \<Rightarrow>
             do { t \<leftarrow> wq_tail q; Some (nx1(t := Some task), q\<lparr>wq_tail := Some task\<rparr>) })"

text \<open>
  The loop of \<open>wait_queue_pop_safe\<close>. \<open>dead\<close> is the test for the states \<open>PROCESS_ZOMBIE\<close> and
  \<open>PROCESS_DEAD\<close>; the result is the popped thread, if any, and the number of skipped ones.
  A queue whose links form a cycle of dead threads would be walked forever.
\<close>

partial_function (option) wait_queue_pop_loop ::
  "(tid \<Rightarrow> bool) \<Rightarrow> wait_links \<Rightarrow> wait_queue \<Rightarrow> nat \<Rightarrow>
   (tid option \<times> nat \<times> wait_links \<times> wait_queue) option" where
  "wait_queue_pop_loop dead nx q skipped =
     (case wq_head q of
        None \<Rightarrow> Some (None, skipped, nx, q)
      | Some task \<Rightarrow>
          let h = nx task;
              q1 = \<lparr>wq_head = h, wq_tail = (if h = None then None else wq_tail q)\<rparr>;
              nx1 = nx(task := None)
          in if dead task then wait_queue_pop_loop dead nx1 q1 (skipped + 1)
             else Some (Some task, skipped, nx1, q1))"

definition wait_queue_pop_safe ::
  "(tid \<Rightarrow> bool) \<Rightarrow> wait_links \<Rightarrow> wait_queue \<Rightarrow> (tid option \<times> nat \<times> wait_links \<times> wait_queue) option" where
  "wait_queue_pop_safe dead nx q = wait_queue_pop_loop dead nx q 0"

section \<open>The list view\<close>

definition wq_push :: "tid list \<Rightarrow> tid \<Rightarrow> tid list" where
  "wq_push xs t = xs @ [t]"

definition wq_pop :: "(tid \<Rightarrow> bool) \<Rightarrow> tid list \<Rightarrow> tid option \<times> nat \<times> tid list" where
  "wq_pop dead xs =
     (case dropWhile dead xs of
        [] \<Rightarrow> (None, length (takeWhile dead xs), [])
      | t # r \<Rightarrow> (Some t, length (takeWhile dead xs), r))"

fun chain :: "wait_links \<Rightarrow> tid option \<Rightarrow> tid list \<Rightarrow> bool" where
  "chain nx h [] \<longleftrightarrow> h = None"
| "chain nx h (t # ts) \<longleftrightarrow> h = Some t \<and> chain nx (nx t) ts"

definition wq_rep :: "wait_links \<Rightarrow> wait_queue \<Rightarrow> tid list \<Rightarrow> bool" where
  "wq_rep nx q xs \<longleftrightarrow>
     chain nx (wq_head q) xs \<and> distinct xs
       \<and> wq_tail q = (if xs = [] then None else Some (last xs))"

lemma chain_upd_other: "t \<notin> set xs \<Longrightarrow> chain (nx(t := v)) h xs = chain nx h xs"
  by (induction xs arbitrary: h) auto

lemma chain_snoc:
  "chain nx h xs \<Longrightarrow> xs \<noteq> [] \<Longrightarrow> distinct xs \<Longrightarrow> task \<notin> set xs \<Longrightarrow>
   chain (nx(task := None, last xs := Some task)) h (xs @ [task])"
proof (induction xs arbitrary: h)
  case (Cons t ts)
  then show ?case
    by (cases "ts = []") (auto simp: fun_upd_twist)
qed simp

lemma wq_pop_Nil [simp]: "wq_pop dead [] = (None, 0, [])"
  by (simp add: wq_pop_def)

lemma wq_pop_Cons:
  "wq_pop dead (t # ts) =
     (if dead t then (let (r, k, ys) = wq_pop dead ts in (r, Suc k, ys)) else (Some t, 0, ts))"
  by (cases "dropWhile dead ts") (simp_all add: wq_pop_def del: dropWhile_eq_Nil_conv)

lemma pop_loop_rep:
  "wq_rep nx q xs \<Longrightarrow>
   \<exists>nx' q'. wait_queue_pop_loop dead nx q k
       = Some (fst (wq_pop dead xs), k + fst (snd (wq_pop dead xs)), nx', q')
     \<and> wq_rep nx' q' (snd (snd (wq_pop dead xs))) \<and> (\<forall>t. t \<notin> set xs \<longrightarrow> nx' t = nx t)"
proof (induction xs arbitrary: nx q k)
  case Nil
  then show ?case by (subst wait_queue_pop_loop.simps) (auto simp: wq_rep_def)
next
  case (Cons t ts)
  let ?nx = "nx(t := None)"
  let ?q = "\<lparr>wq_head = nx t, wq_tail = (if nx t = None then None else wq_tail q)\<rparr>"
  have "nx t = None \<longleftrightarrow> ts = []" using Cons.prems by (cases ts) (auto simp: wq_rep_def)
  then have rep: "wq_rep ?nx ?q ts"
    using Cons.prems by (auto simp: wq_rep_def chain_upd_other)
  show ?case
  proof (cases "dead t")
    case True
    from Cons.IH[OF rep, of "Suc k"] obtain nx' q' where
      "wait_queue_pop_loop dead ?nx ?q (Suc k)
        = Some (fst (wq_pop dead ts), Suc k + fst (snd (wq_pop dead ts)), nx', q')"
      "wq_rep nx' q' (snd (snd (wq_pop dead ts)))" "\<forall>u. u \<notin> set ts \<longrightarrow> nx' u = ?nx u"
      by blast
    then show ?thesis using True Cons.prems
      by (subst wait_queue_pop_loop.simps)
        (auto simp: wq_rep_def wq_pop_Cons Let_def split_beta)
  next
    case False
    then show ?thesis using rep Cons.prems
      by (subst wait_queue_pop_loop.simps) (auto simp: wq_rep_def wq_pop_Cons Let_def)
  qed
qed

section \<open>The contract the blocking primitives rely on\<close>

text \<open>
  First-in first-out wake-up of live threads: what a client of a wait queue may assume of its
  push and pop, seen through the abstraction to lists.
\<close>

locale fifo_wakeup =
  fixes push :: "tid list \<Rightarrow> tid \<Rightarrow> tid list"
    and pop :: "(tid \<Rightarrow> bool) \<Rightarrow> tid list \<Rightarrow> tid option \<times> nat \<times> tid list"
  assumes push_set: "set (push xs t) = insert t (set xs)"
    and push_length: "length (push xs t) = Suc (length xs)"
    and pop_None: "pop dead xs = (None, k, ys) \<Longrightarrow> ys = [] \<and> (\<forall>t\<in>set xs. dead t) \<and> k = length xs"
    and pop_Some: "pop dead xs = (Some t, k, ys) \<Longrightarrow>
      \<exists>us. xs = us @ t # ys \<and> length us = k \<and> (\<forall>u\<in>set us. dead u) \<and> \<not> dead t"
begin

lemma pop_length: "pop dead xs = (r, k, ys) \<Longrightarrow>
    length xs = length ys + k + (case r of None \<Rightarrow> 0 | Some _ \<Rightarrow> 1)"
  by (cases r) (auto dest!: pop_None pop_Some)

lemma pop_subset: "pop dead xs = (r, k, ys) \<Longrightarrow> set ys \<subseteq> set xs"
  by (cases r) (auto dest!: pop_None pop_Some)

lemma pop_live: "pop dead xs = (r, k, ys) \<Longrightarrow> t \<in> set xs \<Longrightarrow> \<not> dead t \<Longrightarrow> r = Some t \<or> t \<in> set ys"
  by (cases r) (auto dest!: pop_None pop_Some)

lemma pop_distinct: "pop dead xs = (r, k, ys) \<Longrightarrow> distinct xs \<Longrightarrow> distinct ys \<and> (\<forall>t. r = Some t \<longrightarrow> t \<notin> set ys)"
  by (cases r) (auto dest!: pop_None pop_Some)

end

interpretation wq: fifo_wakeup wq_push wq_pop
proof
  show "set (wq_push xs t) = insert t (set xs)" and "length (wq_push xs t) = Suc (length xs)" for xs t
    by (simp_all add: wq_push_def)
  show "ys = [] \<and> (\<forall>t\<in>set xs. dead t) \<and> k = length xs" if "wq_pop dead xs = (None, k, ys)"
    for dead xs k ys
    using that
    by (auto simp: wq_pop_def takeWhile_eq_all_conv[THEN iffD2] split: list.splits)
  show "\<exists>us. xs = us @ t # ys \<and> length us = k \<and> (\<forall>u\<in>set us. dead u) \<and> \<not> dead t"
    if "wq_pop dead xs = (Some t, k, ys)" for dead xs t k ys
  proof (intro exI conjI)
    have d: "dropWhile dead xs = t # ys" and k: "k = length (takeWhile dead xs)"
      using that by (auto simp: wq_pop_def split: list.splits)
    show "xs = takeWhile dead xs @ t # ys" using takeWhile_dropWhile_id[of dead xs] d by simp
    show "length (takeWhile dead xs) = k" using k by simp
    show "\<forall>u\<in>set (takeWhile dead xs). dead u" by (auto dest: set_takeWhileD)
    show "\<not> dead t" using d by (metis dropWhile_eq_Cons_conv)
  qed
qed

section \<open>Properties\<close>

text \<open>
  \<^bold>\<open>C18.\<close> The linked wait queue implements a first-in first-out list: on a well-formed queue
  \<open>wait_queue_push\<close> appends, \<open>wait_queue_pop_safe\<close> returns (its loop ends) the first thread that is
  neither a zombie nor dead, drops the dead ones before it and counts them, and both leave the
  links of threads of other queues alone.
\<close>

theorem wait_queue_refines:
  assumes "wq_rep nx q xs" and "task \<notin> set xs"
  shows "(\<exists>nx' q'. wait_queue_push nx q task = Some (nx', q') \<and> wq_rep nx' q' (wq_push xs task)
            \<and> (\<forall>t. t \<notin> set xs \<and> t \<noteq> task \<longrightarrow> nx' t = nx t))
    \<and> (\<exists>r k nx' q'. wait_queue_pop_safe dead nx q = Some (r, k, nx', q')
            \<and> wq_pop dead xs = (r, k, snd (snd (wq_pop dead xs)))
            \<and> wq_rep nx' q' (snd (snd (wq_pop dead xs))) \<and> (\<forall>t. t \<notin> set xs \<longrightarrow> nx' t = nx t))"
proof
  show "\<exists>nx' q'. wait_queue_push nx q task = Some (nx', q') \<and> wq_rep nx' q' (wq_push xs task)
      \<and> (\<forall>t. t \<notin> set xs \<and> t \<noteq> task \<longrightarrow> nx' t = nx t)"
  proof (cases "xs = []")
    case True
    then show ?thesis using assms by (auto simp: wq_rep_def wait_queue_push_def wq_push_def)
  next
    case False
    then obtain h where "wq_head q = Some h" using assms(1) by (cases xs) (auto simp: wq_rep_def)
    then show ?thesis using assms False chain_snoc[of "nx" "wq_head q" xs task]
      by (auto simp: wq_rep_def wait_queue_push_def wq_push_def)
  qed
next
  show "\<exists>r k nx' q'. wait_queue_pop_safe dead nx q = Some (r, k, nx', q')
      \<and> wq_pop dead xs = (r, k, snd (snd (wq_pop dead xs)))
      \<and> wq_rep nx' q' (snd (snd (wq_pop dead xs))) \<and> (\<forall>t. t \<notin> set xs \<longrightarrow> nx' t = nx t)"
    using pop_loop_rep[OF assms(1), of dead 0] by (auto simp: wait_queue_pop_safe_def)
qed

theorem wait_queue_refines_witness:
  "\<exists>nx' q'. wait_queue_pop_safe (\<lambda>t. t = 1) ((\<lambda>_. None)(1 := Some 2))
      \<lparr>wq_head = Some 1, wq_tail = Some 2\<rparr> = Some (Some 2, 1, nx', q') \<and> wq_rep nx' q' []"
  using wait_queue_refines[of "(\<lambda>_. None)(1 := Some 2)" "\<lparr>wq_head = Some 1, wq_tail = Some 2\<rparr>" "[1, 2]" 3
      "\<lambda>t. t = 1"]
  by (auto simp: wq_rep_def wq_pop_def)

end
