(* ===== verification/Kobject.thy ===== *)
theory Kobject
  imports Kblob Wait_Queue
begin

text \<open>
  Objects of the kernel object model and their reference counts: \<open>KObject\<close>,
  \<open>kobject_ref\<close>, \<open>kobject_unref\<close> (\<open>src/archs/kom/common/kobject.hpp\<close>, \<open>handle.cpp\<close>) and the
  destructors that \<open>delete\<close> runs. The state of the object model is one record: a store of
  objects, the shared channel states, the kernel handle table and the root of the namespace.

  An object is named by its index in the store; 0 is the null pointer, and indices are not used
  again after the object is freed, so a use after free is visible: it yields \<open>None\<close>, like the
  panics of \<open>kobject_ref\<close> (null object) and \<open>kobject_unref\<close> (count already 0).
\<close>

section \<open>State\<close>

type_synonym oid = nat
type_synonym handle = u64

record kmessage =
  msg_data :: "u8 list"
  msg_handles :: "handle list"

record channel_state =
  ch_msgs :: "nat \<Rightarrow> kmessage list"
  ch_wait_q :: "nat \<Rightarrow> tid list"
  ch_closed :: "nat \<Rightarrow> bool"
  ch_ref_count :: u32

record port_packet =
  pkt_key :: u64
  pkt_type :: u32
  pkt_status :: u32

text \<open>
  What the subclasses of \<open>KObject\<close> add: a container has its bindings from the head of the list
  on, an endpoint its channel state and its side, a port its packets and its waiting threads.
  \<open>KDestroyed\<close> marks an object whose destructor has started.
\<close>

datatype kdata =
    KContainer "(string \<times> oid) list"
  | KEndpoint nat nat
  | KPort "port_packet list" "tid list"
  | KVolatileBlob kvolatile_blob
  | KPlain
  | KDestroyed

record kobject =
  otype :: kobject_type
  ref_count :: u32
  odata :: kdata

record handle_entry =
  he_obj :: oid
  he_caps :: u16
  he_gen :: u16

record handle_table =
  ht_entries :: "handle_entry list"
  ht_freelist :: "u16 list"
  ht_top :: u16

record kom =
  objs :: "kobject option list"
  chans :: "channel_state option list"
  ht :: handle_table
  ons_root :: oid
  dead :: "tid \<Rightarrow> bool"
  woken :: "tid list"

definition get_obj :: "kom \<Rightarrow> oid \<Rightarrow> kobject option" where
  "get_obj s p = (if p = 0 \<or> p \<ge> length (objs s) then None else objs s ! p)"

definition put_obj :: "kom \<Rightarrow> oid \<Rightarrow> kobject \<Rightarrow> kom" where
  "put_obj s p obj = s\<lparr>objs := (objs s)[p := Some obj]\<rparr>"

definition get_chan :: "kom \<Rightarrow> nat \<Rightarrow> channel_state option" where
  "get_chan s c = (if c < length (chans s) then chans s ! c else None)"

text \<open>\<open>sched_wake_task\<close> of the thread a wait queue returned, if it returned one.\<close>

definition wake :: "kom \<Rightarrow> tid option \<Rightarrow> kom" where
  "wake s r = (case r of None \<Rightarrow> s | Some t \<Rightarrow> s\<lparr>woken := woken s @ [t]\<rparr>)"

section \<open>Operations\<close>

text \<open>\<open>KObject::KObject\<close>: the new object has one reference, that of its creator.\<close>

definition kobject_new :: "kom \<Rightarrow> kobject_type \<Rightarrow> kdata \<Rightarrow> kom \<times> oid" where
  "kobject_new s ty d =
     (s\<lparr>objs := objs s @ [Some \<lparr>otype = ty, ref_count = 1, odata = d\<rparr>]\<rparr>, length (objs s))"

definition kobject_ref :: "kom \<Rightarrow> oid \<Rightarrow> kom option" where
  "kobject_ref s p =
     do { obj \<leftarrow> get_obj s p; Some (put_obj s p (obj\<lparr>ref_count := ref_count obj + 1\<rparr>)) }"

text \<open>\<open>KPort::~KPort\<close> wakes the waiting threads one after the other.\<close>

function port_drain :: "(tid \<Rightarrow> bool) \<Rightarrow> tid list \<Rightarrow> tid list" where
  "port_drain dd q =
     (case wq_pop dd q of (None, _, _) \<Rightarrow> [] | (Some t, _, r) \<Rightarrow> t # port_drain dd r)"
  by pat_completeness auto

termination
  by (relation "measure (\<lambda>(dd, q). length q)") (auto dest!: wq.pop_length[OF sym])

declare port_drain.simps [simp del]

text \<open>
  \<open>KChannelEndpoint::~KChannelEndpoint\<close>: the side is closed and its messages dropped, one thread
  waiting on the other side is woken, and the last endpoint frees the shared state.
\<close>

definition endpoint_destroy :: "kom \<Rightarrow> nat \<Rightarrow> nat \<Rightarrow> kom option" where
  "endpoint_destroy s c my_id =
     do { st \<leftarrow> get_chan s c;
          let peer_id = (if my_id = 0 then 1 else 0);
          let (waiting_peer, _, q) = wq_pop (dead s) (ch_wait_q st peer_id);
          let n = ch_ref_count st - 1;
          let st1 = st\<lparr>ch_closed := (ch_closed st)(my_id := True),
                       ch_msgs := (ch_msgs st)(my_id := []),
                       ch_wait_q := (ch_wait_q st)(peer_id := q),
                       ch_ref_count := n\<rparr>;
          Some (wake (s\<lparr>chans := (chans s)[c := (if n = 0 then None else Some st1)]\<rparr>) waiting_peer) }"

text \<open>
  The destructor of an object, with the references it still has to drop: a container drops those
  of its bindings, from the head of the list on.
\<close>

definition run_destructor :: "kom \<Rightarrow> oid \<Rightarrow> kobject \<Rightarrow> (kom \<times> oid list) option" where
  "run_destructor s p obj =
     (let s1 = put_obj s p (obj\<lparr>odata := KDestroyed\<rparr>)
      in case odata obj of
           KContainer bs \<Rightarrow> Some (s1, map snd bs)
         | KEndpoint c my_id \<Rightarrow> do { s2 \<leftarrow> endpoint_destroy s1 c my_id; Some (s2, []) }
         | KPort pkts q \<Rightarrow> Some (s1\<lparr>woken := woken s1 @ port_drain (dead s1) q\<rparr>, [])
         | _ \<Rightarrow> Some (s1, []))"

text \<open>
  \<open>kobject_unref\<close>. The recursion through the destructors is a list of what is left to do:
  dropping a reference, and freeing an object after its destructor.
\<close>

datatype work = Unref oid | Free oid

definition ref_sum :: "kobject option list \<Rightarrow> nat" where
  "ref_sum os = sum_list (map (\<lambda>ob. case ob of None \<Rightarrow> 0 | Some obj \<Rightarrow> unat (ref_count obj)) os)"

lemma objs_endpoint_destroy: "endpoint_destroy s c i = Some s' \<Longrightarrow> objs s' = objs s"
  by (auto simp: endpoint_destroy_def wake_def Let_def split_beta split: bind_splits option.splits)

lemma objs_run_destructor:
  "run_destructor s p obj = Some (s', us) \<Longrightarrow>
   objs s' = (objs s)[p := Some (obj\<lparr>odata := KDestroyed\<rparr>)]"
  by (auto simp: run_destructor_def put_obj_def Let_def objs_endpoint_destroy
      split: kdata.splits bind_splits dest!: objs_endpoint_destroy)

lemma ref_sum_update:
  "p < length os \<Longrightarrow> os ! p = Some obj \<Longrightarrow>
   ref_sum (os[p := Some obj']) + unat (ref_count obj) = ref_sum os + unat (ref_count obj')"
  using sum_list_map_update[of p os "\<lambda>ob. case ob of None \<Rightarrow> 0 | Some obj \<Rightarrow> unat (ref_count obj)"]
  by (simp add: ref_sum_def)

lemma ref_sum_free: "ref_sum (os[p := None]) \<le> ref_sum os"
proof (cases "p < length os")
  case True
  then show ?thesis
    using sum_list_map_update[of p os "\<lambda>ob. case ob of None \<Rightarrow> 0 | Some obj \<Rightarrow> unat (ref_count obj)" None]
    by (simp add: ref_sum_def)
qed (simp add: list_update_beyond)

function run_work :: "kom \<Rightarrow> work list \<Rightarrow> kom option" where
  "run_work s [] = Some s"
| "run_work s (Free p # w) = run_work (s\<lparr>objs := (objs s)[p := None]\<rparr>) w"
| "run_work s (Unref p # w) =
     (if p = 0 then run_work s w
      else case get_obj s p of
             None \<Rightarrow> None
           | Some obj \<Rightarrow>
               let old_val = ref_count obj;
                   obj1 = obj\<lparr>ref_count := old_val - 1\<rparr>
               in if old_val = 0 then None
                  else if old_val = 1
                  then (case run_destructor (put_obj s p obj1) p obj1 of
                          None \<Rightarrow> None
                        | Some (s2, us) \<Rightarrow> run_work s2 (map Unref us @ Free p # w))
                  else run_work (put_obj s p obj1) w)"
  by pat_completeness auto

termination
proof (relation "measures [\<lambda>(s, w). ref_sum (objs s), \<lambda>(s, w). length w]", goal_cases)
  case (2 s p w)
  then show ?case using ref_sum_free[of "objs s" p] by (simp add: le_less)
next
  case (4 s p w obj old_val obj1 z s2 us)
  then have p: "p < length (objs s)" "objs s ! p = Some obj" by (auto simp: get_obj_def split: if_splits)
  have "unat (ref_count obj) \<noteq> 0" using 4 by (simp add: unat_eq_zero)
  moreover have "objs s2 = (objs s)[p := Some (obj1\<lparr>odata := KDestroyed\<rparr>)]"
    using 4 objs_run_destructor[of "put_obj s p obj1" p obj1 s2 us] by (simp add: put_obj_def)
  ultimately show ?case
    using ref_sum_update[OF p, of "obj1\<lparr>odata := KDestroyed\<rparr>"] 4 by (simp add: unat_pred_word)
next
  case (5 s p w obj old_val obj1)
  then have p: "p < length (objs s)" "objs s ! p = Some obj" by (auto simp: get_obj_def split: if_splits)
  have "unat (ref_count obj) \<noteq> 0" using 5 by (simp add: unat_eq_zero)
  moreover have "unat (ref_count obj1) = unat (ref_count obj) - 1"
    using 5 by (simp add: unat_pred_word)
  ultimately have "ref_sum ((objs s)[p := Some obj1]) < ref_sum (objs s)"
    using ref_sum_update[OF p, of obj1] by linarith
  then show ?case by (simp add: put_obj_def)
qed auto

definition kobject_unref :: "kom \<Rightarrow> oid \<Rightarrow> kom option" where
  "kobject_unref s p = run_work s [Unref p]"

section \<open>The reference-counting invariant\<close>

text \<open>
  Every count is the number of references that exist: from bindings of containers, from entries
  of the handle table, from the outside (\<open>ext\<close>: pointers held by running kernel code and the
  static pointer to the namespace root) and from the work still to be done by a running
  \<open>kobject_unref\<close>.
\<close>

definition rc :: "kom \<Rightarrow> oid \<Rightarrow> nat" where
  "rc s p = (case get_obj s p of None \<Rightarrow> 0 | Some obj \<Rightarrow> unat (ref_count obj))"

definition holds :: "kobject option \<Rightarrow> oid \<Rightarrow> nat" where
  "holds ob p =
     (case ob of Some obj \<Rightarrow> (case odata obj of KContainer bs \<Rightarrow> count_list (map snd bs) p | _ \<Rightarrow> 0)
      | None \<Rightarrow> 0)"

definition is_end :: "kobject option \<Rightarrow> nat \<Rightarrow> nat" where
  "is_end ob c =
     (case ob of Some obj \<Rightarrow> (case odata obj of KEndpoint c' _ \<Rightarrow> (if c' = c then 1 else 0) | _ \<Rightarrow> 0)
      | None \<Rightarrow> 0)"

definition obj_sum :: "(kobject option \<Rightarrow> nat) \<Rightarrow> kom \<Rightarrow> nat" where
  "obj_sum f s = sum_list (map f (objs s))"

definition ht_refs :: "handle_table \<Rightarrow> oid \<Rightarrow> nat" where
  "ht_refs t p = count_list (map he_obj (ht_entries t)) p"

definition chan_refs :: "kom \<Rightarrow> nat \<Rightarrow> nat" where
  "chan_refs s c = (case get_chan s c of None \<Rightarrow> 0 | Some st \<Rightarrow> unat (ch_ref_count st))"

definition ref_inv :: "kom \<Rightarrow> work list \<Rightarrow> (oid \<Rightarrow> nat) \<Rightarrow> bool" where
  "ref_inv s w ext \<longleftrightarrow>
     (\<forall>p. p \<noteq> 0 \<longrightarrow>
        rc s p = obj_sum (\<lambda>ob. holds ob p) s + ht_refs (ht s) p + ext p + count_list w (Unref p))"

definition chan_inv :: "kom \<Rightarrow> bool" where
  "chan_inv s \<longleftrightarrow> (\<forall>c. chan_refs s c = obj_sum (\<lambda>ob. is_end ob c) s)"

text \<open>
  The dynamic type of an object agrees with its \<open>type\<close> field, on which the code bases its casts,
  the names in a container are distinct and no binding is null.
\<close>

fun typed :: "kobject_type \<Rightarrow> kdata \<Rightarrow> bool" where
  "typed ty (KContainer bs) \<longleftrightarrow> ty = CONTAINER \<and> distinct (map fst bs) \<and> 0 \<notin> snd ` set bs"
| "typed ty (KEndpoint c i) \<longleftrightarrow> ty = CHANNEL \<and> i \<le> 1"
| "typed ty (KPort pkts q) \<longleftrightarrow> ty = PORT"
| "typed ty (KVolatileBlob b) \<longleftrightarrow> ty = BLOB"
| "typed ty KPlain \<longleftrightarrow> ty \<notin> {CONTAINER, CHANNEL, PORT}"
| "typed ty KDestroyed \<longleftrightarrow> False"

definition obj_inv :: "kom \<Rightarrow> bool" where
  "obj_inv s \<longleftrightarrow>
     (\<forall>p obj. get_obj s p = Some obj \<longrightarrow>
        (if ref_count obj = 0 then odata obj = KDestroyed else typed (otype obj) (odata obj)))"

definition free_inv :: "kom \<Rightarrow> work list \<Rightarrow> bool" where
  "free_inv s w \<longleftrightarrow>
     (\<forall>p. count_list w (Free p)
        = (case get_obj s p of None \<Rightarrow> 0 | Some obj \<Rightarrow> if ref_count obj = 0 then 1 else 0))"

definition kom_inv :: "work list \<Rightarrow> (oid \<Rightarrow> nat) \<Rightarrow> kom \<Rightarrow> bool" where
  "kom_inv w ext s \<longleftrightarrow> objs s \<noteq> [] \<and> ref_inv s w ext \<and> chan_inv s \<and> obj_inv s \<and> free_inv s w"

text \<open>What no operation changes: the type of an object that stays alive; freed objects stay freed.\<close>

definition kom_le :: "kom \<Rightarrow> kom \<Rightarrow> bool" where
  "kom_le s s' \<longleftrightarrow> length (objs s) \<le> length (objs s') \<and> ons_root s' = ons_root s \<and> dead s' = dead s \<and>
     (\<forall>p obj'. p < length (objs s) \<longrightarrow> get_obj s' p = Some obj' \<longrightarrow>
        (\<exists>obj. get_obj s p = Some obj \<and> otype obj' = otype obj))"

lemma kom_le_refl [simp]: "kom_le s s"
  by (auto simp: kom_le_def)

lemma kom_le_trans: "kom_le s t \<Longrightarrow> kom_le t u \<Longrightarrow> kom_le s u"
  unfolding kom_le_def by (metis (no_types, lifting) less_le_trans order_trans)

lemmas kom_inv_defs = kom_inv_def ref_inv_def chan_inv_def obj_inv_def free_inv_def

subsection \<open>Updating one object\<close>

lemma get_obj_valid: "get_obj s p = Some obj \<Longrightarrow> p \<noteq> 0 \<and> p < length (objs s) \<and> objs s ! p = Some obj"
  by (auto simp: get_obj_def split: if_splits)

lemma get_put_obj:
  "get_obj s p = Some obj \<Longrightarrow> get_obj (put_obj s p obj') q = (if q = p then Some obj' else get_obj s q)"
  by (auto simp: get_obj_def put_obj_def split: if_splits)

lemma put_obj_simps [simp]:
  "chans (put_obj s p obj) = chans s" "ht (put_obj s p obj) = ht s"
  "ons_root (put_obj s p obj) = ons_root s" "dead (put_obj s p obj) = dead s"
  "woken (put_obj s p obj) = woken s" "length (objs (put_obj s p obj)) = length (objs s)"
  "get_chan (put_obj s p obj) c = get_chan s c" "chan_refs (put_obj s p obj) c = chan_refs s c"
  "objs (put_obj s p obj) = [] \<longleftrightarrow> objs s = []"
  by (simp_all add: put_obj_def get_chan_def chan_refs_def)

lemma obj_sum_put:
  assumes "get_obj s p = Some obj"
  shows "obj_sum f (put_obj s p obj') + f (Some obj) = obj_sum f s + f (Some obj')"
  using sum_list_map_update[of p "objs s" f "Some obj'"] get_obj_valid[OF assms]
  by (simp add: obj_sum_def put_obj_def)

lemma obj_sum_ge: "get_obj s p = Some obj \<Longrightarrow> f (Some obj) \<le> obj_sum f s"
  using sum_list_map_ge_nth[of p "objs s" f] get_obj_valid[of s p obj] by (simp add: obj_sum_def)

lemma obj_sum_cong: "objs s = objs t \<Longrightarrow> obj_sum f s = obj_sum f t"
  by (simp add: obj_sum_def)

text \<open>An update that keeps the type and what the object refers to changes no sum.\<close>

lemma obj_sum_same:
  assumes "get_obj s p = Some obj" and "f (Some obj') = f (Some obj)"
  shows "obj_sum f (put_obj s p obj') = obj_sum f s"
  using obj_sum_put[OF assms(1), of f obj'] assms(2) by simp

lemma holds_ref_count [simp]: "holds (Some (obj\<lparr>ref_count := n\<rparr>)) p = holds (Some obj) p"
  by (simp add: holds_def)

lemma is_end_ref_count [simp]: "is_end (Some (obj\<lparr>ref_count := n\<rparr>)) c = is_end (Some obj) c"
  by (simp add: is_end_def)

lemma rc_put:
  "get_obj s p = Some obj \<Longrightarrow> rc (put_obj s p obj') q = (if q = p then unat (ref_count obj') else rc s q)"
  by (simp add: rc_def get_put_obj)

lemma kom_le_put:
  "get_obj s p = Some obj \<Longrightarrow> otype obj' = otype obj \<Longrightarrow> kom_le s (put_obj s p obj')"
  by (auto simp: kom_le_def get_put_obj split: if_splits)

text \<open>How far an operation may raise the counts; \<open>room k\<close> leaves space for \<open>k\<close> more references.\<close>

definition kframe :: "nat \<Rightarrow> kom \<Rightarrow> kom \<Rightarrow> bool" where
  "kframe k s s' \<longleftrightarrow> kom_le s s' \<and> (\<forall>p. rc s' p \<le> rc s p + k)"

definition room :: "nat \<Rightarrow> kom \<Rightarrow> bool" where
  "room k s \<longleftrightarrow> (\<forall>p. rc s p + k < 2 ^ 32)"

lemma kframe_refl [simp]: "kframe k s s"
  by (simp add: kframe_def)

lemma kframe_trans: "kframe j s t \<Longrightarrow> kframe k t u \<Longrightarrow> kframe (j + k) s u"
  unfolding kframe_def by (metis (no_types, lifting) add.assoc add_le_mono1 kom_le_trans le_trans)

lemma kframe_mono: "kframe j s t \<Longrightarrow> j \<le> k \<Longrightarrow> kframe k s t"
  unfolding kframe_def by (meson add_left_mono le_trans)

lemma room_frame: "room (j + k) s \<Longrightarrow> kframe j s t \<Longrightarrow> room k t"
  unfolding room_def kframe_def by (metis (no_types, lifting) add.assoc add_le_mono1 le_less_trans)

lemma room_mono: "room k s \<Longrightarrow> j \<le> k \<Longrightarrow> room j s"
  unfolding room_def by (meson add_left_mono le_less_trans)

lemma room_step: "room k s \<Longrightarrow> kframe j s t \<Longrightarrow> j + l \<le> k \<Longrightarrow> room l t"
  using room_frame[of j l s t] room_mono[of k s "j + l"] by blast

subsection \<open>Taking a reference\<close>

lemma rc_pos: "0 < rc s p \<longleftrightarrow> (\<exists>obj. get_obj s p = Some obj \<and> ref_count obj \<noteq> 0)"
  by (auto simp: rc_def unat_gt_0 split: option.splits)

lemma kobject_ref_ok:
  assumes "kom_inv w ext s" and "0 < rc s p" and "room 1 s"
  shows "\<exists>s'. kobject_ref s p = Some s' \<and> kom_inv w (ext(p := ext p + 1)) s' \<and> kframe 1 s s'
    \<and> ht s' = ht s"
proof -
  obtain obj where obj: "get_obj s p = Some obj" "ref_count obj \<noteq> 0" using assms(2) rc_pos by blast
  let ?s = "put_obj s p (obj\<lparr>ref_count := ref_count obj + 1\<rparr>)"
  have "unat (ref_count obj) + 1 < 2 ^ 32" using assms(3) obj(1) by (simp add: room_def rc_def) (metis option.simps(5))
  then have n: "unat (ref_count obj + 1) = unat (ref_count obj) + 1" by (intro unat_Suc_word) simp
  then have n0: "ref_count obj + 1 \<noteq> 0" by (metis Suc_eq_plus1 nat.distinct(1) unat_0)
  have rc: "rc ?s q = (if q = p then rc s p + 1 else rc s q)" for q
    using obj(1) n by (simp add: rc_put) (simp add: rc_def)
  have sums: "obj_sum (\<lambda>ob. holds ob q) ?s = obj_sum (\<lambda>ob. holds ob q) s"
    "obj_sum (\<lambda>ob. is_end ob q) ?s = obj_sum (\<lambda>ob. is_end ob q) s" for q
    using obj(1) by (simp_all add: obj_sum_same)
  have "kom_inv w (ext(p := ext p + 1)) ?s"
    using assms(1) obj n0 unfolding kom_inv_defs sums rc
    by (auto simp: get_put_obj split: option.splits if_splits)
  moreover have "kframe 1 s ?s"
    using rc kom_le_put[OF obj(1), of "obj\<lparr>ref_count := ref_count obj + 1\<rparr>"] by (simp add: kframe_def)
  ultimately show ?thesis using obj(1) by (simp add: kobject_ref_def)
qed

subsection \<open>Dropping references\<close>

lemma chan_refs_update:
  "c < length (chans s) \<Longrightarrow>
   chan_refs (s\<lparr>chans := (chans s)[c := x]\<rparr>) d
     = (if d = c then (case x of None \<Rightarrow> 0 | Some st \<Rightarrow> unat (ch_ref_count st)) else chan_refs s d)"
  by (simp add: chan_refs_def get_chan_def)

lemma wake_simps [simp]:
  "objs (wake s r) = objs s" "chans (wake s r) = chans s" "ht (wake s r) = ht s"
  "ons_root (wake s r) = ons_root s" "dead (wake s r) = dead s"
  "get_obj (wake s r) p = get_obj s p" "get_chan (wake s r) c = get_chan s c"
  "chan_refs (wake s r) c = chan_refs s c" "obj_sum f (wake s r) = obj_sum f s" "rc (wake s r) p = rc s p"
  by (auto simp: wake_def get_obj_def get_chan_def chan_refs_def obj_sum_def rc_def split: option.splits)

lemma endpoint_destroy_ok:
  assumes "0 < chan_refs s c"
  shows "\<exists>s'. endpoint_destroy s c i = Some s' \<and> objs s' = objs s \<and> ht s' = ht s
    \<and> ons_root s' = ons_root s \<and> dead s' = dead s
    \<and> (\<forall>d. chan_refs s' d = (if d = c then chan_refs s c - 1 else chan_refs s d))"
proof -
  obtain st where st: "get_chan s c = Some st" "ch_ref_count st \<noteq> 0" "c < length (chans s)"
    using assms by (auto simp: chan_refs_def get_chan_def unat_gt_0 split: option.splits if_splits)
  then have "unat (ch_ref_count st - 1) = chan_refs s c - 1"
    by (simp add: chan_refs_def unat_pred_word)
  then show ?thesis using st
    by (auto simp: endpoint_destroy_def Let_def split_beta chan_refs_update unat_eq_zero
        split: option.splits)
qed

text \<open>Sums and counts only depend on the store.\<close>

lemma get_obj_cong: "objs s = objs t \<Longrightarrow> get_obj s p = get_obj t p"
  by (simp add: get_obj_def)

lemma rc_cong: "objs s = objs t \<Longrightarrow> rc s p = rc t p"
  by (simp add: rc_def get_obj_cong[of s t])

lemma run_destructor_ok:
  assumes "get_obj s p = Some obj" and "\<And>c i. odata obj = KEndpoint c i \<Longrightarrow> 0 < chan_refs s c"
  shows "\<exists>s' us. run_destructor s p obj = Some (s', us)
    \<and> objs s' = objs (put_obj s p (obj\<lparr>odata := KDestroyed\<rparr>))
    \<and> (\<forall>q. count_list us q = holds (Some obj) q) \<and> ht s' = ht s \<and> ons_root s' = ons_root s \<and> dead s' = dead s
    \<and> (\<forall>d. chan_refs s' d + is_end (Some obj) d = chan_refs s d)"
proof (cases "odata obj")
  case (KEndpoint c i)
  let ?s = "put_obj s p (obj\<lparr>odata := KDestroyed\<rparr>)"
  have pos: "0 < chan_refs ?s c" using assms(2)[OF KEndpoint] by simp
  obtain s' where s': "endpoint_destroy ?s c i = Some s'" "objs s' = objs ?s" "ht s' = ht ?s"
    "ons_root s' = ons_root ?s" "dead s' = dead ?s"
    "\<forall>d. chan_refs s' d = (if d = c then chan_refs ?s c - 1 else chan_refs ?s d)"
    using endpoint_destroy_ok[OF pos] by blast
  then show ?thesis using KEndpoint pos
    by (auto simp: run_destructor_def holds_def is_end_def)
qed (auto simp: run_destructor_def holds_def is_end_def Let_def chan_refs_def get_chan_def put_obj_def
    split: option.splits)

lemma count_list_map_Unref:
  "count_list (map Unref us) (Unref q) = count_list us q" "count_list (map Unref us) (Free q) = 0"
  by (induction us) auto

text \<open>The last reference is dropped: the destructor runs and its references become work.\<close>

lemma unref_last_inv:
  assumes inv: "kom_inv (Unref p # w) ext s" and obj: "get_obj s p = Some obj" "ref_count obj = 1"
  defines "obj1 \<equiv> obj\<lparr>ref_count := ref_count obj - 1\<rparr>"
  shows "\<exists>s2 us. run_destructor (put_obj s p obj1) p obj1 = Some (s2, us)
    \<and> kom_inv (map Unref us @ Free p # w) ext s2 \<and> kframe 0 s s2 \<and> ht s2 = ht s"
proof -
  let ?obj2 = "obj1\<lparr>odata := KDestroyed\<rparr>"
  let ?t = "put_obj s p ?obj2"
  have p0: "p \<noteq> 0" using get_obj_valid[OF obj(1)] by simp
  have g1: "get_obj (put_obj s p obj1) p = Some obj1" using obj(1) by (simp add: get_put_obj)
  have ends: "0 < chan_refs (put_obj s p obj1) c" if "odata obj1 = KEndpoint c i" for c i
    using obj_sum_ge[OF obj(1), of "\<lambda>ob. is_end ob c"] inv that
    by (auto simp: kom_inv_def chan_inv_def obj1_def is_end_def)
  obtain s2 us where d: "run_destructor (put_obj s p obj1) p obj1 = Some (s2, us)"
    and o1: "objs s2 = objs (put_obj (put_obj s p obj1) p ?obj2)"
    and us1: "\<And>q. count_list us q = holds (Some obj1) q"
    and fr: "ht s2 = ht s" "ons_root s2 = ons_root s" "dead s2 = dead s"
    and ch1: "\<And>d. chan_refs s2 d + is_end (Some obj1) d = chan_refs s d"
    using run_destructor_ok[OF g1] ends unfolding put_obj_simps by blast
  have o2: "objs s2 = objs ?t" using o1 by (simp add: put_obj_def)
  have us: "count_list us q = holds (Some obj) q" for q using us1 by (simp add: obj1_def)
  have ch: "chan_refs s2 d + is_end (Some obj) d = chan_refs s d" for d using ch1[of d] by (simp add: obj1_def)
  have get2: "get_obj s2 q = (if q = p then Some ?obj2 else get_obj s q)" for q
    using get_obj_cong[OF o2, of q] get_put_obj[OF obj(1), of ?obj2 q] by simp
  have rc2: "rc s2 q = (if q = p then 0 else rc s q)" for q
    using get2 obj(2) by (simp add: rc_def obj1_def)
  have hold: "obj_sum (\<lambda>ob. holds ob q) s2 + holds (Some obj) q = obj_sum (\<lambda>ob. holds ob q) s" for q
    using obj_sum_put[OF obj(1), of "\<lambda>ob. holds ob q" ?obj2] obj_sum_cong[OF o2]
    by (simp add: holds_def[of "Some ?obj2"])
  have ends2: "obj_sum (\<lambda>ob. is_end ob c) s2 + is_end (Some obj) c = obj_sum (\<lambda>ob. is_end ob c) s" for c
    using obj_sum_put[OF obj(1), of "\<lambda>ob. is_end ob c" ?obj2] obj_sum_cong[OF o2]
    by (simp add: is_end_def[of "Some ?obj2"])
  have rcp: "rc s p = 1" using obj by (simp add: rc_def)
  have "ref_inv s2 (map Unref us @ Free p # w) ext"
    unfolding ref_inv_def
  proof (intro allI impI)
    fix q :: oid
    assume "q \<noteq> 0"
    then have "rc s q = obj_sum (\<lambda>ob. holds ob q) s + ht_refs (ht s) q + ext q + count_list (Unref p # w) (Unref q)"
      using inv by (simp add: kom_inv_def ref_inv_def)
    then show "rc s2 q = obj_sum (\<lambda>ob. holds ob q) s2 + ht_refs (ht s2) q + ext q
        + count_list (map Unref us @ Free p # w) (Unref q)"
      using hold[of q] rc2[of q] rcp us[of q] fr(1) by (auto simp: count_list_map_Unref split: if_splits)
  qed
  moreover have "chan_inv s2"
    using inv ch ends2 unfolding kom_inv_def chan_inv_def by (metis add_right_cancel)
  moreover have "obj_inv s2" using inv get2 obj(2) by (auto simp: kom_inv_def obj_inv_def obj1_def)
  moreover have "free_inv s2 (map Unref us @ Free p # w)"
    using inv get2 obj by (auto simp: kom_inv_def free_inv_def obj1_def count_list_map_Unref)
  moreover have "objs s2 \<noteq> []" using inv o2 by (simp add: kom_inv_def)
  moreover have "kframe 0 s s2" using rc2 get2 obj(1) o2 fr by (auto simp: kframe_def kom_le_def obj1_def)
  ultimately show ?thesis using d fr(1) by (auto simp: kom_inv_def)
qed

lemma unref_more_inv:
  assumes inv: "kom_inv (Unref p # w) ext s" and obj: "get_obj s p = Some obj"
    and "ref_count obj \<noteq> 0" "ref_count obj \<noteq> 1"
  defines "s1 \<equiv> put_obj s p (obj\<lparr>ref_count := ref_count obj - 1\<rparr>)"
  shows "kom_inv w ext s1 \<and> kframe 0 s s1"
proof -
  have n: "unat (ref_count obj - 1) = unat (ref_count obj) - 1"
    using assms(3) by (rule unat_pred_word)
  have n1: "unat (ref_count obj) \<noteq> 0" "ref_count obj - 1 \<noteq> 0"
    using assms(3,4) by (simp_all add: unat_eq_zero)
  have rc1: "rc s1 q = (if q = p then rc s p - 1 else rc s q)" for q
    using obj n by (simp add: rc_put s1_def) (simp add: rc_def)
  have pos: "rc s p \<noteq> 0" using obj n1 by (simp add: rc_def)
  have sums: "obj_sum (\<lambda>ob. holds ob q) s1 = obj_sum (\<lambda>ob. holds ob q) s"
    "obj_sum (\<lambda>ob. is_end ob q) s1 = obj_sum (\<lambda>ob. is_end ob q) s" for q
    using obj by (simp_all add: obj_sum_same s1_def)
  have "ref_inv s1 w ext"
    using inv unfolding kom_inv_def ref_inv_def sums rc1
    by (auto simp: s1_def split: if_splits)
  moreover have "chan_inv s1" using inv by (simp add: kom_inv_def chan_inv_def sums) (simp add: s1_def)
  moreover have "obj_inv s1" "free_inv s1 w" "objs s1 \<noteq> []"
    using inv obj n1 assms(3)
    by (auto simp: kom_inv_def obj_inv_def free_inv_def s1_def get_put_obj split: if_splits option.splits)
  ultimately show ?thesis using rc1 kom_le_put[OF obj, of "obj\<lparr>ref_count := ref_count obj - 1\<rparr>"]
    by (auto simp: kom_inv_def kframe_def s1_def)
qed

lemma free_step_inv:
  assumes inv: "kom_inv (Free p # w) ext s"
  defines "s1 \<equiv> s\<lparr>objs := (objs s)[p := None]\<rparr>"
  shows "kom_inv w ext s1 \<and> kframe 0 s s1"
proof -
  have "count_list (Free p # w) (Free p) \<noteq> 0" by simp
  then obtain obj where obj: "get_obj s p = Some obj" "ref_count obj = 0" "count_list w (Free p) = 0"
    using inv unfolding kom_inv_def free_inv_def
    by (auto split: option.splits if_splits)
  have dst: "odata obj = KDestroyed" using inv obj by (auto simp: kom_inv_def obj_inv_def)
  have get1: "get_obj s1 q = (if q = p then None else get_obj s q)" for q
    using get_obj_valid[OF obj(1)] by (auto simp: s1_def get_obj_def)
  have rc1: "rc s1 q = rc s q" for q using obj get1 by (simp add: rc_def)
  have sums: "obj_sum f s1 = obj_sum f s" if "f (Some obj) = 0" "f None = 0" for f
    using sum_list_map_update[of p "objs s" f None] get_obj_valid[OF obj(1)] that
    by (simp add: obj_sum_def s1_def)
  have same: "obj_sum (\<lambda>ob. holds ob q) s1 = obj_sum (\<lambda>ob. holds ob q) s"
    "obj_sum (\<lambda>ob. is_end ob q) s1 = obj_sum (\<lambda>ob. is_end ob q) s" for q
    by (rule sums; simp add: holds_def is_end_def dst)+
  have ch: "chan_refs s1 c = chan_refs s c" for c by (simp add: chan_refs_def get_chan_def s1_def)
  have "ref_inv s1 w ext" using inv by (simp add: kom_inv_def ref_inv_def same rc1) (simp add: s1_def)
  moreover have "chan_inv s1" using inv by (simp add: kom_inv_def chan_inv_def same ch)
  moreover have "obj_inv s1" "objs s1 \<noteq> []" using inv get1 by (auto simp: kom_inv_def obj_inv_def s1_def)
  moreover have "free_inv s1 w"
    using inv get1 obj(3) by (auto simp: kom_inv_def free_inv_def split: if_splits)
  ultimately show ?thesis using rc1 get1 by (auto simp: kom_inv_def kframe_def kom_le_def s1_def)
qed

lemma run_work_ok:
  "kom_inv w ext s \<Longrightarrow>
   \<exists>s'. run_work s w = Some s' \<and> kom_inv [] ext s' \<and> kframe 0 s s' \<and> ht s' = ht s"
proof (induction s w rule: run_work.induct)
  case (2 s p w)
  have "kom_inv w ext (s\<lparr>objs := (objs s)[p := None]\<rparr>)" "kframe 0 s (s\<lparr>objs := (objs s)[p := None]\<rparr>)"
    using free_step_inv[OF 2(2)] by simp_all
  then show ?case using 2(1) kframe_trans[of 0 s "s\<lparr>objs := (objs s)[p := None]\<rparr>" 0] by auto
next
  case (3 s p w)
  show ?case
  proof (cases "p = 0")
    case True
    have "kom_inv w ext s" using 3(4) True
      by (auto simp: kom_inv_def ref_inv_def free_inv_def)
    then show ?thesis using 3(1) True by simp
  next
    case False
    then have "0 < rc s p" using 3(4) by (simp add: kom_inv_def ref_inv_def)
    then obtain obj where obj: "get_obj s p = Some obj" "ref_count obj \<noteq> 0" using rc_pos by blast
    let ?obj1 = "obj\<lparr>ref_count := ref_count obj - 1\<rparr>"
    show ?thesis
    proof (cases "ref_count obj = 1")
      case True
      obtain s2 us where d: "run_destructor (put_obj s p ?obj1) p ?obj1 = Some (s2, us)"
        and i: "kom_inv (map Unref us @ Free p # w) ext s2" "kframe 0 s s2" "ht s2 = ht s"
        using unref_last_inv[OF 3(4) obj(1) True] by blast
      obtain s3 where "run_work s2 (map Unref us @ Free p # w) = Some s3" "kom_inv [] ext s3"
        "kframe 0 s2 s3" "ht s3 = ht s2"
        using 3(2)[OF False obj(1) refl refl obj(2) True d refl i(1)] by blast
      then show ?thesis using False obj True d i(3) kframe_trans[OF i(2), of 0 s3] by simp
    next
      case more: False
      have i: "kom_inv w ext (put_obj s p ?obj1)" "kframe 0 s (put_obj s p ?obj1)"
        using unref_more_inv[OF 3(4) obj(1) obj(2) more] by simp_all
      obtain s3 where "run_work (put_obj s p ?obj1) w = Some s3" "kom_inv [] ext s3"
        "kframe 0 (put_obj s p ?obj1) s3" "ht s3 = ht s"
        using 3(3)[OF False obj(1) refl refl obj(2) more i(1)] by auto
      then show ?thesis using False obj more kframe_trans[OF i(2), of 0 s3] by simp
    qed
  qed
qed simp

lemma kom_inv_hand_over:
  "kom_inv w ext s \<Longrightarrow> 0 < ext p \<Longrightarrow> kom_inv (Unref p # w) (ext(p := ext p - 1)) s"
  by (auto simp: kom_inv_def ref_inv_def free_inv_def)

lemma kobject_unref_ok:
  assumes "kom_inv [] ext s" and "0 < ext p"
  shows "\<exists>s'. kobject_unref s p = Some s' \<and> kom_inv [] (ext(p := ext p - 1)) s' \<and> kframe 0 s s' \<and> ht s' = ht s"
  using run_work_ok[OF kom_inv_hand_over[OF assms]] by (simp add: kobject_unref_def)

lemma kobject_new_ok:
  assumes "kom_inv w ext s" and "typed ty d"
    and "\<And>q. holds (Some \<lparr>otype = ty, ref_count = 1, odata = d\<rparr>) q = 0"
    and "\<And>c. is_end (Some \<lparr>otype = ty, ref_count = 1, odata = d\<rparr>) c = 0"
  shows "\<exists>s' p. kobject_new s ty d = (s', p) \<and> kom_inv w (ext(p := 1)) s' \<and> kframe 1 s s' \<and> ht s' = ht s
    \<and> ext p = 0 \<and> get_obj s' p = Some \<lparr>otype = ty, ref_count = 1, odata = d\<rparr>
    \<and> (\<forall>q obj. get_obj s q = Some obj \<longrightarrow> get_obj s' q = Some obj)"
proof -
  let ?p = "length (objs s)" and ?obj = "\<lparr>otype = ty, ref_count = 1, odata = d\<rparr>"
  let ?s = "s\<lparr>objs := objs s @ [Some ?obj]\<rparr>"
  have ne: "objs s \<noteq> []" using assms(1) by (simp add: kom_inv_def)
  have get: "get_obj ?s q = (if q = ?p then Some ?obj else get_obj s q)" for q
    using ne by (auto simp: get_obj_def nth_append)
  have rc: "rc ?s q = (if q = ?p then 1 else rc s q)" for q using get by (simp add: rc_def)
  have fresh: "get_obj s ?p = None" "rc s ?p = 0" by (simp_all add: get_obj_def rc_def)
  have h: "holds (Some ?obj) q = 0" "is_end (Some ?obj) q = 0" for q
    using assms(3,4) by simp_all
  have sums: "obj_sum (\<lambda>ob. holds ob q) ?s = obj_sum (\<lambda>ob. holds ob q) s"
    "obj_sum (\<lambda>ob. is_end ob q) ?s = obj_sum (\<lambda>ob. is_end ob q) s" for q
    using h by (simp_all add: obj_sum_def)
  have ch: "chan_refs ?s c = chan_refs s c" for c by (simp add: chan_refs_def get_chan_def)
  have e0: "ext ?p = 0 \<and> obj_sum (\<lambda>ob. holds ob ?p) s = 0 \<and> ht_refs (ht s) ?p = 0 \<and> count_list w (Unref ?p) = 0"
  proof -
    have "rc s ?p = obj_sum (\<lambda>ob. holds ob ?p) s + ht_refs (ht s) ?p + ext ?p + count_list w (Unref ?p)"
      using assms(1) ne unfolding kom_inv_def ref_inv_def by (metis length_0_conv)
    then show ?thesis using fresh by simp
  qed
  have "ref_inv ?s w (ext(?p := 1))"
    using assms(1) e0 fresh unfolding kom_inv_def ref_inv_def rc sums by simp
  moreover have "chan_inv ?s" using assms(1) unfolding kom_inv_def chan_inv_def sums ch by simp
  moreover have "obj_inv ?s" using assms(1,2) unfolding kom_inv_def obj_inv_def get by simp
  moreover have "free_inv ?s w"
  proof -
    have "count_list w (Free ?p) = 0" using assms(1) fresh(1) by (simp add: kom_inv_def free_inv_def)
    then show ?thesis using assms(1) unfolding kom_inv_def free_inv_def get by simp
  qed
  ultimately have "kom_inv w (ext(?p := 1)) ?s" by (simp add: kom_inv_def)
  moreover have "kframe 1 s ?s" using rc get by (auto simp: kframe_def kom_le_def)
  ultimately show ?thesis using e0 get fresh by (auto simp: kobject_new_def)
qed

text \<open>Dropping references changes no object but by destroying it.\<close>

definition data_le :: "kom \<Rightarrow> kom \<Rightarrow> bool" where
  "data_le s s' \<longleftrightarrow>
     (\<forall>p obj'. get_obj s' p = Some obj' \<longrightarrow>
        (\<exists>obj. get_obj s p = Some obj \<and> (odata obj' = odata obj \<or> odata obj' = KDestroyed)))"

lemma data_le_trans: "data_le s t \<Longrightarrow> data_le t u \<Longrightarrow> data_le s u"
  unfolding data_le_def by metis

lemma data_le_upd:
  assumes "get_obj s p = Some obj" and "objs s' = (objs s)[p := Some obj']"
    and "odata obj' = odata obj \<or> odata obj' = KDestroyed"
  shows "data_le s s'"
  using assms get_obj_valid[OF assms(1)] by (auto simp: data_le_def get_obj_def nth_list_update)

lemma run_work_data: "run_work s w = Some s' \<Longrightarrow> data_le s s'"
proof (induction s w rule: run_work.induct)
  case (1 s)
  then show ?case by (auto simp: data_le_def)
next
  case (2 s p w)
  have "data_le s (s\<lparr>objs := (objs s)[p := None]\<rparr>)"
    by (cases "p < length (objs s)") (auto simp: data_le_def get_obj_def nth_list_update split: if_splits)
  then show ?case using 2 data_le_trans by fastforce
next
  case (3 s p w)
  show ?case
  proof (cases "p = 0")
    case True
    then show ?thesis using 3 by simp
  next
    case False
    then obtain obj where obj: "get_obj s p = Some obj" "ref_count obj \<noteq> 0"
      using 3(4) by (auto simp: Let_def split: option.splits if_splits)
    let ?obj1 = "obj\<lparr>ref_count := ref_count obj - 1\<rparr>"
    show ?thesis
    proof (cases "ref_count obj = 1")
      case True
      then obtain s2 us where d: "run_destructor (put_obj s p ?obj1) p ?obj1 = Some (s2, us)"
        and r: "run_work s2 (map Unref us @ Free p # w) = Some s'"
        using 3(4) False obj by (auto simp: Let_def split: option.splits)
      have "data_le s s2"
        using objs_run_destructor[OF d] by (intro data_le_upd[OF obj(1)]) (auto simp: put_obj_def)
      then show ?thesis using 3(2)[OF False obj(1) refl refl obj(2) True d refl r] by (rule data_le_trans)
    next
      case more: False
      have "data_le s (put_obj s p ?obj1)" by (rule data_le_upd[OF obj(1)]) (auto simp: put_obj_def)
      then show ?thesis using 3 False obj more by (auto intro: data_le_trans)
    qed
  qed
qed

text \<open>At rest an object is in the store exactly when its count is positive.\<close>

lemma live_iff: "kom_inv [] ext s \<Longrightarrow> get_obj s p \<noteq> None \<longleftrightarrow> 0 < rc s p"
proof -
  assume "kom_inv [] ext s"
  then have "(case get_obj s p of None \<Rightarrow> 0 | Some obj \<Rightarrow> if ref_count obj = 0 then 1 else 0) = (0 :: nat)"
    by (simp add: kom_inv_def free_inv_def)
  then show ?thesis by (auto simp: rc_def unat_gt_0 split: option.splits if_splits)
qed

lemma ext_live: "kom_inv w ext s \<Longrightarrow> 0 < ext p \<Longrightarrow> p \<noteq> 0 \<Longrightarrow> 0 < rc s p"
  by (simp add: kom_inv_def ref_inv_def)

lemma live_typed:
  "kom_inv w ext s \<Longrightarrow> 0 < rc s p \<Longrightarrow> \<exists>obj. get_obj s p = Some obj \<and> typed (otype obj) (odata obj)"
  using rc_pos[of s p] by (auto simp: kom_inv_def obj_inv_def)

section \<open>Properties\<close>

text \<open>
  \<^bold>\<open>C2.\<close> Reference counting is safe. In a state where every count is the number of existing
  references, taking a reference to a referenced object and dropping a reference that is held
  both return: there is no use after free and neither panic is reached, however deep the
  destruction of containers and channels goes. Afterwards the counts are exact again and an
  object is in the store exactly when a reference to it is left.
\<close>

theorem kobject_refcount_safe:
  assumes "kom_inv [] ext s" and "0 < ext p" and "p \<noteq> 0" and "room 1 s"
  shows "(\<exists>s'. kobject_ref s p = Some s' \<and> kom_inv [] (ext(p := ext p + 1)) s')
    \<and> (\<exists>s'. kobject_unref s p = Some s' \<and> kom_inv [] (ext(p := ext p - 1)) s'
          \<and> (\<forall>q. get_obj s' q \<noteq> None \<longleftrightarrow> 0 < rc s' q))"
  using kobject_ref_ok[OF assms(1) ext_live[OF assms(1-3)] assms(4)]
    kobject_unref_ok[OF assms(1,2)] live_iff by blast

text \<open>A container that holds the only reference to a second object: both are freed together.\<close>

definition two_objects :: kom where
  "two_objects =
     \<lparr>objs = [None, Some \<lparr>otype = CONTAINER, ref_count = 1, odata = KContainer [(''a'', 2)]\<rparr>,
              Some \<lparr>otype = EVENT, ref_count = 1, odata = KPlain\<rparr>],
      chans = [], ht = \<lparr>ht_entries = [], ht_freelist = [], ht_top = 0\<rparr>, ons_root = 0,
      dead = (\<lambda>_. False), woken = []\<rparr>"

lemma two_objects_get:
  "get_obj two_objects p =
     (if p = 1 then Some \<lparr>otype = CONTAINER, ref_count = 1, odata = KContainer [(''a'', 2)]\<rparr>
      else if p = 2 then Some \<lparr>otype = EVENT, ref_count = 1, odata = KPlain\<rparr> else None)"
  by (auto simp: get_obj_def two_objects_def nth_Cons' split: if_splits)

lemma two_objects_inv: "kom_inv [] ((\<lambda>_. 0)(1 := 1)) two_objects" "room 1 two_objects"
  unfolding kom_inv_defs room_def rc_def two_objects_get
  by (auto simp: two_objects_def obj_sum_def holds_def is_end_def ht_refs_def chan_refs_def get_chan_def)

theorem kobject_refcount_safe_witness:
  "\<exists>s'. kobject_unref two_objects 1 = Some s' \<and> kom_inv [] ((\<lambda>_. 0)(1 := 0)) s'"
  using kobject_refcount_safe[of "(\<lambda>_. 0)(1 := 1)" two_objects 1] two_objects_inv
  by auto

end
