(* ===== verification/Handle_Table.thy ===== *)
theory Handle_Table
  imports Kobject
begin

text \<open>
  The kernel handle table, \<open>src/archs/kom/common/handle.cpp\<close>. A handle packs the capabilities, the
  generation and the index of an entry into 64 bits. The table hands out the entries of a stack
  of free indices; closing an entry advances its generation, so old handles become stale.
\<close>

section \<open>Handles\<close>

abbreviation (input) CAPACITY :: nat where "CAPACITY \<equiv> 4096"

definition KAP_READ :: u16 where "KAP_READ = 0x8000"
definition KAP_WRITE :: u16 where "KAP_WRITE = 0x4000"
definition KAP_XFER :: u16 where "KAP_XFER = 0x0400"
definition KAP_WAIT :: u16 where "KAP_WAIT = 0x0200"

definition make_handle :: "u16 \<Rightarrow> u16 \<Rightarrow> u32 \<Rightarrow> handle" where
  "make_handle caps gen idx = push_bit 48 (ucast caps) OR push_bit 32 (ucast gen) OR ucast idx"

definition h_idx :: "handle \<Rightarrow> u32" where
  "h_idx h = ucast (h AND 0xFFFFFFFF)"

definition h_gen :: "handle \<Rightarrow> u16" where
  "h_gen h = ucast (drop_bit 32 h AND 0xFFFF)"

definition h_caps :: "handle \<Rightarrow> u16" where
  "h_caps h = ucast (drop_bit 48 h AND 0xFFFF)"

text \<open>\<open>(have & want) == want\<close>.\<close>

definition cap_sub :: "u16 \<Rightarrow> u16 \<Rightarrow> bool" where
  "cap_sub want have' \<longleftrightarrow> have' AND want = want"

section \<open>Operations\<close>

text \<open>\<open>HandleTable::init\<close>: the loop runs from \<open>CAPACITY - 1\<close> down to 1; entry 0 is never handed out.\<close>

fun handle_init_loop :: "nat \<Rightarrow> handle_table \<Rightarrow> handle_table" where
  "handle_init_loop 0 t = t"
| "handle_init_loop (Suc i) t =
     handle_init_loop i
       (t\<lparr>ht_freelist := (ht_freelist t)[unat (ht_top t) := of_nat (Suc i)],
          ht_top := ht_top t + 1,
          ht_entries := (ht_entries t)[Suc i := (ht_entries t ! Suc i)\<lparr>he_gen := 1\<rparr>]\<rparr>)"

definition handle_init :: "u16 list \<Rightarrow> handle_table" where
  "handle_init fl =
     handle_init_loop (CAPACITY - 1)
       \<lparr>ht_entries = replicate CAPACITY \<lparr>he_obj = 0, he_caps = 0, he_gen = 0\<rparr>,
        ht_freelist = fl, ht_top = 0\<rparr>"

definition handle_alloc :: "kom \<Rightarrow> oid \<Rightarrow> u16 \<Rightarrow> (kom \<times> handle) option" where
  "handle_alloc s obj caps =
     (if obj = 0 then Some (s, 0)
      else if ht_top (ht s) = 0 then Some (s, 0)
      else do {
        let top = ht_top (ht s) - 1;
        idx \<leftarrow> load (ht_freelist (ht s)) (unat top);
        entry \<leftarrow> load (ht_entries (ht s)) (unat idx);
        let t = (ht s)\<lparr>ht_top := top,
                       ht_entries := (ht_entries (ht s))
                         [unat idx := entry\<lparr>he_obj := obj, he_caps := caps\<rparr>]\<rparr>;
        s1 \<leftarrow> kobject_ref (s\<lparr>ht := t\<rparr>) obj;
        Some (s1, make_handle caps (he_gen entry) (ucast idx)) })"

text \<open>The check every operation on a handle starts with: index in range, generation and object valid.\<close>

definition handle_find :: "handle_table \<Rightarrow> handle \<Rightarrow> (nat \<times> handle_entry) option" where
  "handle_find t h =
     (let idx = unat (h_idx h)
      in if idx = 0 \<or> idx \<ge> CAPACITY then None
         else let entry = ht_entries t ! idx
              in if he_gen entry \<noteq> h_gen h \<or> he_obj entry = 0 then None else Some (idx, entry))"

definition handle_resolve :: "kom \<Rightarrow> handle \<Rightarrow> u16 \<Rightarrow> (kom \<times> oid) option" where
  "handle_resolve s h req_caps =
     (if \<not> cap_sub req_caps (h_caps h) then Some (s, 0)
      else case handle_find (ht s) h of
             None \<Rightarrow> Some (s, 0)
           | Some (idx, entry) \<Rightarrow>
               if \<not> cap_sub req_caps (he_caps entry) then Some (s, 0)
               else do { s1 \<leftarrow> kobject_ref s (he_obj entry); Some (s1, he_obj entry) })"

definition handle_dup :: "kom \<Rightarrow> handle \<Rightarrow> u16 \<Rightarrow> (kom \<times> handle) option" where
  "handle_dup s h new_caps =
     (case handle_find (ht s) h of
        None \<Rightarrow> Some (s, 0)
      | Some (idx, entry) \<Rightarrow>
          if \<not> cap_sub new_caps (he_caps entry) then Some (s, 0)
          else handle_alloc s (he_obj entry) new_caps)"

text \<open>The entry is cleared, its generation advanced (0 is skipped) and its index pushed.\<close>

definition handle_release :: "handle_table \<Rightarrow> nat \<Rightarrow> handle_entry \<Rightarrow> handle_table option" where
  "handle_release t idx entry =
     do { let g = he_gen entry + 1;
          fl \<leftarrow> store (ht_freelist t) (unat (ht_top t)) (of_nat idx);
          Some (t\<lparr>ht_entries := (ht_entries t)
                    [idx := \<lparr>he_obj = 0, he_caps = 0, he_gen = (if g = 0 then 1 else g)\<rparr>],
                  ht_freelist := fl, ht_top := ht_top t + 1\<rparr>) }"

definition handle_transfer :: "kom \<Rightarrow> handle \<Rightarrow> (kom \<times> handle) option" where
  "handle_transfer s h =
     (case handle_find (ht s) h of
        None \<Rightarrow> Some (s, 0)
      | Some (idx, entry) \<Rightarrow> do {
          s1 \<leftarrow> kobject_ref s (he_obj entry);
          t \<leftarrow> handle_release (ht s1) idx entry;
          (s2, new_h) \<leftarrow> handle_alloc (s1\<lparr>ht := t\<rparr>) (he_obj entry) (he_caps entry);
          s3 \<leftarrow> kobject_unref s2 (he_obj entry);
          Some (s3, new_h) })"

definition handle_close :: "kom \<Rightarrow> handle \<Rightarrow> kom option" where
  "handle_close s h =
     (case handle_find (ht s) h of
        None \<Rightarrow> Some s
      | Some (idx, entry) \<Rightarrow> do {
          t \<leftarrow> handle_release (ht s) idx entry;
          kobject_unref (s\<lparr>ht := t\<rparr>) (he_obj entry) })"

section \<open>Packing\<close>

lemma handle_masks: "(0xFFFFFFFF :: u64) = mask 32" "(0xFFFF :: u64) = mask 16"
  by (simp_all add: mask_eq_exp_minus_1)

lemma handle_fields [simp]:
  "h_idx (make_handle caps gen idx) = idx"
  "h_gen (make_handle caps gen idx) = gen"
  "h_caps (make_handle caps gen idx) = caps"
  unfolding make_handle_def h_idx_def h_gen_def h_caps_def handle_masks
  by (rule bit_word_eqI; auto simp: bit_simps dest: bit_imp_le_length)+

lemma unat_ucast16: "unat (ucast (x :: u16) :: u32) = unat x"
  using unsigned_less[of x, where 'a = nat] by (simp add: unsigned_ucast_eq take_bit_nat_eq_self)

lemma cap_sub_refl [simp]: "cap_sub c c"
  by (simp add: cap_sub_def)

lemma cap_sub_trans: "cap_sub a b \<Longrightarrow> cap_sub b c \<Longrightarrow> cap_sub a c"
  unfolding cap_sub_def by (metis and.assoc and.commute)

section \<open>The table invariant\<close>

definition free_set :: "handle_table \<Rightarrow> nat set" where
  "free_set t = unat ` set (take (unat (ht_top t)) (ht_freelist t))"

definition ht_inv :: "handle_table \<Rightarrow> bool" where
  "ht_inv t \<longleftrightarrow>
     length (ht_entries t) = CAPACITY \<and> length (ht_freelist t) = CAPACITY
     \<and> unat (ht_top t) < CAPACITY \<and> distinct (take (unat (ht_top t)) (ht_freelist t))
     \<and> free_set t = {i. 0 < i \<and> i < CAPACITY \<and> he_obj (ht_entries t ! i) = 0}
     \<and> he_obj (ht_entries t ! 0) = 0
     \<and> (\<forall>i. 0 < i \<longrightarrow> i < CAPACITY \<longrightarrow> he_gen (ht_entries t ! i) \<noteq> 0)"

lemma free_set_card: "ht_inv t \<Longrightarrow> card (free_set t) = unat (ht_top t)"
proof -
  assume inv: "ht_inv t"
  have "inj_on (unat :: u16 \<Rightarrow> nat) A" for A by (auto intro: inj_onI simp: word_unat_eq_iff)
  then have "card (free_set t) = card (set (take (unat (ht_top t)) (ht_freelist t)))"
    unfolding free_set_def by (rule card_image)
  also have "\<dots> = unat (ht_top t)" using inv by (simp add: ht_inv_def distinct_card)
  finally show ?thesis .
qed

text \<open>An occupied entry leaves room on the stack of free indices.\<close>

lemma occupied_room:
  assumes "ht_inv t" and "0 < i" and "i < CAPACITY" and "he_obj (ht_entries t ! i) \<noteq> 0"
  shows "unat (ht_top t) < CAPACITY - 1"
proof -
  have sub: "free_set t \<subseteq> {0<..<CAPACITY} - {i}"
  proof
    fix j
    assume "j \<in> free_set t"
    then show "j \<in> {0<..<CAPACITY} - {i}" using assms(1,4) by (cases "j = i") (simp_all add: ht_inv_def)
  qed
  have "i \<in> {0<..<CAPACITY}" using assms(2,3) by simp
  then have "card ({0<..<CAPACITY} - {i}) = CAPACITY - 2"
    by (simp only: card_Diff_singleton card_greaterThanLessThan)
  moreover have "card (free_set t) \<le> card ({0<..<CAPACITY} - {i})"
    using sub by (intro card_mono) simp_all
  ultimately show ?thesis using free_set_card[OF assms(1)] by linarith
qed

lemma handle_find_Some:
  "handle_find t h = Some (i, e) \<longleftrightarrow>
     i = unat (h_idx h) \<and> 0 < i \<and> i < CAPACITY \<and> e = ht_entries t ! i \<and> he_gen e = h_gen h \<and> he_obj e \<noteq> 0"
  by (auto simp: handle_find_def Let_def)

lemma count_list_update:
  "i < length xs \<Longrightarrow>
   count_list (xs[i := y]) p + (if xs ! i = p then 1 else 0) = count_list xs p + (if y = p then 1 else 0)"
proof (induction xs arbitrary: i)
  case (Cons x xs)
  show ?case
  proof (cases i)
    case (Suc n)
    then have "n < length xs" using Cons.prems by simp
    from Cons.IH[OF this] show ?thesis using Suc by (cases "y = p"; cases "xs ! n = p") simp_all
  qed simp
qed simp

lemma ht_refs_update:
  assumes "i < length (ht_entries t)"
  shows "ht_refs (t\<lparr>ht_entries := (ht_entries t)[i := e]\<rparr>) p + (if he_obj (ht_entries t ! i) = p then 1 else 0)
    = ht_refs t p + (if he_obj e = p then 1 else 0)"
  using count_list_update[of i "map he_obj (ht_entries t)" "he_obj e" p] assms
  by (simp add: ht_refs_def map_update)

lemma ht_refs_other [simp]:
  "ht_refs (t\<lparr>ht_freelist := fl\<rparr>) p = ht_refs t p" "ht_refs (t\<lparr>ht_top := n\<rparr>) p = ht_refs t p"
  by (simp_all add: ht_refs_def)

text \<open>Replacing the table moves references between the table and the outside.\<close>

lemma kom_inv_ht:
  assumes "kom_inv w ext s" and "\<And>p. p \<noteq> 0 \<Longrightarrow> ht_refs t p + ext' p = ht_refs (ht s) p + ext p"
  shows "kom_inv w ext' (s\<lparr>ht := t\<rparr>)"
proof -
  have same: "get_obj (s\<lparr>ht := t\<rparr>) p = get_obj s p" "rc (s\<lparr>ht := t\<rparr>) p = rc s p"
    "obj_sum f (s\<lparr>ht := t\<rparr>) = obj_sum f s" "chan_refs (s\<lparr>ht := t\<rparr>) c = chan_refs s c" for p f c
    by (simp_all add: get_obj_def rc_def obj_sum_def chan_refs_def get_chan_def)
  have "ref_inv (s\<lparr>ht := t\<rparr>) w ext'"
    unfolding ref_inv_def same
  proof (intro allI impI)
    fix p :: oid
    assume "p \<noteq> 0"
    then show "rc s p = obj_sum (\<lambda>ob. holds ob p) s + ht_refs (ht (s\<lparr>ht := t\<rparr>)) p + ext' p + count_list w (Unref p)"
      using assms(1) assms(2)[of p] by (simp add: kom_inv_def ref_inv_def)
  qed
  then show ?thesis using assms(1) by (simp add: kom_inv_def chan_inv_def obj_inv_def free_inv_def same)
qed

lemma kframe_ht [simp]: "kframe k s (s'\<lparr>ht := t\<rparr>) \<longleftrightarrow> kframe k s s'" "kframe k (s\<lparr>ht := t\<rparr>) s' \<longleftrightarrow> kframe k s s'"
  by (auto simp: kframe_def kom_le_def rc_def get_obj_def)

lemma rc_ht [simp]: "rc (s\<lparr>ht := t\<rparr>) p = rc s p"
  by (simp add: rc_def get_obj_def)

lemma room_ht [simp]: "room k (s\<lparr>ht := t\<rparr>) = room k s"
  by (simp add: room_def)

lemma kobject_ref_ht: "kobject_ref (s\<lparr>ht := t\<rparr>) p = map_option (\<lambda>s. s\<lparr>ht := t\<rparr>) (kobject_ref s p)"
  by (auto simp: kobject_ref_def get_obj_def put_obj_def split: bind_splits)

lemma ht_entry_live:
  assumes "kom_inv w ext s" and "i < length (ht_entries (ht s))" and "he_obj (ht_entries (ht s) ! i) = p" and "p \<noteq> 0"
  shows "0 < rc s p"
proof -
  have "p \<in> set (map he_obj (ht_entries (ht s)))" using assms(2,3) by force
  then have "0 < ht_refs (ht s) p" unfolding ht_refs_def by (metis count_list_0_iff gr0I)
  then show ?thesis using assms(1,4) by (simp add: kom_inv_def ref_inv_def)
qed

section \<open>Operations keep the invariants\<close>

lemma rc_nonnull: "0 < rc s p \<Longrightarrow> p \<noteq> 0"
  by (cases p) (auto simp: rc_def get_obj_def)

definition handle_ok :: "(oid \<Rightarrow> nat) \<Rightarrow> kom \<Rightarrow> bool" where
  "handle_ok ext s \<longleftrightarrow> kom_inv [] ext s \<and> ht_inv (ht s)"

text \<open>Popping the free index \<open>i\<close> for a new entry.\<close>

lemma ht_inv_pop:
  assumes inv: "ht_inv t" and top: "ht_top t \<noteq> 0"
    and i: "i = unat (ht_freelist t ! unat (ht_top t - 1))" and e: "he_obj e \<noteq> 0" "he_gen e \<noteq> 0"
  shows "ht_inv (t\<lparr>ht_top := ht_top t - 1, ht_entries := (ht_entries t)[i := e]\<rparr>)
    \<and> 0 < i \<and> i < CAPACITY \<and> he_obj (ht_entries t ! i) = 0"
proof -
  let ?n = "unat (ht_top t - 1)"
  have n: "unat (ht_top t) = Suc ?n" using top by (simp add: unat_pred_word) (metis Suc_pred gr0I unat_eq_zero)
  have len: "?n < length (ht_freelist t)" using inv n by (simp add: ht_inv_def)
  then have split: "take (unat (ht_top t)) (ht_freelist t) = take ?n (ht_freelist t) @ [ht_freelist t ! ?n]"
    unfolding n by (rule take_Suc_conv_app_nth)
  have free: "free_set t = insert i (unat ` set (take ?n (ht_freelist t)))"
    unfolding free_set_def split i by simp
  have "ht_freelist t ! ?n \<notin> set (take ?n (ht_freelist t))"
    using inv unfolding ht_inv_def split distinct_append by auto
  then have ni: "i \<notin> unat ` set (take ?n (ht_freelist t))"
    unfolding i by (metis imageE word_unat_eq_iff)
  have "i \<in> free_set t" using free by simp
  then have occ: "0 < i" "i < CAPACITY" "he_obj (ht_entries t ! i) = 0" using inv by (simp_all add: ht_inv_def)
  let ?t = "t\<lparr>ht_top := ht_top t - 1, ht_entries := (ht_entries t)[i := e]\<rparr>"
  have "free_set ?t = unat ` set (take ?n (ht_freelist t))" by (simp add: free_set_def)
  also have "\<dots> = free_set t - {i}" using free ni by simp
  finally have fs: "free_set ?t = free_set t - {i}" .
  have lene: "length (ht_entries t) = CAPACITY" using inv by (simp add: ht_inv_def)
  have "free_set ?t = {j. 0 < j \<and> j < CAPACITY \<and> he_obj (ht_entries ?t ! j) = 0}"
    unfolding fs using inv e(1) occ lene by (auto simp: ht_inv_def nth_list_update)
  moreover have "distinct (take ?n (ht_freelist t))" using inv unfolding ht_inv_def split by simp
  ultimately have "ht_inv ?t" using inv occ e lene n by (simp add: ht_inv_def nth_list_update)
  then show ?thesis using occ by simp
qed

lemma handle_alloc_ok:
  assumes ok: "handle_ok ext s" and "0 < rc s obj" and "room 1 s"
  shows "\<exists>s' h. handle_alloc s obj caps = Some (s', h) \<and> handle_ok ext s' \<and> kframe 1 s s'
    \<and> (ht_top (ht s) \<noteq> 0 \<longrightarrow> ht_top (ht s') = ht_top (ht s) - 1 \<and>
        (\<exists>i e. handle_find (ht s') h = Some (i, e) \<and> he_obj e = obj \<and> he_caps e = caps \<and> h_caps h = caps))"
proof -
  have inv: "kom_inv [] ext s" "ht_inv (ht s)" using ok by (simp_all add: handle_ok_def)
  have p0: "obj \<noteq> 0" using assms(2) by (rule rc_nonnull)
  show ?thesis
  proof (cases "ht_top (ht s) = 0")
    case True
    then show ?thesis using ok p0 by (simp add: handle_alloc_def)
  next
    case False
    let ?t = "ht s" and ?n = "unat (ht_top (ht s) - 1)"
    let ?idx = "ht_freelist ?t ! ?n"
    let ?i = "unat ?idx"
    let ?e = "(ht_entries ?t ! ?i)\<lparr>he_obj := obj, he_caps := caps\<rparr>"
    have "unat (ht_top ?t) < CAPACITY" using inv(2) by (simp add: ht_inv_def)
    then have n: "?n < CAPACITY" using unat_pred_word[OF False] by linarith
    then have ld: "load (ht_freelist ?t) ?n = Some ?idx" using inv(2) by (simp add: ht_inv_def load_def)
    have "?n < unat (ht_top ?t)" using unat_pred_word[OF False] False by (simp add: unat_gt_0)
    then have "?idx \<in> set (take (unat (ht_top ?t)) (ht_freelist ?t))"
      using nth_mem[of ?n "take (unat (ht_top ?t)) (ht_freelist ?t)"] n inv(2)
      by (simp add: ht_inv_def)
    then have "?i \<in> free_set ?t" unfolding free_set_def by (rule imageI)
    then have i: "0 < ?i" "?i < CAPACITY" using inv(2) by (simp_all add: ht_inv_def)
    then have g: "he_gen ?e \<noteq> 0" using inv(2) by (simp add: ht_inv_def)
    let ?t' = "?t\<lparr>ht_top := ht_top ?t - 1, ht_entries := (ht_entries ?t)[?i := ?e]\<rparr>"
    have t': "ht_inv ?t'" "he_obj (ht_entries ?t ! ?i) = 0"
      using ht_inv_pop[OF inv(2) False refl, of ?e] p0 g by simp_all
    have le: "length (ht_entries ?t) = CAPACITY" using inv(2) by (simp add: ht_inv_def)
    obtain s1 where s1: "kobject_ref s obj = Some s1" "kom_inv [] (ext(obj := ext obj + 1)) s1"
      "kframe 1 s s1" "ht s1 = ht s" using kobject_ref_ok[OF inv(1) assms(2,3)] by blast
    have "ht_refs ?t' p + ext p = ht_refs (ht s1) p + (ext(obj := ext obj + 1)) p" if "p \<noteq> 0" for p
      using ht_refs_update[of ?i "?t\<lparr>ht_top := ht_top ?t - 1\<rparr>" ?e p] i le t'(2) that s1(4) by simp
    then have k: "kom_inv [] ext (s1\<lparr>ht := ?t'\<rparr>)" by (rule kom_inv_ht[OF s1(2)])
    have al: "handle_alloc s obj caps
        = Some (s1\<lparr>ht := ?t'\<rparr>, make_handle caps (he_gen (ht_entries ?t ! ?i)) (ucast ?idx))"
      using p0 False ld i le s1(1) by (simp add: handle_alloc_def kobject_ref_ht load_def Let_def)
    have u: "unat (ucast ?idx :: u32) = ?i" by (rule unat_ucast16)
    have "handle_find ?t' (make_handle caps (he_gen (ht_entries ?t ! ?i)) (ucast ?idx)) = Some (?i, ?e)"
      using i le p0 by (simp add: handle_find_Some u)
    then show ?thesis using al k t'(1) s1(3) by (auto simp: handle_ok_def)
  qed
qed

lemma handle_release_ok:
  assumes inv: "ht_inv t" and i: "0 < i" "i < CAPACITY" and e: "e = ht_entries t ! i" "he_obj e \<noteq> 0"
  shows "\<exists>t'. handle_release t i e = Some t' \<and> ht_inv t' \<and> ht_top t' \<noteq> 0
    \<and> he_obj (ht_entries t' ! i) = 0
    \<and> (\<forall>p. p \<noteq> 0 \<longrightarrow> ht_refs t' p + (if p = he_obj e then 1 else 0) = ht_refs t p)"
proof -
  let ?g = "he_gen e + 1"
  let ?e = "\<lparr>he_obj = 0, he_caps = 0, he_gen = (if ?g = 0 then 1 else ?g)\<rparr>"
  let ?n = "unat (ht_top t)"
  let ?fl = "(ht_freelist t)[?n := of_nat i]"
  let ?t = "t\<lparr>ht_entries := (ht_entries t)[i := ?e], ht_freelist := ?fl, ht_top := ht_top t + 1\<rparr>"
  have n: "?n < CAPACITY - 1" using occupied_room[OF inv i] e by simp
  have n1: "unat (ht_top t + 1) = Suc ?n" using n by (subst unat_Suc_word) simp_all
  have len: "length (ht_freelist t) = CAPACITY" "length (ht_entries t) = CAPACITY"
    using inv by (simp_all add: ht_inv_def)
  have ui: "unat (of_nat i :: u16) = i" using i(2) by (simp add: unat_of_nat)
  have tk: "take (Suc ?n) ?fl = take ?n (ht_freelist t) @ [of_nat i]"
    using n len by (simp add: take_Suc_conv_app_nth)
  have ni: "i \<notin> free_set t" using inv e by (simp add: ht_inv_def)
  then have nfl: "of_nat i \<notin> set (take ?n (ht_freelist t))"
    using ui unfolding free_set_def by (metis image_eqI)
  have fs: "free_set ?t = insert i (free_set t)"
    using n1 tk ui by (simp add: free_set_def)
  have "free_set ?t = {j. 0 < j \<and> j < CAPACITY \<and> he_obj (ht_entries ?t ! j) = 0}"
    unfolding fs using inv i len by (auto simp: ht_inv_def nth_list_update)
  moreover have "distinct (take (Suc ?n) ?fl)" using inv nfl unfolding tk by (simp add: ht_inv_def)
  ultimately have "ht_inv ?t" using inv i len n n1 by (simp add: ht_inv_def nth_list_update)
  moreover have "handle_release t i e = Some ?t"
    using n len by (simp add: handle_release_def store_def Let_def)
  moreover have "ht_top ?t \<noteq> 0"
  proof
    assume "ht_top ?t = 0"
    then have "unat (ht_top t + 1) = 0" by simp
    then show False using n1 by simp
  qed
  moreover have "ht_refs ?t p + (if p = he_obj e then 1 else 0) = ht_refs t p" if "p \<noteq> 0" for p
    using ht_refs_update[of i t ?e p] i(2) len that e(1) by (auto simp: ht_refs_def split: if_splits)
  ultimately show ?thesis using i(2) len by auto
qed

lemma handle_find_live:
  assumes "handle_ok ext s" and "handle_find (ht s) h = Some (i, e)"
  shows "0 < rc s (he_obj e)"
proof -
  have "i < CAPACITY" "e = ht_entries (ht s) ! i" "he_obj e \<noteq> 0" using assms(2) by (auto simp: handle_find_Some)
  moreover have "kom_inv [] ext s" "length (ht_entries (ht s)) = CAPACITY"
    using assms(1) by (simp_all add: handle_ok_def ht_inv_def)
  ultimately show ?thesis by (auto intro: ht_entry_live)
qed

lemma handle_resolve_ok:
  assumes ok: "handle_ok ext s" and "room 1 s"
  shows "\<exists>s' p. handle_resolve s h req = Some (s', p) \<and> kframe 1 s s' \<and> ht s' = ht s
    \<and> handle_ok (if p = 0 then ext else ext(p := ext p + 1)) s'
    \<and> (p \<noteq> 0 \<longrightarrow> (\<exists>i e. handle_find (ht s) h = Some (i, e) \<and> he_obj e = p \<and> cap_sub req (he_caps e) \<and> cap_sub req (h_caps h)))"
proof (cases "cap_sub req (h_caps h) \<and> (\<exists>i e. handle_find (ht s) h = Some (i, e) \<and> cap_sub req (he_caps e))")
  case True
  then obtain i e where e: "handle_find (ht s) h = Some (i, e)" "cap_sub req (he_caps e)" by blast
  have inv: "kom_inv [] ext s" "length (ht_entries (ht s)) = CAPACITY" using ok by (simp_all add: handle_ok_def ht_inv_def)
  have "0 < rc s (he_obj e)" using ok e(1) by (rule handle_find_live)
  from kobject_ref_ok[OF inv(1) this assms(2)] obtain s1 where s1: "kobject_ref s (he_obj e) = Some s1"
    "kom_inv [] (ext(he_obj e := ext (he_obj e) + 1)) s1" "kframe 1 s s1" "ht s1 = ht s" by blast
  have "handle_resolve s h req = Some (s1, he_obj e)" using True e s1(1) by (simp add: handle_resolve_def)
  moreover have "handle_ok (ext(he_obj e := ext (he_obj e) + 1)) s1" using s1 ok by (simp add: handle_ok_def)
  moreover have "he_obj e \<noteq> 0" using e(1) unfolding handle_find_Some by blast
  ultimately show ?thesis using True e s1(3,4)
    by (intro exI[of _ s1] exI[of _ "he_obj e"]) simp
next
  case False
  then show ?thesis using ok by (auto simp: handle_resolve_def split: option.splits)
qed

lemma handle_dup_ok:
  assumes ok: "handle_ok ext s" and "room 1 s"
  shows "\<exists>s' h'. handle_dup s h new_caps = Some (s', h') \<and> handle_ok ext s' \<and> kframe 1 s s'"
proof (cases "\<exists>i e. handle_find (ht s) h = Some (i, e) \<and> cap_sub new_caps (he_caps e)")
  case True
  then obtain i e where e: "handle_find (ht s) h = Some (i, e)" "cap_sub new_caps (he_caps e)" by blast
  have "0 < rc s (he_obj e)" using ok e(1) by (rule handle_find_live)
  from handle_alloc_ok[OF ok this assms(2), of new_caps] show ?thesis using e by (auto simp: handle_dup_def)
next
  case False
  then show ?thesis using ok by (auto simp: handle_dup_def split: option.splits)
qed

lemma handle_close_ok:
  assumes ok: "handle_ok ext s"
  shows "\<exists>s'. handle_close s h = Some s' \<and> handle_ok ext s' \<and> kframe 0 s s' \<and> handle_find (ht s') h = None"
proof (cases "handle_find (ht s) h")
  case None
  then show ?thesis using ok by (simp add: handle_close_def)
next
  case (Some ie)
  then obtain i e where f: "handle_find (ht s) h = Some (i, e)" by (cases ie) auto
  let ?p = "he_obj e"
  have e: "0 < i" "i < CAPACITY" "e = ht_entries (ht s) ! i" "?p \<noteq> 0" "i = unat (h_idx h)" "he_gen e = h_gen h"
    using f by (auto simp: handle_find_Some)
  have inv: "kom_inv [] ext s" "ht_inv (ht s)" using ok by (simp_all add: handle_ok_def)
  obtain t where t: "handle_release (ht s) i e = Some t" "ht_inv t" "he_obj (ht_entries t ! i) = 0"
    "\<And>p. p \<noteq> 0 \<Longrightarrow> ht_refs t p + (if p = ?p then 1 else 0) = ht_refs (ht s) p"
    using handle_release_ok[OF inv(2) e(1-4)] by blast
  have "kom_inv [] (ext(?p := ext ?p + 1)) (s\<lparr>ht := t\<rparr>)"
    by (rule kom_inv_ht[OF inv(1)], drule t(4), simp split: if_splits)
  from kobject_unref_ok[OF this, of ?p] obtain s' where
    "kobject_unref (s\<lparr>ht := t\<rparr>) ?p = Some s'" "kom_inv [] ext s'" "kframe 0 s s'" "ht s' = t"
    by auto
  moreover have "handle_find t h = None" using t(3) e(5) by (simp add: handle_find_def Let_def)
  ultimately show ?thesis using f t(1,2) by (simp add: handle_close_def handle_ok_def)
qed

lemma handle_transfer_ok:
  assumes ok: "handle_ok ext s" and "room 2 s" and f: "handle_find (ht s) h = Some (i, e)"
  shows "\<exists>s' h'. handle_transfer s h = Some (s', h') \<and> kframe 2 s s'
    \<and> handle_ok (ext(he_obj e := ext (he_obj e) + 1)) s'
    \<and> handle_find (ht s') h' \<noteq> None"
proof -
  let ?p = "he_obj e"
  have e: "0 < i" "i < CAPACITY" "e = ht_entries (ht s) ! i" "?p \<noteq> 0"
    using f by (auto simp: handle_find_Some)
  have inv: "kom_inv [] ext s" "ht_inv (ht s)" using ok by (simp_all add: handle_ok_def)
  have live: "0 < rc s ?p" using ok f by (rule handle_find_live)
  obtain s1 where s1: "kobject_ref s ?p = Some s1" "kom_inv [] (ext(?p := ext ?p + 1)) s1"
    "kframe 1 s s1" "ht s1 = ht s"
    using kobject_ref_ok[OF inv(1) live room_mono[OF assms(2)]] by auto
  obtain t where t: "handle_release (ht s) i e = Some t" "ht_inv t" "ht_top t \<noteq> 0"
    "\<And>p. p \<noteq> 0 \<Longrightarrow> ht_refs t p + (if p = ?p then 1 else 0) = ht_refs (ht s) p"
    using handle_release_ok[OF inv(2) e(1-4)] by blast
  have k2: "kom_inv [] (ext(?p := ext ?p + 2)) (s1\<lparr>ht := t\<rparr>)"
    by (rule kom_inv_ht[OF s1(2)], drule t(4), simp add: s1(4) split: if_splits)
  then have ok2: "handle_ok (ext(?p := ext ?p + 2)) (s1\<lparr>ht := t\<rparr>)" using t(2) by (simp add: handle_ok_def)
  have live2: "0 < rc (s1\<lparr>ht := t\<rparr>) ?p" using ext_live[OF k2, of ?p] e(4) by simp
  have "room 1 s1" using assms(2) s1(3) by (rule room_step) simp
  then have room2: "room 1 (s1\<lparr>ht := t\<rparr>)" by simp
  obtain s2 h' where s2: "handle_alloc (s1\<lparr>ht := t\<rparr>) ?p (he_caps e) = Some (s2, h')"
    "handle_ok (ext(?p := ext ?p + 2)) s2" "kframe 1 s1 s2" "handle_find (ht s2) h' \<noteq> None"
    using handle_alloc_ok[OF ok2 live2 room2, of "he_caps e"] t(3) by auto
  obtain s3 where s3: "kobject_unref s2 ?p = Some s3" "kom_inv [] (ext(?p := ext ?p + 1)) s3"
    "kframe 0 s2 s3" "ht s3 = ht s2"
    using kobject_unref_ok[of "ext(?p := ext ?p + 2)" s2 ?p] s2(2) by (auto simp: handle_ok_def)
  have "kframe 2 s s3" using kframe_trans[OF kframe_trans[OF s1(3) s2(3)] s3(3)] by (simp add: numeral_2_eq_2)
  then show ?thesis using f s1 t s2 s3 by (auto simp: handle_transfer_def handle_ok_def)
qed

subsection \<open>Initialisation\<close>

lemma handle_init_loop_inv:
  "k < CAPACITY \<Longrightarrow> length (ht_entries t) = CAPACITY \<Longrightarrow> length (ht_freelist t) = CAPACITY \<Longrightarrow>
   unat (ht_top t) = CAPACITY - 1 - k \<Longrightarrow>
   take (CAPACITY - 1 - k) (ht_freelist t) = map of_nat (rev [Suc k..<CAPACITY]) \<Longrightarrow>
   (\<And>j. j < CAPACITY \<Longrightarrow> he_obj (ht_entries t ! j) = 0) \<Longrightarrow>
   (\<And>j. k < j \<Longrightarrow> j < CAPACITY \<Longrightarrow> he_gen (ht_entries t ! j) = 1) \<Longrightarrow>
   ht_inv (handle_init_loop k t)
     \<and> (\<forall>j<CAPACITY. he_obj (ht_entries (handle_init_loop k t) ! j) = 0)
     \<and> unat (ht_top (handle_init_loop k t)) = CAPACITY - 1"
proof (induction k arbitrary: t)
  case 0
  have f: "take (unat (ht_top t)) (ht_freelist t) = map of_nat (rev [1..<CAPACITY])"
    using 0(4,5) by (simp add: One_nat_def)
  have u: "unat (of_nat j :: u16) = j" if "j < CAPACITY" for j using that by (simp add: unat_of_nat)
  have "free_set t = unat ` (of_nat :: nat \<Rightarrow> u16) ` {1..<CAPACITY}"
    unfolding free_set_def f by (simp only: set_map set_rev set_upt)
  also have "\<dots> = {1..<CAPACITY}" unfolding image_image using u by (force simp: image_iff)
  finally have fs: "free_set t = {1..<CAPACITY}" .
  have "inj_on (of_nat :: nat \<Rightarrow> u16) {1..<CAPACITY}"
    by (rule inj_onI) (metis atLeastLessThan_iff u)
  then have "distinct (take (unat (ht_top t)) (ht_freelist t))"
    unfolding f by (simp only: distinct_map distinct_rev distinct_upt set_rev set_upt)
  moreover have "free_set t = {i. 0 < i \<and> i < CAPACITY \<and> he_obj (ht_entries t ! i) = 0}"
    unfolding fs using 0(6) by auto
  ultimately show ?case using 0 by (simp add: ht_inv_def)
next
  case (Suc k)
  let ?n = "unat (ht_top t)"
  let ?t = "t\<lparr>ht_freelist := (ht_freelist t)[?n := of_nat (Suc k)], ht_top := ht_top t + 1,
      ht_entries := (ht_entries t)[Suc k := (ht_entries t ! Suc k)\<lparr>he_gen := 1\<rparr>]\<rparr>"
  have n: "?n = CAPACITY - 1 - Suc k" using Suc.prems(4) .
  have n1: "unat (ht_top ?t) = CAPACITY - 1 - k"
    using n Suc.prems(1) unat_Suc_word[of "ht_top t"] by simp
  have sn: "CAPACITY - 1 - k = Suc ?n" using n Suc.prems(1) by linarith
  have "take (Suc ?n) (ht_freelist ?t) = take ?n (ht_freelist t) @ [of_nat (Suc k)]"
    using n Suc.prems(1,3) by (simp add: take_Suc_conv_app_nth)
  also have "\<dots> = map of_nat (rev [Suc k..<CAPACITY])"
    using Suc.prems(1,5) n by (simp only: upt_conv_Cons) simp
  finally have "take (CAPACITY - 1 - k) (ht_freelist ?t) = map of_nat (rev [Suc k..<CAPACITY])"
    unfolding sn .
  then have "ht_inv (handle_init_loop k ?t)
     \<and> (\<forall>j<CAPACITY. he_obj (ht_entries (handle_init_loop k ?t) ! j) = 0)
     \<and> unat (ht_top (handle_init_loop k ?t)) = CAPACITY - 1"
    using Suc.prems n1 by (intro Suc.IH) (simp_all add: nth_list_update)
  then show ?case by simp
qed

lemma handle_init_inv:
  assumes "length fl = CAPACITY"
  shows "ht_inv (handle_init fl) \<and> (\<forall>j<CAPACITY. he_obj (ht_entries (handle_init fl) ! j) = 0)
    \<and> unat (ht_top (handle_init fl)) = CAPACITY - 1"
  unfolding handle_init_def using assms by (intro handle_init_loop_inv) simp_all

section \<open>Properties\<close>

text \<open>
  \<^bold>\<open>C23.\<close> A handle that was just allocated resolves to its object for exactly the requests its
  capabilities cover, and to nothing for the others; the table and the reference counts stay
  consistent.
\<close>

theorem handle_alloc_resolve:
  assumes "handle_ok ext s" and "0 < rc s obj" and "room 2 s" and "ht_top (ht s) \<noteq> 0"
  shows "\<exists>s' h. handle_alloc s obj caps = Some (s', h) \<and> handle_ok ext s'
    \<and> (\<forall>req. \<exists>s''. handle_resolve s' h req = Some (s'', if cap_sub req caps then obj else 0))"
proof -
  have "room 1 s" using assms(3) by (rule room_mono) simp
  then obtain s' h i e where a: "handle_alloc s obj caps = Some (s', h)" "handle_ok ext s'" "kframe 1 s s'"
    and f: "handle_find (ht s') h = Some (i, e)" "he_obj e = obj" "he_caps e = caps" "h_caps h = caps"
    using handle_alloc_ok[OF assms(1,2), of caps] assms(4) by blast
  have r: "room 1 s'" using assms(3) a(3) by (rule room_step) simp
  have "\<exists>s''. handle_resolve s' h req = Some (s'', if cap_sub req caps then obj else 0)" for req
  proof (cases "cap_sub req caps")
    case True
    have "kom_inv [] ext s'" using a(2) by (simp add: handle_ok_def)
    moreover have "0 < rc s' obj" using handle_find_live[OF a(2) f(1)] f(2) by simp
    ultimately obtain s'' where "kobject_ref s' obj = Some s''" using kobject_ref_ok r by blast
    then show ?thesis using True f by (simp add: handle_resolve_def)
  qed (simp add: handle_resolve_def f)
  then show ?thesis using a by blast
qed

text \<open>The state of the examples: two objects and a fresh handle table.\<close>

definition two_objects_ht :: kom where
  "two_objects_ht = two_objects\<lparr>ht := handle_init (replicate CAPACITY 0)\<rparr>"

lemma ht_refs_init: "length fl = CAPACITY \<Longrightarrow> p \<noteq> 0 \<Longrightarrow> ht_refs (handle_init fl) p = 0"
proof -
  assume fl: "length fl = CAPACITY" and p: "p \<noteq> 0"
  let ?es = "ht_entries (handle_init fl)"
  have len: "length ?es = CAPACITY" and z: "\<And>j. j < CAPACITY \<Longrightarrow> he_obj (?es ! j) = 0"
    using handle_init_inv[OF fl] by (simp_all add: ht_inv_def)
  have "p \<notin> he_obj ` set ?es"
  proof
    assume "p \<in> he_obj ` set ?es"
    then obtain j where "j < length ?es" "p = he_obj (?es ! j)" by (metis imageE in_set_conv_nth)
    then show False using len z p by metis
  qed
  then show ?thesis by (simp add: ht_refs_def count_list_0_iff)
qed

lemma two_objects_rc: "rc two_objects p = (if p = 1 \<or> p = 2 then 1 else 0)"
  by (simp add: rc_def two_objects_get)

lemma two_objects_ht_ok:
  "handle_ok ((\<lambda>_. 0)(1 := 1)) two_objects_ht" "room 2 two_objects_ht" "ht_top (ht two_objects_ht) \<noteq> 0"
proof -
  have i: "ht_inv (handle_init (replicate CAPACITY 0))"
    "unat (ht_top (handle_init (replicate CAPACITY 0))) = CAPACITY - 1"
    using handle_init_inv[of "replicate CAPACITY 0"] by simp_all
  have "ht_refs (ht two_objects) p = 0" for p by (simp add: two_objects_def ht_refs_def)
  then have "kom_inv [] ((\<lambda>_. 0)(1 := 1)) two_objects_ht"
    unfolding two_objects_ht_def
    by (intro kom_inv_ht[OF two_objects_inv(1)]) (simp add: ht_refs_init)
  then show "handle_ok ((\<lambda>_. 0)(1 := 1)) two_objects_ht"
    using i(1) by (simp add: handle_ok_def two_objects_ht_def)
  show "room 2 two_objects_ht" by (simp add: two_objects_ht_def) (simp add: room_def two_objects_rc)
  show "ht_top (ht two_objects_ht) \<noteq> 0" using i(2) by (auto simp: two_objects_ht_def)
qed

lemma two_objects_ht_rc: "rc two_objects_ht 1 = 1" "rc two_objects_ht 2 = 1"
  by (simp_all add: two_objects_ht_def two_objects_rc)

theorem handle_alloc_resolve_witness:
  "\<exists>s' h s''. handle_alloc two_objects_ht 2 KAP_READ = Some (s', h)
     \<and> handle_resolve s' h KAP_WRITE = Some (s'', 0)"
  using handle_alloc_resolve[of "(\<lambda>_. 0)(1 := 1)" two_objects_ht 2 KAP_READ]
    two_objects_ht_ok two_objects_ht_rc
  by (force simp: cap_sub_def KAP_READ_def KAP_WRITE_def dest: spec[of _ KAP_WRITE])



text \<open>
  \<^bold>\<open>C24.\<close> Duplicating a handle never gains capabilities: a request that the entry does not cover
  returns the null handle and changes nothing, and otherwise the new handle has exactly the
  requested capabilities on the same object.
\<close>

theorem handle_dup_attenuates:
  assumes "handle_ok ext s" and "room 1 s" and "handle_find (ht s) h = Some (i, e)" and "ht_top (ht s) \<noteq> 0"
  shows "\<exists>s' h'. handle_dup s h caps = Some (s', h') \<and> handle_ok ext s'
    \<and> (if cap_sub caps (he_caps e)
       then \<exists>j e'. handle_find (ht s') h' = Some (j, e') \<and> he_obj e' = he_obj e \<and> he_caps e' = caps
       else s' = s \<and> h' = 0)"
  using handle_alloc_ok[OF assms(1) handle_find_live[OF assms(1,3)] assms(2), of caps] assms
  by (cases "cap_sub caps (he_caps e)") (auto simp: handle_dup_def)

text \<open>
  \<^bold>\<open>C25.\<close> Moving a handle (\<open>transfer\<close>) is memory-safe but leaks: the reference of the entry that is
  cleared is never dropped, so after the call the count of the object exceeds the number of
  references to it by one, and the object can never be freed.
\<close>

theorem handle_transfer_leaks:
  assumes "handle_ok ext s" and "room 2 s" and "handle_find (ht s) h = Some (i, e)"
  shows "\<exists>s' h'. handle_transfer s h = Some (s', h') \<and> handle_find (ht s') h' \<noteq> None
    \<and> handle_ok (ext(he_obj e := ext (he_obj e) + 1)) s'"
  using handle_transfer_ok[OF assms] by blast

lemma two_objects_alloc:
  "\<exists>s h i e. handle_alloc two_objects_ht 2 KAP_READ = Some (s, h) \<and> handle_ok ((\<lambda>_. 0)(1 := 1)) s \<and> room 2 s
     \<and> handle_find (ht s) h = Some (i, e) \<and> he_obj e = 2 \<and> he_caps e = KAP_READ \<and> ht_top (ht s) \<noteq> 0"
proof -
  have r: "room 3 two_objects_ht" "room 1 two_objects_ht"
    by (simp_all add: two_objects_ht_def) (simp_all add: room_def two_objects_rc)
  obtain s h i e where a: "handle_alloc two_objects_ht 2 KAP_READ = Some (s, h)"
    "handle_ok ((\<lambda>_. 0)(1 := 1)) s" "kframe 1 two_objects_ht s"
    "ht_top (ht s) = ht_top (ht two_objects_ht) - 1"
    "handle_find (ht s) h = Some (i, e)" "he_obj e = 2" "he_caps e = KAP_READ"
    using handle_alloc_ok[OF two_objects_ht_ok(1) _ r(2), of 2 KAP_READ] two_objects_ht_ok(3) two_objects_ht_rc(2)
    by auto
  have "room 2 s" using r(1) a(3) by (rule room_step) simp
  moreover have "ht_top (ht s) \<noteq> 0"
  proof
    assume "ht_top (ht s) = 0"
    then have "ht_top (ht two_objects_ht) = 1" using a(4) by simp
    then show False
      using handle_init_inv[of "replicate CAPACITY 0"] by (simp add: two_objects_ht_def)
  qed
  ultimately show ?thesis using a by blast
qed

theorem handle_transfer_leaks_witness:
  "\<exists>s h s' h'. handle_alloc two_objects_ht 2 KAP_READ = Some (s, h)
     \<and> handle_transfer s h = Some (s', h') \<and> handle_ok ((\<lambda>_. 0)(1 := 1, 2 := 1)) s'"
  using two_objects_alloc handle_transfer_leaks[where ext = "(\<lambda>_. 0)(1 := 1)"] by force

theorem handle_dup_attenuates_witness:
  "\<exists>s h. handle_alloc two_objects_ht 2 KAP_READ = Some (s, h) \<and> handle_dup s h KAP_WRITE = Some (s, 0)"
proof -
  obtain s h i e where a: "handle_alloc two_objects_ht 2 KAP_READ = Some (s, h)"
    "handle_ok ((\<lambda>_. 0)(1 := 1)) s" "room 2 s"
    "handle_find (ht s) h = Some (i, e)" "he_caps e = KAP_READ" "ht_top (ht s) \<noteq> 0"
    using two_objects_alloc by blast
  have "\<not> cap_sub KAP_WRITE (he_caps e)" by (simp add: a(5) cap_sub_def KAP_READ_def KAP_WRITE_def)
  then show ?thesis
    using handle_dup_attenuates[OF a(2) room_mono[OF a(3)] a(4,6), of KAP_WRITE] a(1) by auto
qed

end
