(* ===== verification/Kcontainer.thy ===== *)
theory Kcontainer
  imports Handle_Table
begin

text \<open>
  Containers of the kernel object model, \<open>src/archs/kom/common/kcontainer.cpp\<close>: a list of named
  references to objects. Names are C strings and are compared with \<open>strcmp\<close>, which is equality of
  the strings. \<open>mem\<close> says whether \<open>kmalloc\<close> of a binding succeeds. The operations hold the
  reader-writer lock of the container and are atomic here.
\<close>

section \<open>Operations\<close>

text \<open>The bindings of the container an object pointer designates; a cast of another object is undefined.\<close>

definition bindings :: "kom \<Rightarrow> oid \<Rightarrow> (string \<times> oid) list option" where
  "bindings s c =
     (case get_obj s c of
        Some obj \<Rightarrow> (case odata obj of KContainer bs \<Rightarrow> Some bs | _ \<Rightarrow> None)
      | None \<Rightarrow> None)"

definition set_bindings :: "kom \<Rightarrow> oid \<Rightarrow> (string \<times> oid) list \<Rightarrow> kom option" where
  "set_bindings s c bs = do { obj \<leftarrow> get_obj s c; Some (put_obj s c (obj\<lparr>odata := KContainer bs\<rparr>)) }"

definition kcontainer_new :: "kom \<Rightarrow> kom \<times> oid" where
  "kcontainer_new s = kobject_new s CONTAINER (KContainer [])"

definition kcontainer_bind :: "bool \<Rightarrow> kom \<Rightarrow> oid \<Rightarrow> string option \<Rightarrow> oid \<Rightarrow> (kom \<times> kom_error) option" where
  "kcontainer_bind mem s c name obj =
     (case name of
        None \<Rightarrow> Some (s, KOM_ERR_INVALID_TYPE)
      | Some n \<Rightarrow>
          if obj = 0 then Some (s, KOM_ERR_INVALID_TYPE)
          else if length n \<ge> 64 then Some (s, KOM_ERR_NO_MEMORY)
          else do {
            bs \<leftarrow> bindings s c;
            if n \<in> fst ` set bs then Some (s, KOM_ERR_COLLISION)
            else if \<not> mem then Some (s, KOM_ERR_NO_MEMORY)
            else do {
              s1 \<leftarrow> kobject_ref s obj;
              s2 \<leftarrow> set_bindings s1 c ((n, obj) # bs);
              Some (s2, KOM_OK) } })"

text \<open>The list without the first binding of a name, and the object of that binding.\<close>

fun remove_binding :: "string \<Rightarrow> (string \<times> oid) list \<Rightarrow> (oid \<times> (string \<times> oid) list) option" where
  "remove_binding n [] = None"
| "remove_binding n ((m, p) # bs) =
     (if m = n then Some (p, bs) else map_option (\<lambda>(q, cs). (q, (m, p) # cs)) (remove_binding n bs))"

definition kcontainer_unbind :: "kom \<Rightarrow> oid \<Rightarrow> string option \<Rightarrow> (kom \<times> kom_error) option" where
  "kcontainer_unbind s c name =
     (case name of
        None \<Rightarrow> Some (s, KOM_ERR_INVALID_TYPE)
      | Some n \<Rightarrow> do {
          bs \<leftarrow> bindings s c;
          case remove_binding n bs of
            None \<Rightarrow> Some (s, KOM_ERR_NOT_FOUND)
          | Some (target, bs1) \<Rightarrow> do {
              s1 \<leftarrow> set_bindings s c bs1;
              s2 \<leftarrow> kobject_unref s1 target;
              Some (s2, KOM_OK) } })"

definition kcontainer_lookup :: "kom \<Rightarrow> oid \<Rightarrow> string option \<Rightarrow> (kom \<times> oid) option" where
  "kcontainer_lookup s c name =
     (case name of
        None \<Rightarrow> Some (s, 0)
      | Some n \<Rightarrow> do {
          bs \<leftarrow> bindings s c;
          case map_of bs n of
            None \<Rightarrow> Some (s, 0)
          | Some target \<Rightarrow> do { s1 \<leftarrow> kobject_ref s target; Some (s1, target) } })"

definition kcontainer_enumerate :: "kom \<Rightarrow> oid \<Rightarrow> nat \<Rightarrow> (string \<times> kobject_type) option option" where
  "kcontainer_enumerate s c index =
     do { bs \<leftarrow> bindings s c;
          if index < length bs
          then (let (n, p) = bs ! index
                in if p = 0 then Some (Some (take 63 n, PROCESS))
                   else do { obj \<leftarrow> get_obj s p; Some (Some (take 63 n, otype obj)) })
          else Some None }"

definition kcontainer_create_child ::
  "bool \<Rightarrow> kom \<Rightarrow> oid \<Rightarrow> string option \<Rightarrow> kobject_type \<Rightarrow> (kom \<times> kom_error) option" where
  "kcontainer_create_child mem s c name type =
     (if type = CONTAINER
      then do { let (s1, new_c) = kcontainer_new s;
                (s2, res) \<leftarrow> kcontainer_bind mem s1 c name new_c;
                s3 \<leftarrow> kobject_unref s2 new_c;
                Some (s3, res) }
      else Some (s, KOM_ERR_UNSUPPORTED))"

section \<open>Lemmas\<close>

lemma bindings_Some:
  "bindings s c = Some bs \<longleftrightarrow> (\<exists>obj. get_obj s c = Some obj \<and> odata obj = KContainer bs)"
  by (auto simp: bindings_def split: option.splits kdata.splits)

lemma container_bindings:
  assumes "kom_inv w ext s" and "0 < rc s c" and "get_obj s c = Some obj" and "otype obj = CONTAINER"
  shows "\<exists>bs. bindings s c = Some bs \<and> distinct (map fst bs) \<and> 0 \<notin> snd ` set bs"
  using live_typed[OF assms(1,2)] assms(3,4) by (cases "odata obj") (auto simp: bindings_def)

lemma remove_binding_None: "remove_binding n bs = None \<longleftrightarrow> map_of bs n = None"
  by (induction n bs rule: remove_binding.induct) auto

lemma remove_binding_Some:
  "remove_binding n bs = Some (p, cs) \<Longrightarrow> distinct (map fst bs) \<Longrightarrow>
   map_of bs n = Some p \<and> distinct (map fst cs) \<and> map_of cs = (map_of bs)(n := None)
     \<and> set cs \<subseteq> set bs \<and> (\<forall>q. count_list (map snd bs) q = count_list (map snd cs) q + (if q = p then 1 else 0))"
proof (induction n bs arbitrary: cs rule: remove_binding.induct)
  case (2 n m p' bs)
  show ?case
  proof (cases "m = n")
    case True
    then have "map_of bs n = None" using 2(3) by (auto simp: map_of_eq_None_iff)
    then show ?thesis using True 2 by (auto simp: fun_upd_idem)
  next
    case False
    then obtain ds where "remove_binding n bs = Some (p, ds)" "cs = (m, p') # ds" using 2 by auto
    then show ?thesis using 2(1)[OF False, of ds] 2(3) False by (auto simp: fun_upd_twist)
  qed
qed simp

text \<open>Replacing the bindings of a live container moves references between it and the outside.\<close>

lemma set_bindings_ok:
  assumes inv: "kom_inv w ext s" and b: "bindings s c = Some bs" and "0 < rc s c"
    and "distinct (map fst bs1)" "0 \<notin> snd ` set bs1"
    and cnt: "\<And>p. p \<noteq> 0 \<Longrightarrow> count_list (map snd bs1) p + ext1 p = count_list (map snd bs) p + ext p"
  shows "\<exists>s1. set_bindings s c bs1 = Some s1 \<and> kom_inv w ext1 s1 \<and> kframe 0 s s1 \<and> ht s1 = ht s
    \<and> bindings s1 c = Some bs1 \<and> rc s1 = rc s"
proof -
  obtain obj where obj: "get_obj s c = Some obj" "odata obj = KContainer bs" using b bindings_Some by blast
  let ?obj = "obj\<lparr>odata := KContainer bs1\<rparr>"
  let ?s = "put_obj s c ?obj"
  have r: "ref_count obj \<noteq> 0" using assms(3) obj(1) by (auto simp: rc_def)
  have rc: "rc ?s = rc s" using obj(1) by (simp add: fun_eq_iff rc_def get_put_obj)
  have h: "obj_sum (\<lambda>ob. holds ob p) ?s + count_list (map snd bs) p
      = obj_sum (\<lambda>ob. holds ob p) s + count_list (map snd bs1) p" for p
    using obj_sum_put[OF obj(1), of "\<lambda>ob. holds ob p" ?obj] obj(2) by (simp add: holds_def)
  have e: "obj_sum (\<lambda>ob. is_end ob d) ?s = obj_sum (\<lambda>ob. is_end ob d) s" for d
    using obj by (simp add: obj_sum_same is_end_def)
  have "ref_inv ?s w ext1"
    unfolding ref_inv_def rc
  proof (intro allI impI)
    fix p :: oid
    assume "p \<noteq> 0"
    then show "rc s p = obj_sum (\<lambda>ob. holds ob p) ?s + ht_refs (ht ?s) p + ext1 p + count_list w (Unref p)"
      using inv h[of p] cnt[of p] by (simp add: kom_inv_def ref_inv_def)
  qed
  moreover have "chan_inv ?s" using inv unfolding kom_inv_def chan_inv_def e by simp
  moreover have "obj_inv ?s"
  proof -
    have "typed (otype obj) (KContainer bs)" using live_typed[OF inv assms(3)] obj by auto
    then show ?thesis using inv obj r assms(4,5) unfolding kom_inv_def obj_inv_def by (auto simp: get_put_obj)
  qed
  moreover have "free_inv ?s w" using inv obj(1) unfolding kom_inv_def free_inv_def by (simp add: get_put_obj)
  ultimately have "kom_inv w ext1 ?s" using inv by (simp add: kom_inv_def)
  moreover have "kframe 0 s ?s" using rc kom_le_put[OF obj(1), of ?obj] by (simp add: kframe_def)
  ultimately show ?thesis using obj(1) rc
    by (auto simp: set_bindings_def bindings_def get_put_obj)
qed

text \<open>The references an operation returns to its caller: null returns none.\<close>

definition got :: "(oid \<Rightarrow> nat) \<Rightarrow> oid \<Rightarrow> oid \<Rightarrow> nat" where
  "got ext p = (if p = 0 then ext else ext(p := ext p + 1))"

lemma got_0 [simp]: "got ext 0 = ext"
  by (simp add: got_def)

lemma got_pos: "p \<noteq> 0 \<Longrightarrow> 0 < got ext p p"
  by (simp add: got_def)

lemma got_drop: "p \<noteq> 0 \<Longrightarrow> (got ext p)(p := got ext p p - 1) = ext"
  by (simp add: got_def)

lemma unref_got:
  assumes "handle_ok (got ext p) s" and "p \<noteq> 0"
  shows "\<exists>s'. kobject_unref s p = Some s' \<and> handle_ok ext s' \<and> kframe 0 s s' \<and> ht s' = ht s"
proof -
  have k: "kom_inv [] (got ext p) s" "ht_inv (ht s)" using assms(1) by (simp_all add: handle_ok_def)
  have "0 < got ext p p" using assms(2) by (rule got_pos)
  from kobject_unref_ok[OF k(1) this] show ?thesis
    unfolding got_drop[OF assms(2)] handle_ok_def using k(2) by metis
qed

lemma binding_live:
  assumes "kom_inv w ext s" and "bindings s c = Some bs" and "p \<in> snd ` set bs" and "p \<noteq> 0"
  shows "0 < rc s p"
proof -
  obtain obj where obj: "get_obj s c = Some obj" "odata obj = KContainer bs" using assms(2) bindings_Some by blast
  have "count_list (map snd bs) p \<noteq> 0" using assms(3) by (auto simp: count_list_0_iff)
  then have "holds (Some obj) p \<noteq> 0" using obj(2) by (simp add: holds_def)
  then have "0 < obj_sum (\<lambda>ob. holds ob p) s" using obj_sum_ge[OF obj(1), of "\<lambda>ob. holds ob p"] by linarith
  then show ?thesis using assms(1,4) by (simp add: kom_inv_def ref_inv_def)
qed

lemma bindings_ok:
  assumes "kom_inv w ext s" and "bindings s c = Some bs" and "0 < rc s c"
  shows "distinct (map fst bs) \<and> 0 \<notin> snd ` set bs"
proof -
  obtain obj where obj: "get_obj s c = Some obj" "odata obj = KContainer bs" using assms(2) bindings_Some by blast
  then show ?thesis using live_typed[OF assms(1,3)] by auto
qed

lemma kobject_ref_bindings: "kobject_ref s p = Some s1 \<Longrightarrow> bindings s1 c = bindings s c"
  by (auto simp: kobject_ref_def bindings_def get_put_obj split: bind_splits)

lemma kcontainer_lookup_ok:
  assumes ok: "handle_ok ext s" and "room 1 s" and b: "bindings s c = Some bs" and "0 < rc s c"
  shows "case map_of bs n of
      None \<Rightarrow> kcontainer_lookup s c (Some n) = Some (s, 0)
    | Some q \<Rightarrow> q \<noteq> 0 \<and> 0 < rc s q \<and> (\<exists>s'. kobject_ref s q = Some s' \<and> kcontainer_lookup s c (Some n) = Some (s', q)
        \<and> handle_ok (got ext q) s' \<and> kframe 1 s s')"
proof (cases "map_of bs n")
  case None
  then show ?thesis using ok b by (simp add: kcontainer_lookup_def)
next
  case (Some q)
  have inv: "kom_inv [] ext s" using ok by (simp add: handle_ok_def)
  have q: "q \<in> snd ` set bs" using map_of_SomeD[OF Some] by force
  then have q0: "q \<noteq> 0" using bindings_ok[OF inv b assms(4)] by metis
  have live: "0 < rc s q" using binding_live[OF inv b q q0] .
  then obtain s1 where "kobject_ref s q = Some s1" "kom_inv [] (ext(q := ext q + 1)) s1"
    "kframe 1 s s1" "ht s1 = ht s" using kobject_ref_ok[OF inv _ assms(2)] by blast
  then show ?thesis using Some b q0 live ok by (simp add: kcontainer_lookup_def handle_ok_def got_def)
qed

lemma kobject_ref_mono:
  "kom_inv w ext s \<Longrightarrow> 0 < rc s p \<Longrightarrow> room 1 s \<Longrightarrow> kobject_ref s p = Some s1 \<Longrightarrow> rc s1 q = rc s q + (if q = p then 1 else 0)"
proof -
  assume a: "0 < rc s p" "room 1 s" "kobject_ref s p = Some s1"
  then obtain obj where obj: "get_obj s p = Some obj" "s1 = put_obj s p (obj\<lparr>ref_count := ref_count obj + 1\<rparr>)"
    by (auto simp: kobject_ref_def split: bind_splits)
  have "rc s p + 1 < 2 ^ 32" using a(2) by (simp add: room_def)
  then have "unat (ref_count obj + 1) = unat (ref_count obj) + 1" using obj(1) by (intro unat_Suc_word) (simp add: rc_def)
  then show ?thesis using obj by (simp add: rc_put) (simp add: rc_def)
qed

text \<open>The bindings of a container that is still alive after a reference was dropped are unchanged.\<close>

lemma unref_bindings:
  assumes "kobject_unref s q = Some s'" and "kom_inv [] ext s'" and "0 < rc s' c" and "bindings s c = Some bs"
  shows "bindings s' c = Some bs"
proof -
  obtain obj' where o': "get_obj s' c = Some obj'" "typed (otype obj') (odata obj')"
    using live_typed[OF assms(2,3)] by blast
  have "data_le s s'" using assms(1) unfolding kobject_unref_def by (rule run_work_data)
  then show ?thesis using o' assms(4) by (fastforce simp: data_le_def bindings_def split: option.splits)
qed

lemma kcontainer_bind_ok:
  assumes ok: "handle_ok ext s" and "room 1 s" and b: "bindings s c = Some bs" and c: "0 < rc s c" and p: "0 < rc s p"
    and "length n < 64"
  shows "\<exists>s'. kcontainer_bind mem s c (Some n) p
        = Some (s', if n \<in> fst ` set bs then KOM_ERR_COLLISION else if mem then KOM_OK else KOM_ERR_NO_MEMORY)
    \<and> handle_ok ext s' \<and> kframe 1 s s'
    \<and> bindings s' c = Some (if n \<notin> fst ` set bs \<and> mem then (n, p) # bs else bs)"
proof (cases "n \<in> fst ` set bs \<or> \<not> mem")
  case True
  then show ?thesis using ok b p assms(6) rc_nonnull[OF p] by (auto simp: kcontainer_bind_def)
next
  case False
  have inv: "kom_inv [] ext s" using ok by (simp add: handle_ok_def)
  have p0: "p \<noteq> 0" using rc_nonnull[OF p] .
  obtain s1 where s1: "kobject_ref s p = Some s1" "kom_inv [] (ext(p := ext p + 1)) s1" "kframe 1 s s1" "ht s1 = ht s"
    using kobject_ref_ok[OF inv p assms(2)] by blast
  have b1: "bindings s1 c = Some bs" using kobject_ref_bindings[OF s1(1)] b by simp
  have "rc s c \<le> rc s1 c" using kobject_ref_mono[OF inv p assms(2) s1(1), of c] by simp
  then have c1: "0 < rc s1 c" using c by simp
  have d: "distinct (map fst ((n, p) # bs))" "0 \<notin> snd ` set ((n, p) # bs)"
    using bindings_ok[OF inv b c] False p0 by (auto simp: image_iff)
  have "count_list (map snd ((n, p) # bs)) q + ext q = count_list (map snd bs) q + (ext(p := ext p + 1)) q" for q
    by simp
  from set_bindings_ok[OF s1(2) b1 c1 d this] obtain s2 where
    s2: "set_bindings s1 c ((n, p) # bs) = Some s2" "kom_inv [] ext s2" "kframe 0 s1 s2" "ht s2 = ht s1"
      "bindings s2 c = Some ((n, p) # bs)" by blast
  have "kframe 1 s s2" using kframe_trans[OF s1(3) s2(3)] by simp
  then show ?thesis using False b p0 assms(6) s1(1,4) s2 ok
    by (simp add: kcontainer_bind_def handle_ok_def)
qed

lemma kcontainer_unbind_ok:
  assumes ok: "handle_ok ext s" and b: "bindings s c = Some bs" and c: "0 < ext c" "c \<noteq> 0"
  shows "\<exists>s'. kcontainer_unbind s c (Some n)
        = Some (s', if n \<in> fst ` set bs then KOM_OK else KOM_ERR_NOT_FOUND)
    \<and> handle_ok ext s' \<and> kframe 0 s s'
    \<and> (\<exists>bs'. bindings s' c = Some bs' \<and> map_of bs' = (map_of bs)(n := None))"
proof (cases "map_of bs n")
  case None
  then have "n \<notin> fst ` set bs" by (simp add: map_of_eq_None_iff)
  then show ?thesis using None ok b remove_binding_None[of n bs]
    by (auto simp: kcontainer_unbind_def fun_upd_idem)
next
  case (Some q)
  have inv: "kom_inv [] ext s" using ok by (simp add: handle_ok_def)
  have live: "0 < rc s c" using ext_live[OF inv c] .
  have bo: "distinct (map fst bs)" "0 \<notin> snd ` set bs" using bindings_ok[OF inv b live] by simp_all
  obtain bs1 where r: "remove_binding n bs = Some (q, bs1)"
    using Some bo(1) remove_binding_None[of n bs] remove_binding_Some[of n bs]
    by (cases "remove_binding n bs") auto
  have r1: "distinct (map fst bs1)" "map_of bs1 = (map_of bs)(n := None)" "set bs1 \<subseteq> set bs"
    "\<And>p. count_list (map snd bs) p = count_list (map snd bs1) p + (if p = q then 1 else 0)"
    using remove_binding_Some[OF r bo(1)] by simp_all
  have z: "0 \<notin> snd ` set bs1" using r1(3) bo(2) by auto
  have "count_list (map snd bs1) p + (ext(q := ext q + 1)) p = count_list (map snd bs) p + ext p" for p
    using r1(4)[of p] by simp
  from set_bindings_ok[OF inv b live r1(1) z this] obtain s1 where
    s1: "set_bindings s c bs1 = Some s1" "kom_inv [] (ext(q := ext q + 1)) s1" "kframe 0 s s1" "ht s1 = ht s"
      "bindings s1 c = Some bs1" by blast
  from kobject_unref_ok[OF s1(2), of q] obtain s2 where
    s2: "kobject_unref s1 q = Some s2" "kom_inv [] ext s2" "kframe 0 s1 s2" "ht s2 = ht s1" by auto
  have "bindings s2 c = Some bs1"
    using unref_bindings[OF s2(1,2) ext_live[OF s2(2) c] s1(5)] .
  moreover have "n \<in> fst ` set bs" using Some by (metis domI dom_map_of_conv_image_fst)
  ultimately show ?thesis using b r r1(2) s1 s2 ok kframe_trans[OF s1(3) s2(3)]
    by (auto simp: kcontainer_unbind_def handle_ok_def)
qed

lemma kcontainer_new_ok:
  assumes ok: "handle_ok ext s"
  shows "\<exists>s' p. kcontainer_new s = (s', p) \<and> handle_ok (got ext p) s' \<and> kframe 1 s s' \<and> p \<noteq> 0
    \<and> bindings s' p = Some [] \<and> (\<forall>c bs. bindings s c = Some bs \<longrightarrow> bindings s' c = Some bs)
    \<and> (\<forall>q. rc s q \<le> rc s' q)"
proof -
  have inv: "kom_inv [] ext s" using ok by (simp add: handle_ok_def)
  obtain s' p where n: "kobject_new s CONTAINER (KContainer []) = (s', p)" "kom_inv [] (ext(p := 1)) s'"
    "kframe 1 s s'" "ht s' = ht s" "ext p = 0"
    "get_obj s' p = Some \<lparr>otype = CONTAINER, ref_count = 1, odata = KContainer []\<rparr>"
    and keep: "\<And>q obj. get_obj s q = Some obj \<Longrightarrow> get_obj s' q = Some obj"
    using kobject_new_ok[OF inv, of CONTAINER "KContainer []"] by (auto simp: holds_def is_end_def)
  have "p \<noteq> 0" using get_obj_valid[OF n(6)] by simp
  moreover have "rc s q \<le> rc s' q" for q
    using keep[of q] by (cases "get_obj s q") (simp_all add: rc_def)
  ultimately show ?thesis using n ok keep
    by (auto simp: kcontainer_new_def handle_ok_def got_def bindings_Some)
qed

lemma kcontainer_create_child_ok:
  assumes ok: "handle_ok ext s" and "room 2 s" and b: "bindings s c = Some bs" and c: "0 < rc s c" and "length n < 64"
  shows "\<exists>s' e. kcontainer_create_child mem s c (Some n) ty = Some (s', e) \<and> handle_ok ext s' \<and> kframe 2 s s'"
proof (cases "ty = CONTAINER")
  case True
  obtain s1 p where s1: "kcontainer_new s = (s1, p)" "handle_ok (got ext p) s1" "kframe 1 s s1" "p \<noteq> 0"
    "bindings s1 c = Some bs" "rc s c \<le> rc s1 c"
    using kcontainer_new_ok[OF ok] b by blast
  have "room 1 s1" using assms(2) s1(3) by (rule room_step) simp
  moreover have "0 < rc s1 c" using c s1(6) by simp
  moreover have "0 < rc s1 p" using s1(2,4) ext_live[of "[]" "got ext p" s1 p] got_pos by (simp add: handle_ok_def)
  ultimately obtain s2 e where s2: "kcontainer_bind mem s1 c (Some n) p = Some (s2, e)" "handle_ok (got ext p) s2"
    "kframe 1 s1 s2" using kcontainer_bind_ok[OF s1(2) _ s1(5) _ _ assms(5)] by blast
  obtain s3 where s3: "kobject_unref s2 p = Some s3" "handle_ok ext s3" "kframe 0 s2 s3"
    using unref_got[OF s2(2) s1(4)] by blast
  have "kframe 2 s s3" using kframe_trans[OF kframe_trans[OF s1(3) s2(3)] s3(3)] by (simp add: numeral_2_eq_2)
  then show ?thesis using True s1(1) s2(1) s3 by (simp add: kcontainer_create_child_def)
qed (use ok in \<open>simp add: kcontainer_create_child_def\<close>)

section \<open>Properties\<close>

text \<open>
  \<^bold>\<open>C26.\<close> A container is a finite map from names to objects. \<open>bind\<close> of a new name succeeds exactly
  when the name is free and memory is available, and otherwise reports the collision or the
  lack of memory; after it \<open>lookup\<close> returns the object, with a reference of its own, and \<open>unbind\<close>
  restores the map. References and the handle table stay consistent throughout.
\<close>

theorem container_bind_lookup_unbind:
  assumes "handle_ok ext s" and "room 2 s" and "bindings s c = Some bs" and "0 < ext c" and "c \<noteq> 0"
    and "0 < rc s p" and "length n < 64"
  shows "\<exists>s1 e. kcontainer_bind mem s c (Some n) p = Some (s1, e) \<and> handle_ok ext s1
    \<and> e = (if n \<in> fst ` set bs then KOM_ERR_COLLISION else if mem then KOM_OK else KOM_ERR_NO_MEMORY)
    \<and> (e = KOM_OK \<longrightarrow>
        (\<exists>s2. kcontainer_lookup s1 c (Some n) = Some (s2, p) \<and> handle_ok (got ext p) s2) \<and>
        (\<exists>s3 bs3. kcontainer_unbind s1 c (Some n) = Some (s3, KOM_OK) \<and> handle_ok ext s3
           \<and> bindings s3 c = Some bs3 \<and> map_of bs3 = map_of bs))"
proof -
  have inv: "kom_inv [] ext s" using assms(1) by (simp add: handle_ok_def)
  have c: "0 < rc s c" using ext_live[OF inv assms(4,5)] .
  have r: "room 1 s" using assms(2) by (rule room_mono) simp
  from kcontainer_bind_ok[OF assms(1) r assms(3) c assms(6,7), of mem] obtain s1 where
    s1: "kcontainer_bind mem s c (Some n) p
        = Some (s1, if n \<in> fst ` set bs then KOM_ERR_COLLISION else if mem then KOM_OK else KOM_ERR_NO_MEMORY)"
      "handle_ok ext s1" "kframe 1 s s1"
      "bindings s1 c = Some (if n \<notin> fst ` set bs \<and> mem then (n, p) # bs else bs)" by blast
  show ?thesis
  proof (cases "n \<notin> fst ` set bs \<and> mem")
    case True
    have b1: "bindings s1 c = Some ((n, p) # bs)" using s1(4) True by simp
    have inv1: "kom_inv [] ext s1" using s1(2) by (simp add: handle_ok_def)
    have r1: "room 1 s1" using assms(2) s1(3) by (rule room_step) simp
    obtain s2 where "kcontainer_lookup s1 c (Some n) = Some (s2, p)" "handle_ok (got ext p) s2"
      using kcontainer_lookup_ok[OF s1(2) r1 b1 ext_live[OF inv1 assms(4,5)], of n] by auto
    moreover obtain s3 bs3 where "kcontainer_unbind s1 c (Some n) = Some (s3, KOM_OK)" "handle_ok ext s3"
      "bindings s3 c = Some bs3" "map_of bs3 = (map_of ((n, p) # bs))(n := None)"
      using kcontainer_unbind_ok[OF s1(2) b1 assms(4,5), of n] by auto
    moreover have "map_of bs n = None" using True by (simp add: map_of_eq_None_iff)
    ultimately show ?thesis using s1 True by (auto simp: fun_upd_idem)
  qed (use s1 in auto)
qed

theorem container_bind_lookup_unbind_witness:
  "\<exists>s1 s2. kcontainer_bind True two_objects_ht 1 (Some ''b'') 2 = Some (s1, KOM_OK)
     \<and> kcontainer_lookup s1 1 (Some ''b'') = Some (s2, 2)"
proof -
  have "bindings two_objects_ht 1 = Some [(''a'', 2)]"
    by (simp add: bindings_def two_objects_ht_def two_objects_def get_obj_def)
  from container_bind_lookup_unbind[OF two_objects_ht_ok(1,2) this, of 2 "''b''" True]
  show ?thesis using two_objects_ht_rc by auto
qed

end
