(* ===== verification/Ons.thy ===== *)
theory Ons
  imports Kcontainer
begin

text \<open>
  The object namespace, \<open>src/archs/kom/common/ons.cpp\<close>: absolute paths, with drive letters and
  backslashes converted, resolved component by component through containers. Paths are C strings
  without their terminator; the 256-byte buffers of the source cut them to 255 characters.
\<close>

section \<open>Path conversion\<close>

abbreviation SLASH :: char where "SLASH \<equiv> CHR ''/''"
abbreviation BACKSLASH :: char where "BACKSLASH \<equiv> CHR 0x5C"

definition is_drive :: "char \<Rightarrow> bool" where
  "is_drive c \<longleftrightarrow> (let n = of_char c :: nat in 65 \<le> n \<and> n \<le> 90 \<or> 97 \<le> n \<and> n \<le> 122)"

definition drive_upper :: "char \<Rightarrow> char" where
  "drive_upper c = (let n = of_char c :: nat in if 97 \<le> n \<and> n \<le> 122 then char_of (n - 32) else c)"

text \<open>\<open>for (...) if (out[i] == '/' && out[i+1] == '/') continue; ...\<close>\<close>

fun collapse :: "string \<Rightarrow> string" where
  "collapse [] = []"
| "collapse (c # cs) =
     (if c = SLASH \<and> cs \<noteq> [] \<and> hd cs = SLASH then collapse cs else c # collapse cs)"

text \<open>The part after the drive: one separator after the colon is dropped.\<close>

definition drive_rest :: "string \<Rightarrow> string" where
  "drive_rest r = (case r of [] \<Rightarrow> [] | c # cs \<Rightarrow> if c = BACKSLASH \<or> c = SLASH then cs else r)"

definition convert_nt_path :: "string \<Rightarrow> string" where
  "convert_nt_path path =
     (let out =
        (if length path \<ge> 2 \<and> is_drive (path ! 0) \<and> path ! 1 = CHR '':''
         then let drive = drive_upper (path ! 0);
                  base = (if drive = CHR ''C'' then ''/'' else ''/volumes/'' @ [drive] @ ''/'')
              in base @ take (255 - length base) (drive_rest (drop 2 path))
         else take 255 path);
        temp = collapse (map (\<lambda>c. if c = BACKSLASH then SLASH else c) out)
      in if temp = [] then ''/'' else temp)"

section \<open>Resolution\<close>

text \<open>The loop of \<open>ons_resolve\<close> from the container \<open>current\<close>, of which a reference is held.\<close>

function ons_walk :: "kom \<Rightarrow> oid \<Rightarrow> string \<Rightarrow> (kom \<times> oid) option" where
  "ons_walk s current token =
     (if token = [] then Some (s, current)
      else let has_slash = (SLASH \<in> set token);
               name = takeWhile (\<lambda>c. c \<noteq> SLASH) token;
               rest = drop (Suc (length name)) token
           in if name = [] then ons_walk s current rest
              else do {
                (s1, next_obj) \<leftarrow> kcontainer_lookup s current (Some name);
                s2 \<leftarrow> kobject_unref s1 current;
                if next_obj = 0 then Some (s2, 0)
                else if has_slash
                then do {
                  obj \<leftarrow> get_obj s2 next_obj;
                  if otype obj \<noteq> CONTAINER
                  then do { s3 \<leftarrow> kobject_unref s2 next_obj; Some (s3, 0) }
                  else ons_walk s2 next_obj rest }
                else Some (s2, next_obj) })"
  by pat_completeness auto

termination
  by (relation "measure (\<lambda>(s, current, token). length token)") auto

declare ons_walk.simps [simp del]

definition ons_resolve :: "kom \<Rightarrow> string option \<Rightarrow> (kom \<times> oid) option" where
  "ons_resolve s path =
     (case path of
        None \<Rightarrow> Some (s, 0)
      | Some pth \<Rightarrow>
          let path_buf = convert_nt_path pth
          in if path_buf = [] \<or> hd path_buf \<noteq> SLASH then Some (s, 0)
             else do { s1 \<leftarrow> kobject_ref s (ons_root s);
                       if tl path_buf = [] then Some (s1, ons_root s)
                       else ons_walk s1 (ons_root s) (tl path_buf) })"

text \<open>The position of the last slash: the path before it and the name after it.\<close>

definition split_last :: "string \<Rightarrow> string \<times> string" where
  "split_last p =
     (let name = rev (takeWhile (\<lambda>c. c \<noteq> SLASH) (rev p))
      in (take (length p - length name - 1) p, name))"

fun strip_slashes :: "string \<Rightarrow> string" where
  "strip_slashes p =
     (if length p > 1 \<and> last p = SLASH then strip_slashes (butlast p) else p)"

declare strip_slashes.simps [simp del]

definition ons_resolve_parent :: "kom \<Rightarrow> string option \<Rightarrow> (kom \<times> oid \<times> string) option" where
  "ons_resolve_parent s path =
     (case path of
        None \<Rightarrow> Some (s, 0, [])
      | Some pth \<Rightarrow>
          let parent = strip_slashes (convert_nt_path pth)
          in if SLASH \<in> set parent
             then let (dir, name) = split_last parent
                  in do { (s1, p) \<leftarrow> ons_resolve s (Some (if dir = [] then ''/'' else dir));
                          Some (s1, p, take 127 name) }
             else do { (s1, p) \<leftarrow> ons_resolve s (Some ''/''); Some (s1, p, take 127 pth) })"

datatype ons_error =
    ONS_OK
  | ONS_ERR_INVALID_ARG
  | ONS_ERR_NOT_FOUND
  | ONS_ERR_NOT_CONTAINER
  | ONS_ERR_COLLISION
  | ONS_ERR_NO_MEMORY

text \<open>
  The common start of \<open>ons_bind\<close> and \<open>ons_unbind\<close>: the container that holds the last component
  and that component. \<open>Inl\<close> is an error return.
\<close>

definition ons_parent_of :: "kom \<Rightarrow> string \<Rightarrow> (kom \<times> (ons_error + oid \<times> string)) option" where
  "ons_parent_of s pth =
     (let path_buf = convert_nt_path pth
      in if path_buf = [] \<or> hd path_buf \<noteq> SLASH then Some (s, Inl ONS_ERR_INVALID_ARG)
         else let (dir, name) = split_last path_buf
              in if name = [] then Some (s, Inl ONS_ERR_INVALID_ARG)
                 else if dir \<noteq> []
                 then do {
                   (s1, parent) \<leftarrow> ons_resolve s (Some dir);
                   if parent = 0 then Some (s1, Inl ONS_ERR_NOT_FOUND)
                   else do {
                     obj \<leftarrow> get_obj s1 parent;
                     if otype obj \<noteq> CONTAINER
                     then do { s2 \<leftarrow> kobject_unref s1 parent; Some (s2, Inl ONS_ERR_NOT_CONTAINER) }
                     else Some (s1, Inr (parent, name)) } }
                 else do { s1 \<leftarrow> kobject_ref s (ons_root s); Some (s1, Inr (ons_root s, name)) })"

definition ons_bind :: "bool \<Rightarrow> kom \<Rightarrow> string option \<Rightarrow> oid \<Rightarrow> (kom \<times> ons_error) option" where
  "ons_bind mem s path obj =
     (case path of
        None \<Rightarrow> Some (s, ONS_ERR_INVALID_ARG)
      | Some pth \<Rightarrow>
          if obj = 0 then Some (s, ONS_ERR_INVALID_ARG)
          else do {
            (s1, r) \<leftarrow> ons_parent_of s pth;
            case r of
              Inl e \<Rightarrow> Some (s1, e)
            | Inr (parent, name) \<Rightarrow> do {
                (s2, res) \<leftarrow> kcontainer_bind mem s1 parent (Some name) obj;
                s3 \<leftarrow> kobject_unref s2 parent;
                Some (s3, if res = KOM_OK then ONS_OK else ONS_ERR_COLLISION) } })"

definition ons_unbind :: "kom \<Rightarrow> string option \<Rightarrow> (kom \<times> ons_error) option" where
  "ons_unbind s path =
     (case path of
        None \<Rightarrow> Some (s, ONS_ERR_INVALID_ARG)
      | Some pth \<Rightarrow> do {
          (s1, r) \<leftarrow> ons_parent_of s pth;
          case r of
            Inl e \<Rightarrow> Some (s1, e)
          | Inr (parent, name) \<Rightarrow> do {
              (s2, res) \<leftarrow> kcontainer_unbind s1 parent (Some name);
              s3 \<leftarrow> kobject_unref s2 parent;
              Some (s3, if res = KOM_OK then ONS_OK else ONS_ERR_NOT_FOUND) } })"

definition ons_enumerate :: "kom \<Rightarrow> string option \<Rightarrow> nat \<Rightarrow> (kom \<times> (string \<times> kobject_type) option) option" where
  "ons_enumerate s path index =
     do { (s1, target) \<leftarrow> ons_resolve s path;
          if target = 0 then Some (s1, None)
          else do {
            obj \<leftarrow> get_obj s1 target;
            if otype obj \<noteq> CONTAINER
            then do { s2 \<leftarrow> kobject_unref s1 target; Some (s2, None) }
            else do {
              r \<leftarrow> kcontainer_enumerate s1 target index;
              s2 \<leftarrow> kobject_unref s1 target;
              Some (s2, r) } } }"

text \<open>\<open>ons_init\<close>: the root and its five containers. The results of \<open>bind\<close> are not looked at.\<close>

fun ons_new_containers :: "nat \<Rightarrow> kom \<Rightarrow> kom \<times> oid list" where
  "ons_new_containers 0 s = (s, [])"
| "ons_new_containers (Suc n) s =
     (let (s1, c) = kcontainer_new s; (s2, cs) = ons_new_containers n s1 in (s2, c # cs))"

fun ons_bind_all :: "kom \<Rightarrow> oid \<Rightarrow> (string \<times> oid) list \<Rightarrow> kom option" where
  "ons_bind_all s r [] = Some s"
| "ons_bind_all s r ((n, c) # ncs) =
     do { (s1, _) \<leftarrow> kcontainer_bind True s r (Some n) c; ons_bind_all s1 r ncs }"

fun ons_unref_all :: "kom \<Rightarrow> oid list \<Rightarrow> kom option" where
  "ons_unref_all s [] = Some s"
| "ons_unref_all s (c # cs) = do { s1 \<leftarrow> kobject_unref s c; ons_unref_all s1 cs }"

definition ons_init :: "kom \<Rightarrow> kom option" where
  "ons_init s =
     (let (s0, r) = kcontainer_new s;
          (s1, cs) = ons_new_containers 5 (s0\<lparr>ons_root := r\<rparr>)
      in do { s2 \<leftarrow> ons_bind_all s1 r
                (zip [''devices'', ''volumes'', ''system'', ''ramdisk'', ''ipc''] cs);
              ons_unref_all s2 cs })"

section \<open>Specification of resolution\<close>

text \<open>The non-empty components of a path, and following them through the containers.\<close>

fun split_path :: "string \<Rightarrow> string list" where
  "split_path [] = [[]]"
| "split_path (c # cs) =
     (if c = SLASH then [] # split_path cs
      else case split_path cs of [] \<Rightarrow> [[c]] | x # xs \<Rightarrow> (c # x) # xs)"

definition components :: "string \<Rightarrow> string list" where
  "components p = filter (\<lambda>n. n \<noteq> []) (split_path p)"

definition trailing :: "string \<Rightarrow> bool" where
  "trailing p \<longleftrightarrow> p \<noteq> [] \<and> last p = SLASH"

definition is_container :: "kom \<Rightarrow> oid \<Rightarrow> bool" where
  "is_container s p \<longleftrightarrow> (case get_obj s p of None \<Rightarrow> False | Some obj \<Rightarrow> otype obj = CONTAINER)"

fun path_find :: "kom \<Rightarrow> oid \<Rightarrow> string list \<Rightarrow> bool \<Rightarrow> oid option" where
  "path_find s cur [] dir = Some cur"
| "path_find s cur (n # ns) dir =
     (case bindings s cur of
        None \<Rightarrow> None
      | Some bs \<Rightarrow>
          (case map_of bs n of
             None \<Rightarrow> None
           | Some q \<Rightarrow> if ns = [] \<and> \<not> dir then Some q
                       else if is_container s q then path_find s q ns dir else None))"

lemma split_path_not_Nil [simp]: "split_path p \<noteq> []"
  by (induction p) (auto split: list.splits)

lemma split_path_unfold:
  "split_path p = takeWhile (\<lambda>c. c \<noteq> SLASH) p #
     (if SLASH \<in> set p then split_path (drop (Suc (length (takeWhile (\<lambda>c. c \<noteq> SLASH) p))) p) else [])"
  by (induction p) (auto split: list.splits)

lemma components_unfold:
  "components p =
     (let name = takeWhile (\<lambda>c. c \<noteq> SLASH) p;
          more = (if SLASH \<in> set p then components (drop (Suc (length name)) p) else [])
      in if name = [] then more else name # more)"
  unfolding components_def by (subst split_path_unfold) (auto simp: Let_def)

lemma slash_split:
  "SLASH \<in> set p \<Longrightarrow>
   p = takeWhile (\<lambda>c. c \<noteq> SLASH) p @ SLASH # drop (Suc (length (takeWhile (\<lambda>c. c \<noteq> SLASH) p))) p"
  by (induction p) auto

lemma trailing_rest:
  assumes "SLASH \<in> set p"
  defines "r \<equiv> drop (Suc (length (takeWhile (\<lambda>c. c \<noteq> SLASH) p))) p"
  shows "trailing p \<longleftrightarrow> r = [] \<or> trailing r"
proof -
  have "trailing (xs @ SLASH # r) \<longleftrightarrow> r = [] \<or> trailing r" for xs by (simp add: trailing_def)
  then show ?thesis using slash_split[OF assms(1)] unfolding r_def by metis
qed

lemma trailing_no_slash: "SLASH \<notin> set p \<Longrightarrow> \<not> trailing p"
  unfolding trailing_def by (metis last_in_set)

lemma components_empty [simp]: "components [] = []"
  by (simp add: components_def)

lemma components_Nil: "components r = [] \<Longrightarrow> r = [] \<or> trailing r"
  by (induction r) (auto simp: components_def trailing_def split: if_splits list.splits)

section \<open>Taking and dropping a reference\<close>

lemma put_obj_same: "get_obj s p = Some obj \<Longrightarrow> put_obj s p obj = s"
  using get_obj_valid[of s p obj] by (simp add: put_obj_def list_update_same_conv)

lemma put_obj_twice [simp]: "put_obj (put_obj s p a) p b = put_obj s p b"
  by (simp add: put_obj_def)

lemma put_obj_swap: "p \<noteq> q \<Longrightarrow> put_obj (put_obj s p a) q b = put_obj (put_obj s q b) p a"
  by (simp add: put_obj_def list_update_swap)

lemma unref_put:
  assumes "get_obj s p = Some obj" and "unat (ref_count obj) = Suc (Suc n)"
  shows "kobject_unref s p = Some (put_obj s p (obj\<lparr>ref_count := ref_count obj - 1\<rparr>))"
proof -
  have "ref_count obj \<noteq> 0" "ref_count obj \<noteq> 1" using assms(2) by auto
  then show ?thesis using assms(1) get_obj_valid[OF assms(1)] by (simp add: kobject_unref_def Let_def)
qed

lemma kobject_ref_SomeE:
  assumes "kobject_ref s p = Some s1"
  obtains obj where "get_obj s p = Some obj" "s1 = put_obj s p (obj\<lparr>ref_count := ref_count obj + 1\<rparr>)"
  using assms by (auto simp: kobject_ref_def split: bind_splits)

lemma kobject_ref_keeps:
  assumes "kobject_ref s p = Some s1" and "get_obj s q = Some obj"
  shows "\<exists>obj'. get_obj s1 q = Some obj' \<and> otype obj' = otype obj \<and> odata obj' = odata obj"
proof -
  obtain b where b: "get_obj s p = Some b" "s1 = put_obj s p (b\<lparr>ref_count := ref_count b + 1\<rparr>)"
    using kobject_ref_SomeE[OF assms(1)] .
  then show ?thesis using assms(2) by (cases "q = p") (simp_all add: get_put_obj)
qed

lemma unref_after_ref:
  assumes "kobject_ref s p = Some s1" and "0 < rc s p" and "room 1 s"
  shows "kobject_unref s1 p = Some s"
proof -
  obtain obj where obj: "get_obj s p = Some obj" "s1 = put_obj s p (obj\<lparr>ref_count := ref_count obj + 1\<rparr>)"
    using kobject_ref_SomeE[OF assms(1)] .
  have "rc s p + 1 < 2 ^ 32" using assms(3) by (simp add: room_def)
  then have "unat (ref_count obj + 1) = unat (ref_count obj) + 1" using obj(1) by (intro unat_Suc_word) (simp add: rc_def)
  moreover obtain n where "unat (ref_count obj) = Suc n" using assms(2) obj(1) by (cases "rc s p") (auto simp: rc_def)
  ultimately have "unat (ref_count obj + 1) = Suc (Suc n)" by simp
  then show ?thesis
    using unref_put[of s1 p "obj\<lparr>ref_count := ref_count obj + 1\<rparr>" n] obj by (simp add: get_put_obj put_obj_same)
qed

lemma ref_swap:
  assumes "kobject_ref s p = Some s1" and "kobject_ref s1 q = Some s2"
  shows "\<exists>t. kobject_ref s q = Some t \<and> kobject_ref t p = Some s2"
proof -
  obtain a where a: "get_obj s p = Some a" "s1 = put_obj s p (a\<lparr>ref_count := ref_count a + 1\<rparr>)"
    using kobject_ref_SomeE[OF assms(1)] .
  obtain b where b: "get_obj s1 q = Some b" "s2 = put_obj s1 q (b\<lparr>ref_count := ref_count b + 1\<rparr>)"
    using kobject_ref_SomeE[OF assms(2)] .
  show ?thesis
  proof (cases "p = q")
    case True
    then show ?thesis using assms by blast
  next
    case False
    then have "get_obj s q = Some b" using a b by (simp add: get_put_obj)
    then show ?thesis using a b False by (simp add: kobject_ref_def get_put_obj put_obj_swap)
  qed
qed

lemma unref_after_two_refs:
  assumes "kom_inv w ext s" and "kobject_ref s p = Some s1" and "kobject_ref s1 q = Some s2"
    and "0 < rc s p" "0 < rc s q" and "room 2 s"
  shows "kobject_unref s2 p = kobject_ref s q"
proof -
  obtain t where t: "kobject_ref s q = Some t" "kobject_ref t p = Some s2" using ref_swap[OF assms(2,3)] by blast
  have r: "room 1 s" using assms(6) by (rule room_mono) simp
  have rc: "rc t x = rc s x + (if x = q then 1 else 0)" for x
    using kobject_ref_mono[OF assms(1,5) r t(1)] .
  have "0 < rc t p" using rc assms(4) by simp
  moreover have "room 1 t"
    unfolding room_def
  proof
    fix x
    have "rc s x + 2 < 2 ^ 32" using assms(6) unfolding room_def by blast
    then show "rc t x + 1 < 2 ^ 32" using rc[of x] by (simp split: if_splits)
  qed
  ultimately show ?thesis using unref_after_ref[OF t(2)] t(1) by simp
qed

section \<open>Resolution follows the path\<close>

lemma ons_walk_spec:
  assumes ok: "handle_ok ext s" and "room 2 s"
  shows "bindings s cur = Some bs \<Longrightarrow> 0 < rc s cur \<Longrightarrow> kobject_ref s cur = Some s1 \<Longrightarrow>
    ons_walk s1 cur token =
      (case path_find s cur (components token) (trailing token) of
         None \<Rightarrow> Some (s, 0)
       | Some p \<Rightarrow> map_option (\<lambda>s'. (s', p)) (kobject_ref s p))"
proof (induction "length token" arbitrary: cur bs s1 token rule: less_induct)
  case less
  have inv: "kom_inv [] ext s" using ok by (simp add: handle_ok_def)
  have r1: "room 1 s" using assms(2) by (rule room_mono) simp
  define name where "name = takeWhile (\<lambda>c. c \<noteq> SLASH) token"
  define rest where "rest = drop (Suc (length name)) token"
  show ?case
  proof (cases "token = []")
    case True
    then show ?thesis using less.prems(3) by (subst ons_walk.simps) (simp add: components_def)
  next
    case tok: False
    have len: "length rest < length token" using tok by (simp add: rest_def)
    show ?thesis
    proof (cases "name = []")
      case True
      then have sl: "SLASH \<in> set token" using tok by (cases token) (auto simp: name_def split: if_splits)
      have c: "components token = components rest"
        using components_unfold[of token] True sl by (simp add: Let_def rest_def flip: name_def)
      have t: "rest \<noteq> [] \<Longrightarrow> trailing token = trailing rest"
        using trailing_rest[OF sl] by (simp add: rest_def name_def)
      have "path_find s cur (components token) (trailing token) = path_find s cur (components rest) (trailing rest)"
        using c t by (cases "rest = []") (auto simp: components_def)
      then show ?thesis using less.hyps[OF len less.prems] True tok
        by (subst ons_walk.simps) (simp add: Let_def rest_def flip: name_def)
    next
      case nm: False
      have c: "components token = name # (if SLASH \<in> set token then components rest else [])"
        using components_unfold[of token] nm by (simp add: Let_def rest_def flip: name_def)
      have b1: "bindings s1 cur = Some bs" using kobject_ref_bindings[OF less.prems(3)] less.prems(1) by simp
      have un: "kobject_unref s1 cur = Some s" using unref_after_ref[OF less.prems(3,2) r1] .
      show ?thesis
      proof (cases "map_of bs name")
        case None
        then have "kcontainer_lookup s1 cur (Some name) = Some (s1, 0)" using b1 by (simp add: kcontainer_lookup_def)
        then show ?thesis using tok nm un c None less.prems(1)
          by (subst ons_walk.simps) (simp add: Let_def flip: name_def)
      next
        case (Some q)
        obtain s3 where q: "q \<noteq> 0" "0 < rc s q" "kobject_ref s q = Some s3"
          using kcontainer_lookup_ok[OF ok r1 less.prems(1,2), of name] Some by auto
        obtain obj where obj: "get_obj s q = Some obj" using q(2) rc_pos by blast
        have "get_obj s1 q \<noteq> None" using kobject_ref_keeps[OF less.prems(3) obj] by blast
        then obtain s2 where s2: "kobject_ref s1 q = Some s2" by (auto simp: kobject_ref_def)
        have lk: "kcontainer_lookup s1 cur (Some name) = Some (s2, q)"
          using b1 Some s2 by (simp add: kcontainer_lookup_def)
        have un2: "kobject_unref s2 cur = Some s3"
          using unref_after_two_refs[OF inv less.prems(3) s2 less.prems(2) q(2) assms(2)] q(3) by simp
        have g3: "\<exists>o3. get_obj s3 q = Some o3 \<and> otype o3 = otype obj"
          using kobject_ref_keeps[OF q(3) obj] by blast
        show ?thesis
        proof (cases "SLASH \<in> set token")
          case False
          then show ?thesis using tok nm lk un2 q c Some less.prems(1) trailing_no_slash[OF False]
            by (subst ons_walk.simps) (simp add: Let_def flip: name_def)
        next
          case sl: True
          have tr: "trailing token \<longleftrightarrow> rest = [] \<or> trailing rest"
            using trailing_rest[OF sl] by (simp add: rest_def name_def)
          have ic: "is_container s q \<longleftrightarrow> otype obj = CONTAINER" using obj by (simp add: is_container_def)
          have pf: "path_find s cur (components token) (trailing token)
              = (if otype obj = CONTAINER then path_find s q (components rest) (trailing rest) else None)"
            using c sl Some less.prems(1) ic tr components_Nil[of rest] 
            by (cases "rest = []"; cases "components rest = []") auto
          show ?thesis
          proof (cases "otype obj = CONTAINER")
            case True
            obtain bs' where "bindings s q = Some bs'" using container_bindings[OF inv q(2) obj True] by blast
            from less.hyps[OF len this q(2,3)] show ?thesis
              using tok nm lk un2 q sl True g3 pf
              by (subst ons_walk.simps) (auto simp: Let_def rest_def simp flip: name_def)
          next
            case False
            then show ?thesis using tok nm lk un2 q sl g3 pf unref_after_ref[OF q(3,2) r1]
              by (subst ons_walk.simps) (auto simp: Let_def simp flip: name_def)
          qed
        qed
      qed
    qed
  qed
qed

section \<open>The namespace invariant\<close>

definition ons_ok :: "(oid \<Rightarrow> nat) \<Rightarrow> kom \<Rightarrow> bool" where
  "ons_ok ext s \<longleftrightarrow> handle_ok ext s \<and> ons_root s \<noteq> 0 \<and> 0 < ext (ons_root s) \<and> is_container s (ons_root s)"

definition resolve_spec :: "kom \<Rightarrow> string \<Rightarrow> oid option" where
  "resolve_spec s path =
     (let p = convert_nt_path path
      in if p = [] \<or> hd p \<noteq> SLASH then None
         else path_find s (ons_root s) (components (tl p)) (trailing (tl p)))"

lemma kframe_container:
  assumes "kframe k s s'" and "is_container s c" and "0 < rc s' c"
  shows "is_container s' c"
proof -
  obtain obj where obj: "get_obj s c = Some obj" "otype obj = CONTAINER"
    using assms(2) by (auto simp: is_container_def split: option.splits)
  obtain obj' where obj': "get_obj s' c = Some obj'" using assms(3) rc_pos by blast
  have "c < length (objs s)" using get_obj_valid[OF obj(1)] by simp
  then have "otype obj' = otype obj" using assms(1) obj(1) obj' unfolding kframe_def kom_le_def by force
  then show ?thesis using obj' obj(2) by (simp add: is_container_def)
qed

lemma ons_ok_step:
  assumes "ons_ok ext s" and "kframe k s s'" and "handle_ok ext' s'" and "0 < ext' (ons_root s)"
  shows "ons_ok ext' s'"
proof -
  have r: "ons_root s' = ons_root s" using assms(2) by (simp add: kframe_def kom_le_def)
  have "0 < rc s' (ons_root s)"
    using assms(1,3,4) ext_live[of "[]" ext' s' "ons_root s"] by (simp add: ons_ok_def handle_ok_def)
  then show ?thesis using assms r kframe_container[OF assms(2)] by (simp add: ons_ok_def)
qed

lemma ons_ok_same: "ons_ok ext s \<Longrightarrow> kframe k s s' \<Longrightarrow> handle_ok ext s' \<Longrightarrow> ons_ok ext s'"
  using ons_ok_step[of ext s k s' ext] by (simp add: ons_ok_def)

lemma is_container_bindings:
  assumes "handle_ok ext s" and "0 < rc s c" and "is_container s c"
  shows "\<exists>bs. bindings s c = Some bs"
  using assms container_bindings[of "[]" ext s c]
  by (auto simp: handle_ok_def is_container_def split: option.splits)

lemma path_find_live:
  assumes ok: "handle_ok ext s"
  shows "path_find s cur ns dir = Some p \<Longrightarrow> 0 < rc s cur \<Longrightarrow> 0 < rc s p"
proof (induction ns arbitrary: cur)
  case (Cons n ns)
  have inv: "kom_inv [] ext s" using ok by (simp add: handle_ok_def)
  obtain bs q where b: "bindings s cur = Some bs" "map_of bs n = Some q"
    using Cons.prems(1) by (auto split: option.splits)
  have q: "q \<in> snd ` set bs" using map_of_SomeD[OF b(2)] by force
  then have "q \<noteq> 0" using bindings_ok[OF inv b(1) Cons.prems(2)] by metis
  then have "0 < rc s q" using binding_live[OF inv b(1) q] by simp
  then show ?case using Cons b by (auto split: if_splits)
qed simp

lemma root_live: "ons_ok ext s \<Longrightarrow> 0 < rc s (ons_root s)"
  using ext_live[of "[]" ext s "ons_root s"] by (simp add: ons_ok_def handle_ok_def)

lemma ons_resolve_exact:
  assumes "ons_ok ext s" and "room 2 s"
  shows "ons_resolve s (Some path) =
    (case resolve_spec s path of
       None \<Rightarrow> Some (s, 0) | Some p \<Rightarrow> map_option (\<lambda>s'. (s', p)) (kobject_ref s p))"
proof (cases "convert_nt_path path = [] \<or> hd (convert_nt_path path) \<noteq> SLASH")
  case True
  then show ?thesis by (auto simp: ons_resolve_def resolve_spec_def Let_def)
next
  case False
  have ok: "handle_ok ext s" using assms(1) by (simp add: ons_ok_def)
  have r: "room 1 s" using assms(2) by (rule room_mono) simp
  have live: "0 < rc s (ons_root s)" using root_live[OF assms(1)] .
  obtain s1 where s1: "kobject_ref s (ons_root s) = Some s1"
    using kobject_ref_ok[of "[]" ext s "ons_root s"] ok live r by (auto simp: handle_ok_def)
  obtain bs where "bindings s (ons_root s) = Some bs"
    using is_container_bindings[OF ok live] assms(1) by (auto simp: ons_ok_def)
  from ons_walk_spec[OF ok assms(2) this live s1, of "tl (convert_nt_path path)"] s1 False show ?thesis
    by (auto simp: ons_resolve_def resolve_spec_def Let_def)
qed

lemma ons_resolve_ok:
  assumes "ons_ok ext s" and "room 2 s"
  shows "\<exists>s' p. ons_resolve s path = Some (s', p) \<and> ons_ok (got ext p) s' \<and> kframe 1 s s'"
proof (cases path)
  case None
  then show ?thesis using assms(1) by (simp add: ons_resolve_def)
next
  case (Some pth)
  have ok: "handle_ok ext s" using assms(1) by (simp add: ons_ok_def)
  show ?thesis
  proof (cases "resolve_spec s pth")
    case None
    then show ?thesis using assms Some by (simp add: ons_resolve_exact)
  next
    case (Some p)
    have live: "0 < rc s p"
      using path_find_live[OF ok] root_live[OF assms(1)] Some
      by (auto simp: resolve_spec_def Let_def split: if_splits)
    have "room 1 s" using assms(2) by (rule room_mono) simp
    then obtain s1 where s1: "kobject_ref s p = Some s1" "kom_inv [] (ext(p := ext p + 1)) s1"
      "kframe 1 s s1" "ht s1 = ht s"
      using kobject_ref_ok[of "[]" ext s p] ok live by (auto simp: handle_ok_def)
    have "handle_ok (got ext p) s1" using s1 ok rc_nonnull[OF live] by (simp add: handle_ok_def got_def)
    moreover have "0 < got ext p (ons_root s)" using assms(1) by (simp add: got_def ons_ok_def)
    ultimately have "ons_ok (got ext p) s1" using ons_ok_step[OF assms(1) s1(3)] by blast
    then show ?thesis using Some \<open>path = Some pth\<close> assms s1 by (simp add: ons_resolve_exact)
  qed
qed

lemma got_live: "ons_ok (got ext p) s \<Longrightarrow> p \<noteq> 0 \<Longrightarrow> 0 < rc s p"
  using ext_live[of "[]" "got ext p" s p] got_pos by (simp add: ons_ok_def handle_ok_def)

lemma unref_got_ons:
  assumes "ons_ok (got ext p) s" and "p \<noteq> 0" and "0 < ext (ons_root s)"
  shows "\<exists>s'. kobject_unref s p = Some s' \<and> ons_ok ext s' \<and> kframe 0 s s' \<and> ht s' = ht s"
proof -
  obtain s' where s': "kobject_unref s p = Some s'" "handle_ok ext s'" "kframe 0 s s'" "ht s' = ht s"
    using unref_got[of ext p s] assms(1,2) by (auto simp: ons_ok_def)
  then show ?thesis using ons_ok_step[OF assms(1) s'(3,2) assms(3)] by blast
qed

lemma kframe_root: "kframe k s s' \<Longrightarrow> ons_root s' = ons_root s"
  by (simp add: kframe_def kom_le_def)

lemma ons_parent_of_ok:
  assumes "ons_ok ext s" and "room 2 s"
  shows "\<exists>s' r. ons_parent_of s pth = Some (s', r) \<and> kframe 1 s s' \<and>
    (case r of Inl e \<Rightarrow> ons_ok ext s' | Inr (c, n) \<Rightarrow> c \<noteq> 0 \<and> ons_ok (got ext c) s' \<and> is_container s' c)"
proof -
  define buf where "buf = convert_nt_path pth"
  obtain dir name where sp: "split_last buf = (dir, name)" by force
  have root: "0 < ext (ons_root s)" "ons_root s \<noteq> 0" using assms(1) by (simp_all add: ons_ok_def)
  consider "buf = [] \<or> hd buf \<noteq> SLASH \<or> name = []" | "buf \<noteq> []" "hd buf = SLASH" "name \<noteq> []" "dir = []"
    | "buf \<noteq> []" "hd buf = SLASH" "name \<noteq> []" "dir \<noteq> []" by blast
  then show ?thesis
  proof cases
    case 1
    then show ?thesis using assms(1) sp by (auto simp: ons_parent_of_def Let_def simp flip: buf_def)
  next
    case 2
    obtain s1 where s1: "kobject_ref s (ons_root s) = Some s1" "handle_ok (got ext (ons_root s)) s1" "kframe 1 s s1"
      using kobject_ref_ok[of "[]" ext s "ons_root s"] assms root_live[OF assms(1)] room_mono[OF assms(2), of 1] root
      by (auto simp: ons_ok_def handle_ok_def got_def)
    have "ons_ok (got ext (ons_root s)) s1" using ons_ok_step[OF assms(1) s1(3,2)] got_pos[OF root(2)] by simp
    then show ?thesis using 2 sp s1 root kframe_root[OF s1(3)]
      by (auto simp: ons_parent_of_def Let_def ons_ok_def simp flip: buf_def)
  next
    case 3
    obtain s1 p where s1: "ons_resolve s (Some dir) = Some (s1, p)" "ons_ok (got ext p) s1" "kframe 1 s s1"
      using ons_resolve_ok[OF assms] by blast
    show ?thesis
    proof (cases "p = 0")
      case True
      then show ?thesis using 3 sp s1 by (auto simp: ons_parent_of_def Let_def simp flip: buf_def)
    next
      case False
      obtain obj where obj: "get_obj s1 p = Some obj" using got_live[OF s1(2) False] rc_pos by blast
      have "0 < ext (ons_root s1)" using root kframe_root[OF s1(3)] by simp
      then obtain s2 where s2: "kobject_unref s1 p = Some s2" "ons_ok ext s2" "kframe 0 s1 s2"
        using unref_got_ons[OF s1(2) False] by blast
      have "kframe 1 s s2" using kframe_trans[OF s1(3) s2(3)] by simp
      then show ?thesis using 3 sp s1 s2 obj False
        by (cases "otype obj = CONTAINER") (auto simp: ons_parent_of_def Let_def is_container_def simp flip: buf_def)
    qed
  qed
qed

lemma container_live_bindings:
  assumes "ons_ok (got ext c) s" and "c \<noteq> 0" and "is_container s c"
  shows "0 < rc s c \<and> (\<exists>bs. bindings s c = Some bs)"
  using got_live[OF assms(1,2)] is_container_bindings[of "got ext c" s c] assms(1,3) by (simp add: ons_ok_def)

lemma bind_any_ok:
  assumes "handle_ok ext s" and "room 1 s" and "bindings s c = Some bs" and "0 < rc s c" and "0 < rc s p"
  shows "\<exists>s' e. kcontainer_bind mem s c (Some n) p = Some (s', e) \<and> handle_ok ext s' \<and> kframe 1 s s'"
proof (cases "length n < 64")
  case True
  then show ?thesis using kcontainer_bind_ok[OF assms(1-5)] by blast
next
  case False
  then show ?thesis using assms(1) rc_nonnull[OF assms(5)] by (simp add: kcontainer_bind_def)
qed

lemma ref_kept:
  assumes "handle_ok (got ext c) s'" and "0 < ext p" and "p \<noteq> 0"
  shows "0 < rc s' p"
proof -
  have "0 < got ext c p" using assms(2) by (simp add: got_def)
  then show ?thesis using assms(1,3) ext_live[of "[]" "got ext c" s' p] by (simp add: handle_ok_def)
qed

lemma ons_bind_ok:
  assumes "ons_ok ext s" and "room 4 s" and "0 < ext obj" and "obj \<noteq> 0"
  shows "\<exists>s' e. ons_bind mem s path obj = Some (s', e) \<and> ons_ok ext s' \<and> kframe 2 s s'"
proof (cases path)
  case None
  then show ?thesis using assms(1) by (simp add: ons_bind_def)
next
  case (Some pth)
  have "room 2 s" using assms(2) by (rule room_mono) simp
  then obtain s1 r where s1: "ons_parent_of s pth = Some (s1, r)" "kframe 1 s s1"
    "case r of Inl e \<Rightarrow> ons_ok ext s1 | Inr (c, n) \<Rightarrow> c \<noteq> 0 \<and> ons_ok (got ext c) s1 \<and> is_container s1 c"
    using ons_parent_of_ok[OF assms(1)] by blast
  show ?thesis
  proof (cases r)
    case (Inl e)
    then show ?thesis using Some s1 assms(4) kframe_mono[OF s1(2), of 2] by (simp add: ons_bind_def)
  next
    case (Inr cn)
    obtain c n where cn: "cn = (c, n)" by force
    have c: "c \<noteq> 0" "ons_ok (got ext c) s1" "is_container s1 c" using s1(3) Inr cn by simp_all
    obtain bs where b: "bindings s1 c = Some bs" "0 < rc s1 c" using container_live_bindings[OF c(2,1,3)] by blast
    have h1: "handle_ok (got ext c) s1" using c(2) by (simp add: ons_ok_def)
    have "room 1 s1" using assms(2) s1(2) by (rule room_step) simp
    then obtain s2 e where s2: "kcontainer_bind mem s1 c (Some n) obj = Some (s2, e)" "handle_ok (got ext c) s2" "kframe 1 s1 s2"
      using bind_any_ok[OF h1 _ b ref_kept[OF h1 assms(3,4)]] by blast
    have "ons_ok (got ext c) s2" using ons_ok_same[OF c(2) s2(3,2)] .
    moreover have "0 < ext (ons_root s2)"
      using assms(1) kframe_root[OF s1(2)] kframe_root[OF s2(3)] by (simp add: ons_ok_def)
    ultimately obtain s3 where s3: "kobject_unref s2 c = Some s3" "ons_ok ext s3" "kframe 0 s2 s3"
      using unref_got_ons c(1) by blast
    have "kframe 2 s s3" using kframe_trans[OF kframe_trans[OF s1(2) s2(3)] s3(3)] by (simp add: numeral_2_eq_2)
    then show ?thesis using Some s1(1) Inr cn s2(1) s3 assms(4) by (simp add: ons_bind_def)
  qed
qed

lemma ons_unbind_ok:
  assumes "ons_ok ext s" and "room 4 s"
  shows "\<exists>s' e. ons_unbind s path = Some (s', e) \<and> ons_ok ext s' \<and> kframe 1 s s'"
proof (cases path)
  case None
  then show ?thesis using assms(1) by (simp add: ons_unbind_def)
next
  case (Some pth)
  have "room 2 s" using assms(2) by (rule room_mono) simp
  then obtain s1 r where s1: "ons_parent_of s pth = Some (s1, r)" "kframe 1 s s1"
    "case r of Inl e \<Rightarrow> ons_ok ext s1 | Inr (c, n) \<Rightarrow> c \<noteq> 0 \<and> ons_ok (got ext c) s1 \<and> is_container s1 c"
    using ons_parent_of_ok[OF assms(1)] by blast
  show ?thesis
  proof (cases r)
    case (Inl e)
    then show ?thesis using Some s1 by (simp add: ons_unbind_def)
  next
    case (Inr cn)
    obtain c n where cn: "cn = (c, n)" by force
    have c: "c \<noteq> 0" "ons_ok (got ext c) s1" "is_container s1 c" using s1(3) Inr cn by simp_all
    obtain bs where b: "bindings s1 c = Some bs" using container_live_bindings[OF c(2,1,3)] by blast
    have h1: "handle_ok (got ext c) s1" using c(2) by (simp add: ons_ok_def)
    obtain s2 e where s2: "kcontainer_unbind s1 c (Some n) = Some (s2, e)" "handle_ok (got ext c) s2" "kframe 0 s1 s2"
      using kcontainer_unbind_ok[OF h1 b got_pos[OF c(1)] c(1), of n] by blast
    have "ons_ok (got ext c) s2" using ons_ok_same[OF c(2) s2(3,2)] .
    moreover have "0 < ext (ons_root s2)"
      using assms(1) kframe_root[OF s1(2)] kframe_root[OF s2(3)] by (simp add: ons_ok_def)
    ultimately obtain s3 where s3: "kobject_unref s2 c = Some s3" "ons_ok ext s3" "kframe 0 s2 s3"
      using unref_got_ons c(1) by blast
    have "kframe 1 s s3" using kframe_trans[OF kframe_trans[OF s1(2) s2(3)] s3(3)] by simp
    then show ?thesis using Some s1(1) Inr cn s2(1) s3 by (simp add: ons_unbind_def)
  qed
qed

lemma kcontainer_enumerate_ok:
  assumes "kom_inv w ext s" and "bindings s c = Some bs" and "0 < rc s c"
  shows "\<exists>r. kcontainer_enumerate s c index = Some r"
proof (cases "index < length bs")
  case True
  obtain n p where np: "bs ! index = (n, p)" by force
  then have p: "p \<in> snd ` set bs" using True by (metis image_eqI nth_mem snd_conv)
  then have "p \<noteq> 0" using bindings_ok[OF assms] by metis
  then obtain obj where "get_obj s p = Some obj" using binding_live[OF assms(1,2) p] rc_pos by blast
  then show ?thesis using True np assms(2) by (simp add: kcontainer_enumerate_def)
qed (simp add: kcontainer_enumerate_def assms(2))

lemma ons_enumerate_ok:
  assumes "ons_ok ext s" and "room 2 s"
  shows "\<exists>s' r. ons_enumerate s path index = Some (s', r) \<and> ons_ok ext s' \<and> kframe 1 s s'"
proof -
  obtain s1 p where s1: "ons_resolve s path = Some (s1, p)" "ons_ok (got ext p) s1" "kframe 1 s s1"
    using ons_resolve_ok[OF assms] by blast
  show ?thesis
  proof (cases "p = 0")
    case True
    then show ?thesis using s1 by (simp add: ons_enumerate_def)
  next
    case False
    obtain obj where obj: "get_obj s1 p = Some obj" using got_live[OF s1(2) False] rc_pos by blast
    have "0 < ext (ons_root s1)" using assms(1) kframe_root[OF s1(3)] by (simp add: ons_ok_def)
    then obtain s2 where s2: "kobject_unref s1 p = Some s2" "ons_ok ext s2" "kframe 0 s1 s2"
      using unref_got_ons[OF s1(2) False] by blast
    have f: "kframe 1 s s2" using kframe_trans[OF s1(3) s2(3)] by simp
    show ?thesis
    proof (cases "otype obj = CONTAINER")
      case True
      then have "is_container s1 p" using obj by (simp add: is_container_def)
      then obtain bs where b: "bindings s1 p = Some bs" "0 < rc s1 p" using container_live_bindings[OF s1(2) False] by blast
      have "kom_inv [] (got ext p) s1" using s1(2) by (simp add: ons_ok_def handle_ok_def)
      from kcontainer_enumerate_ok[OF this b] obtain r where "kcontainer_enumerate s1 p index = Some r" by blast
      then show ?thesis using s1 s2 f obj False True by (simp add: ons_enumerate_def)
    qed (use s1 s2 f obj False in \<open>simp add: ons_enumerate_def\<close>)
  qed
qed

section \<open>Converted paths\<close>

fun no_double :: "string \<Rightarrow> bool" where
  "no_double [] \<longleftrightarrow> True"
| "no_double (c # cs) \<longleftrightarrow> \<not> (c = SLASH \<and> cs \<noteq> [] \<and> hd cs = SLASH) \<and> no_double cs"

lemma hd_collapse: "p \<noteq> [] \<Longrightarrow> collapse p \<noteq> [] \<and> hd (collapse p) = hd p"
  by (induction p) auto

lemma no_double_collapse: "no_double (collapse p)"
proof (induction p)
  case (Cons c cs)
  then show ?case using hd_collapse[of cs] by (cases "cs = []") auto
qed simp

lemma collapse_no_double: "no_double p \<Longrightarrow> collapse p = p"
  by (induction p) auto

lemma no_double_append1: "no_double (p @ q) \<Longrightarrow> no_double p"
  by (induction p) auto

lemma length_collapse: "length (collapse p) \<le> length p"
  by (induction p) auto

lemma set_collapse: "set (collapse p) \<subseteq> set p"
  by (induction p) auto

definition canonical :: "string \<Rightarrow> bool" where
  "canonical p \<longleftrightarrow> p \<noteq> [] \<and> no_double p \<and> BACKSLASH \<notin> set p \<and> length p \<le> 255"

lemma convert_canonical: "canonical (convert_nt_path path)"
proof -
  define out where "out =
    (if length path \<ge> 2 \<and> is_drive (path ! 0) \<and> path ! 1 = CHR '':''
     then let drive = drive_upper (path ! 0);
              base = (if drive = CHR ''C'' then ''/'' else ''/volumes/'' @ [drive] @ ''/'')
          in base @ take (255 - length base) (drive_rest (drop 2 path))
     else take 255 path)"
  have len: "length out \<le> 255" by (auto simp: out_def Let_def)
  define temp where "temp = collapse (map (\<lambda>c. if c = BACKSLASH then SLASH else c) out)"
  have "length temp \<le> 255" using length_collapse[of "map (\<lambda>c. if c = BACKSLASH then SLASH else c) out"] len
    unfolding temp_def by simp
  moreover have "BACKSLASH \<notin> set temp"
    using set_collapse[of "map (\<lambda>c. if c = BACKSLASH then SLASH else c) out"] unfolding temp_def by auto
  moreover have "convert_nt_path path = (if temp = [] then ''/'' else temp)"
    unfolding convert_nt_path_def temp_def out_def by (simp only: Let_def)
  ultimately show ?thesis using no_double_collapse unfolding canonical_def temp_def by auto
qed

lemma convert_absolute:
  assumes "canonical p" and "hd p = SLASH"
  shows "convert_nt_path p = p"
proof -
  have "p ! 0 = SLASH" using assms by (simp add: canonical_def hd_conv_nth)
  then have nd: "\<not> is_drive (p ! 0)" by (simp add: is_drive_def)
  have "map (\<lambda>c. if c = BACKSLASH then SLASH else c) p = p"
    using assms(1) by (intro map_idI) (auto simp: canonical_def)
  then show ?thesis using assms(1) nd by (simp add: convert_nt_path_def canonical_def collapse_no_double Let_def)
qed

lemma split_last_eq:
  assumes "SLASH \<in> set p" and "split_last p = (dir, name)"
  shows "p = dir @ SLASH # name \<and> SLASH \<notin> set name"
proof -
  have n: "name = rev (takeWhile (\<lambda>c. c \<noteq> SLASH) (rev p))" and d: "dir = take (length p - length name - 1) p"
    using assms(2) by (auto simp: split_last_def Let_def)
  have "SLASH \<in> set (rev p)" using assms(1) by simp
  from slash_split[OF this] obtain r where "rev p = rev name @ SLASH # r" unfolding n by simp
  then have "p = rev r @ SLASH # name" by (metis append_assoc append_Cons append_Nil rev_append rev_rev_ident rev.simps(2))
  moreover have "SLASH \<notin> set name" unfolding n by (auto dest: set_takeWhileD)
  ultimately show ?thesis using d by simp
qed

lemma split_path_append: "split_path (a @ SLASH # b) = split_path a @ split_path b"
  by (induction a) (auto split: list.splits simp: neq_Nil_conv Cons_eq_append_conv)

lemma components_append: "components (a @ SLASH # b) = components a @ components b"
  by (simp add: components_def split_path_append)

lemma components_single: "SLASH \<notin> set n \<Longrightarrow> n \<noteq> [] \<Longrightarrow> components n = [n]"
proof -
  assume a: "SLASH \<notin> set n" "n \<noteq> []"
  have "takeWhile (\<lambda>c. c \<noteq> SLASH) n = n" unfolding takeWhile_eq_all_conv using a(1) by auto
  note tw = this
  show ?thesis using a components_unfold[of n] unfolding Let_def tw by simp
qed

text \<open>More bindings resolve at least as much, and a path extended by one name looks it up last.\<close>

lemma path_find_mono:
  assumes "\<And>c bs. bindings s c = Some bs \<Longrightarrow> \<exists>bs'. bindings s' c = Some bs' \<and> map_of bs \<subseteq>\<^sub>m map_of bs'"
    and "\<And>c. is_container s c \<Longrightarrow> is_container s' c"
  shows "path_find s cur ns dir = Some p \<Longrightarrow> path_find s' cur ns dir = Some p"
proof (induction ns arbitrary: cur)
  case (Cons n ns)
  obtain bs q where b: "bindings s cur = Some bs" "map_of bs n = Some q"
    using Cons.prems by (auto split: option.splits)
  obtain bs' where b': "bindings s' cur = Some bs'" "map_of bs \<subseteq>\<^sub>m map_of bs'" using assms(1)[OF b(1)] by blast
  then have "map_of bs' n = Some q" using b(2) by (metis domI map_le_def)
  then show ?case using Cons b b'(1) assms(2)[of q] by (auto split: if_splits)
qed simp

lemma path_find_snoc:
  assumes "path_find s cur ns False = Some c" and "is_container s c"
    and "bindings s c = Some bs" and "map_of bs n = Some p"
  shows "path_find s cur (ns @ [n]) False = Some p"
  using assms(1)
proof (induction ns arbitrary: cur)
  case (Cons m ms)
  obtain bs0 q where b: "bindings s cur = Some bs0" "map_of bs0 m = Some q"
    using Cons.prems by (auto split: option.splits)
  show ?case
  proof (cases "ms = []")
    case True
    then show ?thesis using Cons.prems b assms(2-4) by simp
  next
    case False
    then have "is_container s q" "path_find s q ms False = Some c" using Cons.prems b by (auto split: if_splits)
    then show ?thesis using Cons.IH[of q] b False by simp
  qed
qed (use assms in simp)

lemma path_find_snoc_None:
  assumes "path_find s cur ns False = Some c" and "bindings s c = Some bs" and "map_of bs n = None"
  shows "path_find s cur (ns @ [n]) False = None"
  using assms(1)
proof (induction ns arbitrary: cur)
  case (Cons m ms)
  obtain bs0 q where b: "bindings s cur = Some bs0" "map_of bs0 m = Some q"
    using Cons.prems by (auto split: option.splits)
  show ?case
  proof (cases "ms = []")
    case True
    then show ?thesis using Cons.prems b assms(2,3) by simp
  next
    case False
    then have "path_find s q ms False = Some c" using Cons.prems b by (auto split: if_splits)
    then show ?thesis using Cons.IH[of q] b False by simp
  qed
qed (use assms in simp)

section \<open>The parent of a path\<close>

definition parent_path :: "string \<Rightarrow> (string list \<times> string) option" where
  "parent_path path =
     (let buf = convert_nt_path path; (dir, name) = split_last buf
      in if hd buf \<noteq> SLASH \<or> name = [] then None else Some (components (tl dir), name))"

lemma parent_split:
  assumes "hd (convert_nt_path path) = SLASH" and "split_last (convert_nt_path path) = (dir, name)"
  shows "convert_nt_path path = dir @ SLASH # name \<and> SLASH \<notin> set name
    \<and> (dir = [] \<or> hd dir = SLASH \<and> convert_nt_path dir = dir \<and> \<not> trailing (tl dir) \<and> tl dir \<noteq> [])"
proof -
  let ?buf = "convert_nt_path path"
  have can: "canonical ?buf" by (rule convert_canonical)
  then have "SLASH \<in> set ?buf" using assms(1) unfolding canonical_def by (metis list.set_sel(1))
  from split_last_eq[OF this assms(2)] have s: "?buf = dir @ SLASH # name" "SLASH \<notin> set name" by simp_all
  have "hd dir = SLASH \<and> convert_nt_path dir = dir \<and> \<not> trailing (tl dir) \<and> tl dir \<noteq> []" if "dir \<noteq> []"
  proof -
    have h: "hd dir = SLASH" using assms(1) s(1) that by simp
    have "canonical dir" using can s(1) that no_double_append1[of dir "SLASH # name"] by (auto simp: canonical_def)
    then have "convert_nt_path dir = dir" using h by (rule convert_absolute)
    moreover have "last dir \<noteq> SLASH"
    proof
      assume "last dir = SLASH"
      then have "dir = butlast dir @ [SLASH]" using that by (metis append_butlast_last_id)
      then have "no_double (butlast dir @ SLASH # SLASH # name)"
        using can s(1) unfolding canonical_def by (metis append_Cons append_Nil append_assoc)
      moreover have "\<not> no_double (xs @ SLASH # SLASH # name)" for xs by (induction xs) auto
      ultimately show False by blast
    qed
    ultimately show ?thesis using h that by (cases dir) (auto simp: trailing_def split: if_splits)
  qed
  then show ?thesis using s by blast
qed

lemma resolve_parent_path:
  assumes "parent_path path = Some (ns, n)"
  shows "resolve_spec t path = path_find t (ons_root t) (ns @ [n]) False"
proof -
  obtain dir where d: "split_last (convert_nt_path path) = (dir, n)" "hd (convert_nt_path path) = SLASH"
    "n \<noteq> []" "ns = components (tl dir)"
    using assms by (auto simp: parent_path_def Let_def split: prod.splits if_splits)
  from parent_split[OF d(2,1)] have p: "convert_nt_path path = dir @ SLASH # n" "SLASH \<notin> set n"
    "dir = [] \<or> hd dir = SLASH \<and> tl dir \<noteq> []" by auto
  have nt: "\<not> trailing n" using trailing_no_slash[OF p(2)] .
  show ?thesis
  proof (cases "dir = []")
    case True
    then show ?thesis using p d nt components_single[OF p(2) d(3)] by (simp add: resolve_spec_def)
  next
    case False
    have t: "tl (convert_nt_path path) = tl dir @ SLASH # n" using p(1) False by simp
    have "components (tl dir @ SLASH # n) = ns @ [n]"
      using components_append[of "tl dir" n] components_single[OF p(2) d(3)] d(4) by simp
    moreover have "\<not> trailing (tl dir @ SLASH # n)" using nt d(3) by (simp add: trailing_def)
    ultimately show ?thesis using t d(2) p(1) by (simp add: resolve_spec_def)
  qed
qed

lemma ons_parent_exact:
  assumes "ons_ok ext t" and "room 2 t"
  shows "ons_parent_of t path =
    (case parent_path path of
       None \<Rightarrow> Some (t, Inl ONS_ERR_INVALID_ARG)
     | Some (ns, n) \<Rightarrow>
         (case path_find t (ons_root t) ns False of
            None \<Rightarrow> Some (t, Inl ONS_ERR_NOT_FOUND)
          | Some c \<Rightarrow> if is_container t c then map_option (\<lambda>t'. (t', Inr (c, n))) (kobject_ref t c)
                      else Some (t, Inl ONS_ERR_NOT_CONTAINER)))"
proof -
  obtain dir name where d: "split_last (convert_nt_path path) = (dir, name)" by force
  have ne: "convert_nt_path path \<noteq> []" using convert_canonical[of path] by (simp add: canonical_def)
  have root: "is_container t (ons_root t)" using assms(1) by (simp add: ons_ok_def)
  consider "hd (convert_nt_path path) \<noteq> SLASH \<or> name = []"
    | "hd (convert_nt_path path) = SLASH" "name \<noteq> []" "dir = []"
    | "hd (convert_nt_path path) = SLASH" "name \<noteq> []" "dir \<noteq> []" by blast
  then show ?thesis
  proof cases
    case 1
    then show ?thesis using d ne by (auto simp: parent_path_def ons_parent_of_def Let_def)
  next
    case 2
    then show ?thesis using d ne root
      by (cases "kobject_ref t (ons_root t)") (simp_all add: parent_path_def ons_parent_of_def)
  next
    case 3
    from parent_split[OF 3(1) d] 3(3) have dd: "hd dir = SLASH" "convert_nt_path dir = dir" "\<not> trailing (tl dir)"
      by auto
    have rs: "resolve_spec t dir = path_find t (ons_root t) (components (tl dir)) False"
      using dd 3(3) by (simp add: resolve_spec_def)
    have ok: "handle_ok ext t" using assms(1) by (simp add: ons_ok_def)
    show ?thesis
    proof (cases "path_find t (ons_root t) (components (tl dir)) False")
      case None
      then show ?thesis using 3 d ne ons_resolve_exact[OF assms, of dir] rs
        by (simp add: parent_path_def ons_parent_of_def)
    next
      case (Some c)
      have live: "0 < rc t c" using path_find_live[OF ok Some root_live[OF assms(1)]] .
      have r1: "room 1 t" using assms(2) by (rule room_mono) simp
      obtain obj where obj: "get_obj t c = Some obj" using live rc_pos by blast
      then obtain t1 where t1: "kobject_ref t c = Some t1" by (auto simp: kobject_ref_def)
      obtain obj1 where "get_obj t1 c = Some obj1" "otype obj1 = otype obj" using kobject_ref_keeps[OF t1 obj] by blast
      then show ?thesis
        using 3 d ne ons_resolve_exact[OF assms, of dir] rs Some obj t1 rc_nonnull[OF live] unref_after_ref[OF t1 live r1]
        by (simp add: parent_path_def ons_parent_of_def is_container_def)
    qed
  qed
qed

text \<open>What the operations on bindings leave alone.\<close>

definition same_names :: "kom \<Rightarrow> kom \<Rightarrow> bool" where
  "same_names s t \<longleftrightarrow> ons_root t = ons_root s \<and> (\<forall>x. is_container t x = is_container s x)
     \<and> (\<forall>x. map_option map_of (bindings t x) = map_option map_of (bindings s x))"

lemma path_find_cong:
  assumes "same_names s t"
  shows "path_find t cur ns dir = path_find s cur ns dir"
proof (induction ns arbitrary: cur)
  case (Cons n ns)
  have "map_option map_of (bindings t cur) = map_option map_of (bindings s cur)"
    using assms by (simp add: same_names_def)
  then show ?case using Cons assms
    by (cases "bindings t cur"; cases "bindings s cur") (auto simp: same_names_def split: option.splits)
qed simp

lemma resolve_spec_cong: "same_names s t \<Longrightarrow> resolve_spec t path = resolve_spec s path"
  using path_find_cong[of s t] by (simp add: resolve_spec_def Let_def same_names_def)

lemma put_obj_root [simp]: "ons_root (put_obj s p obj) = ons_root s"
  by (simp add: put_obj_def)

lemma ref_same:
  assumes "kobject_ref s p = Some s1"
  shows "bindings s1 x = bindings s x \<and> is_container s1 x = is_container s x \<and> ons_root s1 = ons_root s"
proof -
  obtain obj where "get_obj s p = Some obj" "s1 = put_obj s p (obj\<lparr>ref_count := ref_count obj + 1\<rparr>)"
    using kobject_ref_SomeE[OF assms] .
  then show ?thesis using kobject_ref_bindings[OF assms] by (simp add: is_container_def get_put_obj)
qed

lemma unref_shared:
  assumes "kobject_unref s p = Some s1" and "2 \<le> rc s p"
  shows "bindings s1 x = bindings s x \<and> is_container s1 x = is_container s x \<and> ons_root s1 = ons_root s
    \<and> rc s1 x = rc s x - (if x = p then 1 else 0)"
proof -
  obtain obj where obj: "get_obj s p = Some obj" using assms(2) rc_pos[of s p] by auto
  then have "2 \<le> unat (ref_count obj)" using assms(2) by (simp add: rc_def)
  then obtain n where "unat (ref_count obj) = Suc (Suc n)" by (metis add_2_eq_Suc le_Suc_ex)
  then have "unat (ref_count obj - 1) = unat (ref_count obj) - 1" by (intro unat_minus_one) auto
  moreover from unref_put[OF obj \<open>unat (ref_count obj) = Suc (Suc n)\<close>] assms(1) have "s1 = put_obj s p (obj\<lparr>ref_count := ref_count obj - 1\<rparr>)" by simp
  ultimately show ?thesis using obj by (simp add: is_container_def bindings_def get_put_obj rc_def)
qed

lemma set_bindings_same:
  assumes "set_bindings s c bs1 = Some s1"
  shows "bindings s1 x = (if x = c then Some bs1 else bindings s x) \<and> is_container s1 x = is_container s x
    \<and> ons_root s1 = ons_root s \<and> rc s1 x = rc s x"
  using assms by (auto simp: set_bindings_def bindings_def is_container_def get_put_obj rc_def split: bind_splits)

lemma kcontainer_bind_same:
  assumes "kcontainer_bind mem s c (Some n) p = Some (s', KOM_OK)" and "bindings s c = Some bs"
  shows "map_of bs n = None \<and> is_container s' x = is_container s x \<and> ons_root s' = ons_root s
    \<and> bindings s' x = (if x = c then Some ((n, p) # bs) else bindings s x)
    \<and> (\<exists>s1. kobject_ref s p = Some s1 \<and> rc s' = rc s1)"
proof -
  obtain s1 where s1: "kobject_ref s p = Some s1" "set_bindings s1 c ((n, p) # bs) = Some s'" "n \<notin> fst ` set bs"
    using assms by (auto simp: kcontainer_bind_def split: if_splits bind_splits)
  show ?thesis using ref_same[OF s1(1)] set_bindings_same[OF s1(2)] s1(1,3)
    by (simp add: map_of_eq_None_iff fun_eq_iff)
qed

lemma kcontainer_unbind_same:
  assumes "kcontainer_unbind s c (Some n) = Some (s', KOM_OK)" and "bindings s c = Some bs" and "distinct (map fst bs)"
    and "map_of bs n = Some p" and "2 \<le> rc s p"
  shows "is_container s' x = is_container s x \<and> ons_root s' = ons_root s
    \<and> map_option map_of (bindings s' x) = (if x = c then Some ((map_of bs)(n := None)) else map_option map_of (bindings s x))
    \<and> rc s' x = rc s x - (if x = p then 1 else 0)"
proof -
  obtain bs1 where r: "remove_binding n bs = Some (p, bs1)"
    using assms(3,4) remove_binding_None[of n bs] remove_binding_Some[of n bs]
    by (cases "remove_binding n bs") auto
  have m: "map_of bs1 = (map_of bs)(n := None)" using remove_binding_Some[OF r assms(3)] by blast
  obtain s1 where s1: "set_bindings s c bs1 = Some s1" "kobject_unref s1 p = Some s'"
    using assms(1,2) r by (auto simp: kcontainer_unbind_def split: bind_splits)
  have "2 \<le> rc s1 p" using set_bindings_same[OF s1(1), of p] assms(5) by simp
  then show ?thesis using unref_shared[OF s1(2), of x] set_bindings_same[OF s1(1), of x] m by simp
qed

lemma ref_unref_live:
  assumes "ons_ok ext s" and "room 1 s" and "0 < rc s c" and "kobject_ref s c = Some s1"
  shows "rc s1 c = rc s c + 1" "\<And>x. rc s x \<le> rc s1 x"
  using kobject_ref_mono[of "[]" ext s c s1] assms by (auto simp: ons_ok_def handle_ok_def)

text \<open>A successful \<open>ons_bind\<close>: the container and the name it used, and how the bindings changed.\<close>

lemma ons_bind_effect:
  assumes ok: "ons_ok ext s" and r: "room 4 s" and obj: "0 < ext obj" "obj \<noteq> 0"
    and bind: "ons_bind mem s (Some path) obj = Some (s', ONS_OK)"
  shows "\<exists>ns n c bs. parent_path path = Some (ns, n) \<and> path_find s (ons_root s) ns False = Some c \<and> is_container s c
    \<and> bindings s c = Some bs \<and> map_of bs n = None \<and> ons_root s' = ons_root s
    \<and> (\<forall>x. is_container s' x = is_container s x)
    \<and> (\<forall>x. bindings s' x = (if x = c then Some ((n, obj) # bs) else bindings s x))"
proof -
  have r2: "room 2 s" and r1: "room 1 s" using r by (auto elim: room_mono)
  note ex = ons_parent_exact[OF ok r2, of path]
  obtain s1 c n s2 where s1: "ons_parent_of s path = Some (s1, Inr (c, n))"
    and s2: "kcontainer_bind mem s1 c (Some n) obj = Some (s2, KOM_OK)" and s3: "kobject_unref s2 c = Some s'"
    using bind obj ex by (auto simp: ons_bind_def split: bind_splits sum.splits option.splits if_splits)
  from ex[unfolded s1, symmetric] obtain ns where ns: "parent_path path = Some (ns, n)" "path_find s (ons_root s) ns False = Some c"
    "is_container s c" "kobject_ref s c = Some s1" by (auto split: option.splits if_splits)
  have ok': "handle_ok ext s" using ok by (simp add: ons_ok_def)
  have live: "0 < rc s c" using path_find_live[OF ok' ns(2) root_live[OF ok]] .
  obtain bs where bs: "bindings s c = Some bs" using is_container_bindings[OF ok' live ns(3)] by blast
  have bs1: "bindings s1 c = Some bs" using ref_same[OF ns(4)] bs by simp
  have c1: "2 \<le> rc s1 c" using ref_unref_live(1)[OF ok r1 live ns(4)] live by simp
  obtain s1' where m: "kobject_ref s1 obj = Some s1'" "rc s2 = rc s1'" using kcontainer_bind_same[OF s2 bs1] by blast
  have "rc s1 c \<le> rc s2 c"
  proof -
    have "kom_inv [] (ext(c := ext c + 1)) s1" "kframe 1 s s1"
      using kobject_ref_ok[of "[]" ext s c] ok' live r1 ns(4) by (auto simp: handle_ok_def)
    moreover have "0 < rc s1 obj"
      using ref_unref_live(2)[OF ok r1 live ns(4), of obj] ext_live[of "[]" ext s obj] ok' obj by (simp add: handle_ok_def)
    moreover have "room 1 s1" using r \<open>kframe 1 s s1\<close> by (rule room_step) simp
    ultimately show ?thesis using kobject_ref_mono[OF _ _ _ m(1), of "[]" _ c] m(2) by auto
  qed
  then have "2 \<le> rc s2 c" using c1 by simp
  note u = unref_shared[OF s3 this] and b = kcontainer_bind_same[OF s2 bs1] and rs = ref_same[OF ns(4)]
  have "ons_root s' = ons_root s" "map_of bs n = None" "\<And>x. is_container s' x = is_container s x"
    "\<And>x. bindings s' x = (if x = c then Some ((n, obj) # bs) else bindings s x)" using u b rs by simp_all
  then show ?thesis using ns bs by blast
qed

lemma binding_count:
  assumes "kom_inv w ext s" and "bindings s c = Some bs" and "map_of bs n = Some p" and "p \<noteq> 0"
  shows "ext p + 1 \<le> rc s p"
proof -
  obtain obj where obj: "get_obj s c = Some obj" "odata obj = KContainer bs" using assms(2) bindings_Some by blast
  have "p \<in> set (map snd bs)" using map_of_SomeD[OF assms(3)] by force
  then have "count_list (map snd bs) p \<noteq> 0" unfolding count_list_0_iff by blast
  then have "1 \<le> obj_sum (\<lambda>ob. holds ob p) s"
    using obj_sum_ge[OF obj(1), of "\<lambda>ob. holds ob p"] obj(2) by (simp add: holds_def)
  then show ?thesis using assms(1,4) by (simp add: kom_inv_def ref_inv_def)
qed

lemma ons_unbind_effect:
  assumes ok: "ons_ok ext s" and r: "room 4 s" and p: "0 < ext p" "p \<noteq> 0"
    and ns: "parent_path path = Some (ns, n)" "path_find s (ons_root s) ns False = Some c" "is_container s c"
    and b: "bindings s c = Some bs" "map_of bs n = Some p"
  shows "\<exists>s'. ons_unbind s (Some path) = Some (s', ONS_OK) \<and> ons_ok ext s' \<and> ons_root s' = ons_root s
    \<and> (\<forall>x. is_container s' x = is_container s x)
    \<and> (\<forall>x. map_option map_of (bindings s' x)
          = (if x = c then Some ((map_of bs)(n := None)) else map_option map_of (bindings s x)))"
proof -
  have r2: "room 2 s" and r1: "room 1 s" using r by (auto elim: room_mono)
  have ok': "handle_ok ext s" "kom_inv [] ext s" using ok by (simp_all add: ons_ok_def handle_ok_def)
  have live: "0 < rc s c" using path_find_live[OF ok'(1) ns(2) root_live[OF ok]] .
  have c0: "c \<noteq> 0" using rc_nonnull[OF live] .
  obtain s1 where s1: "kobject_ref s c = Some s1" "kom_inv [] (ext(c := ext c + 1)) s1" "ht s1 = ht s"
    using kobject_ref_ok[OF ok'(2) live r1] by blast
  have h1: "handle_ok (got ext c) s1" using s1 ok'(1) c0 by (simp add: handle_ok_def got_def)
  have b1: "bindings s1 c = Some bs" using ref_same[OF s1(1)] b(1) by simp
  have n: "n \<in> fst ` set bs" using map_of_SomeD[OF b(2)] by force
  obtain s2 where s2: "kcontainer_unbind s1 c (Some n) = Some (s2, KOM_OK)"
    using kcontainer_unbind_ok[OF h1 b1 got_pos[OF c0] c0, of n] n by auto
  obtain s3 e where s3: "ons_unbind s (Some path) = Some (s3, e)" "ons_ok ext s3"
    using ons_unbind_ok[OF ok r] by blast
  have par: "ons_parent_of s path = Some (s1, Inr (c, n))" using ons_parent_exact[OF ok r2] ns s1(1) by simp
  have u: "kobject_unref s2 c = Some s3" "e = ONS_OK"
    using s3(1) par s2 by (auto simp: ons_unbind_def split: bind_splits)
  have "ext p + 1 \<le> rc s p" using binding_count[OF ok'(2) b p(2)] .
  then have rp: "2 \<le> rc s p" using p(1) by simp
  have rc1: "rc s1 x = rc s x + (if x = c then 1 else 0)" for x using kobject_ref_mono[OF ok'(2) live r1 s1(1)] .
  have d: "distinct (map fst bs)" using bindings_ok[OF ok'(2) b(1) live] by simp
  have "2 \<le> rc s1 p" using rp rc1 by simp
  note un = kcontainer_unbind_same[OF s2 b1 d b(2) this]
  have "rc s2 c = rc s1 c - (if c = p then 1 else 0)" using un[of c] by blast
  then have "2 \<le> rc s2 c" using rc1[of c] rp live by (cases "c = p") simp_all
  note sh = unref_shared[OF u(1) this] and rs = ref_same[OF s1(1)]
  have "ons_root s3 = ons_root s" "\<And>x. is_container s3 x = is_container s x"
    "\<And>x. map_option map_of (bindings s3 x)
       = (if x = c then Some ((map_of bs)(n := None)) else map_option map_of (bindings s x))"
    using un sh rs by simp_all
  then show ?thesis using s3 u(2) by blast
qed

section \<open>The initial namespace\<close>

lemma handle_ok_root [simp]: "handle_ok ext (s\<lparr>ons_root := r\<rparr>) = handle_ok ext s"
proof -
  have same: "get_obj (s\<lparr>ons_root := r\<rparr>) = get_obj s" "rc (s\<lparr>ons_root := r\<rparr>) = rc s"
    "obj_sum f (s\<lparr>ons_root := r\<rparr>) = obj_sum f s" "chan_refs (s\<lparr>ons_root := r\<rparr>) c = chan_refs s c" for f c
    by (simp_all add: fun_eq_iff get_obj_def rc_def obj_sum_def chan_refs_def get_chan_def)
  show ?thesis unfolding handle_ok_def kom_inv_def ref_inv_def chan_inv_def obj_inv_def free_inv_def same by simp
qed

lemma root_same [simp]:
  "bindings (s\<lparr>ons_root := r\<rparr>) x = bindings s x" "rc (s\<lparr>ons_root := r\<rparr>) x = rc s x"
  "room k (s\<lparr>ons_root := r\<rparr>) = room k s"
  by (simp_all add: bindings_def rc_def get_obj_def room_def)

fun gots :: "(oid \<Rightarrow> nat) \<Rightarrow> oid list \<Rightarrow> oid \<Rightarrow> nat" where
  "gots ext [] = ext"
| "gots ext (c # cs) = gots (got ext c) cs"

lemma got_commute: "got (got ext a) b = got (got ext b) a"
  by (auto simp: got_def fun_eq_iff)

lemma gots_got: "gots (got ext c) cs = got (gots ext cs) c"
  by (induction cs arbitrary: ext) (simp_all add: got_commute)

lemma gots_mono: "ext p \<le> gots ext cs p"
proof (induction cs arbitrary: ext)
  case (Cons c cs)
  have "ext p \<le> got ext c p" by (simp add: got_def)
  then show ?case using Cons[of "got ext c"] by simp
qed simp

lemma gots_in: "c \<in> set cs \<Longrightarrow> c \<noteq> 0 \<Longrightarrow> 0 < gots ext cs c"
proof (induction cs arbitrary: ext)
  case (Cons d ds)
  then show ?case using gots_mono[of "got ext c" c ds] got_pos[of c ext] by (cases "c = d") auto
qed simp

lemma ons_new_containers_ok:
  "handle_ok ext s \<Longrightarrow> \<exists>s' cs. ons_new_containers n s = (s', cs) \<and> handle_ok (gots ext cs) s' \<and> kframe n s s'
     \<and> length cs = n \<and> 0 \<notin> set cs \<and> (\<forall>c bs. bindings s c = Some bs \<longrightarrow> bindings s' c = Some bs)
     \<and> (\<forall>c \<in> set cs. bindings s' c = Some [])"
proof (induction n arbitrary: ext s)
  case (Suc n)
  obtain s1 p where s1: "kcontainer_new s = (s1, p)" "handle_ok (got ext p) s1" "kframe 1 s s1" "p \<noteq> 0"
    "bindings s1 p = Some []" "\<forall>c bs. bindings s c = Some bs \<longrightarrow> bindings s1 c = Some bs"
    using kcontainer_new_ok[OF Suc.prems] by blast
  obtain s2 cs where s2: "ons_new_containers n s1 = (s2, cs)" "handle_ok (gots (got ext p) cs) s2" "kframe n s1 s2"
    "length cs = n" "0 \<notin> set cs" "\<forall>c bs. bindings s1 c = Some bs \<longrightarrow> bindings s2 c = Some bs"
    "\<forall>c \<in> set cs. bindings s2 c = Some []" using Suc.IH[OF s1(2)] by blast
  have "kframe (Suc n) s s2" using kframe_trans[OF s1(3) s2(3)] by simp
  then show ?case using s1 s2 by simp
qed simp

lemma ons_bind_all_ok:
  "handle_ok ext s \<Longrightarrow> room (length ncs) s \<Longrightarrow> bindings s r = Some bs \<Longrightarrow> 0 < ext r \<Longrightarrow> r \<noteq> 0 \<Longrightarrow>
   \<forall>(n, c) \<in> set ncs. 0 < ext c \<and> c \<noteq> 0 \<and> length n < 64 \<Longrightarrow>
   distinct (map fst ncs) \<Longrightarrow> fst ` set ncs \<inter> fst ` set bs = {} \<Longrightarrow>
   \<exists>s'. ons_bind_all s r ncs = Some s' \<and> handle_ok ext s' \<and> kframe (length ncs) s s'
     \<and> bindings s' r = Some (rev ncs @ bs)"
proof (induction ncs arbitrary: s bs)
  case (Cons nc ncs)
  obtain n c where nc: "nc = (n, c)" by force
  have inv: "kom_inv [] ext s" using Cons.prems(1) by (simp add: handle_ok_def)
  have live: "0 < rc s r" "0 < rc s c" using ext_live[OF inv] Cons.prems(4-6) nc by auto
  have "room 1 s" using Cons.prems(2) by (rule room_mono) simp
  then obtain s1 where s1: "kcontainer_bind True s r (Some n) c = Some (s1, KOM_OK)" "handle_ok ext s1" "kframe 1 s s1"
    "bindings s1 r = Some ((n, c) # bs)"
    using kcontainer_bind_ok[OF Cons.prems(1) _ Cons.prems(3) live, of n True] Cons.prems(6,8) nc by auto
  have "room (length ncs) s1" using Cons.prems(2) s1(3) by (rule room_step) simp
  moreover have "\<forall>(n, c) \<in> set ncs. 0 < ext c \<and> c \<noteq> 0 \<and> length n < 64" using Cons.prems(6) by auto
  moreover have "fst ` set ncs \<inter> fst ` set ((n, c) # bs) = {}" using Cons.prems(7,8) nc by auto
  ultimately obtain s2 where s2: "ons_bind_all s1 r ncs = Some s2" "handle_ok ext s2" "kframe (length ncs) s1 s2"
    "bindings s2 r = Some (rev ncs @ (n, c) # bs)"
    using Cons.IH[OF s1(2) _ s1(4) Cons.prems(4,5)] Cons.prems(7) by auto
  have "kframe (Suc (length ncs)) s s2" using kframe_trans[OF s1(3) s2(3)] by simp
  then show ?case using nc s1(1) s2 by simp
qed simp

lemma ons_unref_all_ok:
  "handle_ok (gots ext cs) s \<Longrightarrow> 0 \<notin> set cs \<Longrightarrow> 0 < ext r \<Longrightarrow> r \<noteq> 0 \<Longrightarrow> bindings s r = Some bs \<Longrightarrow>
   \<exists>s'. ons_unref_all s cs = Some s' \<and> handle_ok ext s' \<and> kframe 0 s s' \<and> bindings s' r = Some bs"
proof (induction cs arbitrary: s)
  case (Cons c cs)
  have "handle_ok (got (gots ext cs) c) s" "c \<noteq> 0" using Cons.prems(1,2) by (auto simp: gots_got)
  from unref_got[OF this] obtain s1 where s1: "kobject_unref s c = Some s1" "handle_ok (gots ext cs) s1" "kframe 0 s s1"
    by blast
  have inv: "kom_inv [] (gots ext cs) s1" using s1(2) by (simp add: handle_ok_def)
  moreover have "0 < gots ext cs r" using gots_mono[of ext r cs] Cons.prems(3) by simp
  ultimately have "bindings s1 r = Some bs"
    using unref_bindings[OF s1(1) inv] ext_live[of "[]" "gots ext cs" s1 r] Cons.prems(4,5) by blast
  then obtain s2 where s2: "ons_unref_all s1 cs = Some s2" "handle_ok ext s2" "kframe 0 s1 s2" "bindings s2 r = Some bs"
    using Cons.IH[OF s1(2)] Cons.prems by auto
  have "kframe 0 s s2" using kframe_trans[OF s1(3) s2(3)] by simp
  then show ?case using s1(1) s2 by simp
qed simp

lemma typed_container: "typed ty (KContainer bs) \<Longrightarrow> ty = CONTAINER"
  by simp

lemma bindings_is_container:
  assumes "handle_ok ext s" and "0 < rc s c" and "bindings s c = Some bs"
  shows "is_container s c"
  using live_typed[of "[]" ext s c] assms by (auto simp: handle_ok_def is_container_def bindings_Some)

lemma ons_init_ok:
  assumes ok: "handle_ok ext s" and "room 11 s"
  shows "\<exists>s' r cs. ons_init s = Some s' \<and> ons_root s' = r \<and> ons_ok (got ext r) s' \<and> length cs = 5
    \<and> bindings s' r = Some (rev (zip [''devices'', ''volumes'', ''system'', ''ramdisk'', ''ipc''] cs))"
proof -
  define names where "names = [''devices'', ''volumes'', ''system'', ''ramdisk'', ''ipc'']"
  obtain s0 r where s0: "kcontainer_new s = (s0, r)" "handle_ok (got ext r) s0" "kframe 1 s s0" "r \<noteq> 0"
    "bindings s0 r = Some []" using kcontainer_new_ok[OF ok] by blast
  have "handle_ok (got ext r) (s0\<lparr>ons_root := r\<rparr>)" using s0(2) by simp
  from ons_new_containers_ok[OF this, of 5] obtain s1 cs where
    s1: "ons_new_containers 5 (s0\<lparr>ons_root := r\<rparr>) = (s1, cs)" "handle_ok (gots (got ext r) cs) s1"
      "kframe 5 (s0\<lparr>ons_root := r\<rparr>) s1" "length cs = 5" "0 \<notin> set cs" "bindings s1 r = Some []"
    using s0(5) by auto
  have rr: "0 < got ext r r" using got_pos[OF s0(4)] .
  then have r1: "0 < gots (got ext r) cs r" using gots_mono[of "got ext r" r cs] by simp
  have "room 10 s0" using assms(2) s0(3) by (rule room_step) simp
  then have "room 10 (s0\<lparr>ons_root := r\<rparr>)" by simp
  then have "room 5 s1" using s1(3) by (rule room_step) simp
  moreover have len: "length (zip names cs) = 5" using s1(4) by (simp add: names_def)
  moreover have "0 < gots (got ext r) cs c \<and> c \<noteq> 0 \<and> length n < 64" if "(n, c) \<in> set (zip names cs)" for n c
  proof -
    have nc: "n \<in> set names" "c \<in> set cs" using that by (auto dest: set_zip_leftD set_zip_rightD)
    have "c \<noteq> 0" using nc(2) s1(5) by metis
    moreover have "length n < 64" using nc(1) by (auto simp: names_def)
    ultimately show ?thesis using gots_in[OF nc(2)] by simp
  qed
  then have "\<forall>(n, c) \<in> set (zip names cs). 0 < gots (got ext r) cs c \<and> c \<noteq> 0 \<and> length n < 64" by blast
  moreover have "map fst (zip names cs) = names" using s1(4) by (simp add: names_def)
  ultimately obtain s2 where s2: "ons_bind_all s1 r (zip names cs) = Some s2" "handle_ok (gots (got ext r) cs) s2"
    "kframe 5 s1 s2" "bindings s2 r = Some (rev (zip names cs))"
    using ons_bind_all_ok[OF s1(2) _ s1(6) r1 s0(4), of "zip names cs"] by (auto simp: names_def)
  from ons_unref_all_ok[OF s2(2) s1(5) rr s0(4) s2(4)] obtain s3 where
    s3: "ons_unref_all s2 cs = Some s3" "handle_ok (got ext r) s3" "kframe 0 s2 s3"
      "bindings s3 r = Some (rev (zip names cs))" by blast
  have root: "ons_root s3 = r" using kframe_root[OF s1(3)] kframe_root[OF s2(3)] kframe_root[OF s3(3)] by simp
  have "0 < rc s3 r" using s3(2) rr s0(4) ext_live[of "[]" "got ext r" s3 r] by (simp add: handle_ok_def)
  then have "ons_ok (got ext r) s3"
    using s3(2) root s0(4) rr bindings_is_container[OF s3(2) _ s3(4)] by (simp add: ons_ok_def)
  moreover have "ons_init s = Some s3"
    using s0(1) s1(1) s2(1) s3(1) by (simp add: ons_init_def names_def)
  ultimately show ?thesis using root s3(4) s1(4) unfolding names_def by blast
qed

section \<open>Properties\<close>

text \<open>
  \<^bold>\<open>C9.\<close> Resolution follows the path. \<open>ons_resolve\<close> terminates without undefined behaviour. It
  returns null exactly when the converted path does not start with a slash, a component is not
  bound, or a component that is followed by a slash is no container. Otherwise it returns the object
  the components lead to from the root, with one new reference and no other change of the state: the
  references taken on the way are dropped again.
\<close>

theorem ons_resolve_follows_path:
  assumes "ons_ok ext s" and "room 2 s"
  shows "\<exists>s' p. ons_resolve s (Some path) = Some (s', p) \<and> ons_ok (got ext p) s' \<and>
    (case resolve_spec s path of
       None \<Rightarrow> p = 0 \<and> s' = s
     | Some q \<Rightarrow> p = q \<and> q \<noteq> 0 \<and> kobject_ref s q = Some s')"
proof -
  obtain s' p where sp: "ons_resolve s (Some path) = Some (s', p)" "ons_ok (got ext p) s'"
    using ons_resolve_ok[OF assms] by blast
  have "q \<noteq> 0" if "resolve_spec s path = Some q" for q
    using path_find_live[of ext s "ons_root s" _ _ q] root_live[OF assms(1)] assms(1) that rc_nonnull[of s q]
    by (auto simp: resolve_spec_def Let_def ons_ok_def split: if_splits)
  then show ?thesis using sp ons_resolve_exact[OF assms, of path] by (auto split: option.splits)
qed

text \<open>
  \<^bold>\<open>C14.\<close> Binding an object under a path and unbinding it is a round trip. After a successful
  \<open>ons_bind\<close> the path, which led nowhere before, resolves to the object. \<open>ons_unbind\<close> of the path then
  succeeds, and afterwards every path resolves as it did before the binding. The reference counts
  and the handle table stay consistent.
\<close>

theorem ons_bind_unbind_roundtrip:
  assumes "ons_ok ext s" and "room 6 s" and "0 < ext obj" and "obj \<noteq> 0"
    and "ons_bind mem s (Some path) obj = Some (s1, ONS_OK)"
  shows "resolve_spec s path = None \<and> ons_ok ext s1
    \<and> (\<exists>s2. ons_resolve s1 (Some path) = Some (s2, obj))
    \<and> (\<exists>s3. ons_unbind s1 (Some path) = Some (s3, ONS_OK) \<and> ons_ok ext s3
          \<and> (\<forall>q. resolve_spec s3 q = resolve_spec s q))"
proof -
  have r4: "room 4 s" using assms(2) by (rule room_mono) simp
  have s1: "ons_ok ext s1" "kframe 2 s s1" using ons_bind_ok[OF assms(1) r4 assms(3,4), of mem "Some path"] assms(5) by auto
  have r1: "room 4 s1" using assms(2) s1(2) by (rule room_step) simp
  then have r2: "room 2 s1" by (rule room_mono) simp
  from ons_bind_effect[OF assms(1) r4 assms(3-5)] obtain ns n c bs where
    b: "parent_path path = Some (ns, n)" "path_find s (ons_root s) ns False = Some c" "is_container s c"
      "bindings s c = Some bs" "map_of bs n = None" "ons_root s1 = ons_root s" "\<And>x. is_container s1 x = is_container s x"
      "\<And>x. bindings s1 x = (if x = c then Some ((n, obj) # bs) else bindings s x)" by blast
  have none: "resolve_spec s path = None"
  proof (rule ccontr)
    assume "resolve_spec s path \<noteq> None"
    then obtain q where "path_find s (ons_root s) (ns @ [n]) False = Some q" using resolve_parent_path[OF b(1), of s] by auto
    then show False using path_find_snoc_None[OF b(2) b(4,5)] by simp
  qed
  have f1: "path_find s1 (ons_root s1) ns False = Some c"
    using b(2,4-8) by (simp only: b(6)) (rule path_find_mono, auto simp: map_le_def)
  have m: "map_of ((n, obj) # bs) n = Some obj" by simp
  have c1: "is_container s1 c" "bindings s1 c = Some ((n, obj) # bs)" using b(3,7,8) by simp_all
  have "resolve_spec s1 path = Some obj"
    using path_find_snoc[OF f1 c1 m] resolve_parent_path[OF b(1), of s1] by simp
  then have res: "\<exists>s2. ons_resolve s1 (Some path) = Some (s2, obj)"
    using ons_resolve_exact[OF s1(1) r2, of path] ons_resolve_ok[OF s1(1) r2, of "Some path"] by auto
  from ons_unbind_effect[OF s1(1) r1 assms(3,4) b(1) f1 c1 m] obtain s3 where
    s3: "ons_unbind s1 (Some path) = Some (s3, ONS_OK)" "ons_ok ext s3" "ons_root s3 = ons_root s1"
      "\<And>x. is_container s3 x = is_container s1 x"
      "\<And>x. map_option map_of (bindings s3 x)
         = (if x = c then Some ((map_of ((n, obj) # bs))(n := None)) else map_option map_of (bindings s1 x))" by blast
  have "same_names s s3" unfolding same_names_def using s3(3-5) b(4-8) by (auto simp: fun_upd_idem)
  then show ?thesis using none s1(1) res s3(1,2) resolve_spec_cong by blast
qed

text \<open>The example state of the handle table with its container as the root.\<close>

definition ons_example :: kom where
  "ons_example = two_objects_ht\<lparr>ons_root := 1\<rparr>"

lemma ons_example_ok: "ons_ok ((\<lambda>_. 0)(1 := 1)) ons_example" "room 6 ons_example" "room 2 ons_example"
proof -
  have "get_obj (two_objects_ht\<lparr>ons_root := 1\<rparr>) 1 = get_obj two_objects 1"
    by (simp add: get_obj_def two_objects_ht_def)
  then show "ons_ok ((\<lambda>_. 0)(1 := 1)) ons_example"
    using two_objects_ht_ok(1) by (simp add: ons_ok_def ons_example_def is_container_def two_objects_get)
  show "room 6 ons_example" "room 2 ons_example"
    by (simp_all add: ons_example_def two_objects_ht_def) (simp_all add: room_def two_objects_rc)
qed

theorem ons_resolve_follows_path_witness:
  "\<exists>s'. ons_resolve ons_example (Some (''C:'' @ BACKSLASH # ''a'')) = Some (s', 2) \<and> kobject_ref ons_example 2 = Some s'"
proof -
  have "resolve_spec ons_example (''C:'' @ BACKSLASH # ''a'') = Some 2"
    by (simp add: resolve_spec_def convert_nt_path_def is_drive_def drive_upper_def drive_rest_def components_def
      trailing_def ons_example_def two_objects_ht_def two_objects_def bindings_def get_obj_def)
  then show ?thesis using ons_resolve_follows_path[OF ons_example_ok(1,3), of "''C:'' @ BACKSLASH # ''a''"] by auto
qed

lemma ons_example_bind:
  "\<exists>s1. ons_bind True ons_example (Some ''/b'') 1 = Some (s1, ONS_OK)"
  by (simp add: ons_bind_def ons_parent_of_def convert_nt_path_def is_drive_def split_last_def ons_example_def
    two_objects_ht_def two_objects_def kobject_ref_def get_obj_def put_obj_def kcontainer_bind_def bindings_def
    set_bindings_def kobject_unref_def)

theorem ons_bind_unbind_roundtrip_witness:
  "\<exists>s1 s2 s3. ons_bind True ons_example (Some ''/b'') 1 = Some (s1, ONS_OK)
     \<and> ons_resolve s1 (Some ''/b'') = Some (s2, 1) \<and> ons_unbind s1 (Some ''/b'') = Some (s3, ONS_OK)"
proof -
  obtain s1 where "ons_bind True ons_example (Some ''/b'') 1 = Some (s1, ONS_OK)" using ons_example_bind by blast
  then show ?thesis using ons_bind_unbind_roundtrip[OF ons_example_ok(1,2), of 1 True "''/b''" s1] by auto
qed

end
