(* ===== verification/Kchannel.thy ===== *)
theory Kchannel
  imports Handle_Table
begin

text \<open>
  Message channels, \<open>src/archs/kom/common/kchannel.cpp\<close>: two endpoints share a state with a queue of
  messages, a wait queue and a closed flag per side. An endpoint writes into the queue of its peer
  and reads from its own. The result of each \<open>kmalloc\<close> is an argument.

  \<open>read\<close> loops until a message arrives. \<open>kchannel_read\<close> is one turn of this loop, which holds the
  channel lock: \<open>Read_Blocked\<close> means that the thread has put itself into the wait queue and gives up
  the processor; it runs the next turn when it is woken.
\<close>

section \<open>Operations\<close>

definition new_channel :: channel_state where
  "new_channel = \<lparr>ch_msgs = (\<lambda>_. []), ch_wait_q = (\<lambda>_. []), ch_closed = (\<lambda>_. False), ch_ref_count = 2\<rparr>"

definition peer_id :: "nat \<Rightarrow> nat" where
  "peer_id my_id = (if my_id = 0 then 1 else 0)"

definition set_chan :: "kom \<Rightarrow> nat \<Rightarrow> channel_state option \<Rightarrow> kom" where
  "set_chan s c st = s\<lparr>chans := (chans s)[c := st]\<rparr>"

text \<open>The cast of an object pointer to an endpoint; casting another object is undefined.\<close>

definition endpoint :: "kom \<Rightarrow> oid \<Rightarrow> (nat \<times> nat) option" where
  "endpoint s p =
     (case get_obj s p of
        Some obj \<Rightarrow> (case odata obj of KEndpoint c i \<Rightarrow> Some (c, i) | _ \<Rightarrow> None)
      | None \<Rightarrow> None)"

text \<open>\<open>delete\<close> of an object that has no references of its own to drop.\<close>

definition endpoint_delete :: "kom \<Rightarrow> oid \<Rightarrow> kom option" where
  "endpoint_delete s p =
     do { obj \<leftarrow> get_obj s p;
          (s1, _) \<leftarrow> run_destructor s p obj;
          Some (s1\<lparr>objs := (objs s1)[p := None]\<rparr>) }"

definition kchannel_create :: "bool \<Rightarrow> bool \<Rightarrow> bool \<Rightarrow> kom \<Rightarrow> (kom \<times> kom_error \<times> oid \<times> oid) option" where
  "kchannel_create mem_state mem_a mem_b s =
     (if \<not> mem_state then Some (s, KOM_ERR_NO_MEMORY, 0, 0)
      else
        let c = length (chans s);
            s1 = s\<lparr>chans := chans s @ [Some new_channel]\<rparr>;
            (s2, a) = (if mem_a then kobject_new s1 CHANNEL (KEndpoint c 0) else (s1, 0));
            (s3, b) = (if mem_b then kobject_new s2 CHANNEL (KEndpoint c 1) else (s2, 0))
        in if a = 0 \<or> b = 0
           then do {
             s4 \<leftarrow> (if a \<noteq> 0 then endpoint_delete s3 a else Some s3);
             s5 \<leftarrow> (if b \<noteq> 0 then endpoint_delete s4 b else Some s4);
             Some (set_chan s5 c None, KOM_ERR_NO_MEMORY, a, b) }
           else Some (s3, KOM_OK, a, b))"

text \<open>The copy of a caller's buffer of \<open>n\<close> elements; \<open>None\<close> when it is shorter.\<close>

definition copy_in :: "'a list option \<Rightarrow> nat \<Rightarrow> 'a list option" where
  "copy_in buf n =
     (if n = 0 then Some []
      else case buf of None \<Rightarrow> None | Some xs \<Rightarrow> if n \<le> length xs then Some (take n xs) else None)"

definition kchannel_write ::
  "bool \<Rightarrow> bool \<Rightarrow> bool \<Rightarrow> kom \<Rightarrow> oid \<Rightarrow> u8 list option \<Rightarrow> u32 \<Rightarrow> handle list option \<Rightarrow> u32 \<Rightarrow> (kom \<times> kom_error) option" where
  "kchannel_write mem_msg mem_data mem_handles s p data data_size handles handle_count =
     (if 0 < data_size \<and> data = None then Some (s, KOM_ERR_INVALID_TYPE)
      else if 0 < handle_count \<and> handles = None then Some (s, KOM_ERR_INVALID_TYPE)
      else if \<not> mem_msg then Some (s, KOM_ERR_NO_MEMORY)
      else if 0 < data_size \<and> \<not> mem_data then Some (s, KOM_ERR_NO_MEMORY)
      else do {
        bytes \<leftarrow> copy_in data (unat data_size);
        if 0 < handle_count \<and> \<not> mem_handles then Some (s, KOM_ERR_NO_MEMORY)
        else do {
          hs \<leftarrow> copy_in handles (unat handle_count);
          (c, my_id) \<leftarrow> endpoint s p;
          st \<leftarrow> get_chan s c;
          let peer = peer_id my_id;
          if ch_closed st peer then Some (s, KOM_ERR_PEER_CLOSED)
          else do {
            let (waiting_peer, _, q) = wq_pop (dead s) (ch_wait_q st peer);
            let st1 = st\<lparr>ch_msgs := (ch_msgs st)(peer := ch_msgs st peer @ [\<lparr>msg_data = bytes, msg_handles = hs\<rparr>]),
                         ch_wait_q := (ch_wait_q st)(peer := q)\<rparr>;
            Some (wake (set_chan s c (Some st1)) waiting_peer, KOM_OK) } } })"

text \<open>
  What a turn of \<open>read\<close> gives the caller: the result, the values stored through \<open>data_size\<close> and
  \<open>handle_count\<close>, and the bytes and handles copied into the buffers.
\<close>

datatype read_result =
    Read_Done kom_error u32 u32 "u8 list" "handle list"
  | Read_Blocked

definition msg_size :: "kmessage \<Rightarrow> u32" where
  "msg_size m = of_nat (length (msg_data m))"

definition msg_count :: "kmessage \<Rightarrow> u32" where
  "msg_count m = of_nat (length (msg_handles m))"

definition kchannel_read ::
  "kom \<Rightarrow> oid \<Rightarrow> tid \<Rightarrow> bool \<Rightarrow> u32 option \<Rightarrow> bool \<Rightarrow> u32 option \<Rightarrow> (kom \<times> read_result) option" where
  "kchannel_read s p t data data_size handles handle_count =
     (case (data_size, handle_count) of
        (Some ds, Some hc) \<Rightarrow> do {
          (c, my_id) \<leftarrow> endpoint s p;
          st \<leftarrow> get_chan s c;
          case ch_msgs st my_id of
            msg # rest \<Rightarrow>
              if ds < msg_size msg \<or> hc < msg_count msg
              then Some (s, Read_Done KOM_ERR_BUFFER_TOO_SMALL (msg_size msg) (msg_count msg) [] [])
              else Some (set_chan s c (Some (st\<lparr>ch_msgs := (ch_msgs st)(my_id := rest)\<rparr>)),
                         Read_Done KOM_OK (msg_size msg) (msg_count msg)
                           (if data then msg_data msg else []) (if handles then msg_handles msg else []))
          | [] \<Rightarrow>
              if ch_closed st (peer_id my_id) then Some (s, Read_Done KOM_ERR_PEER_CLOSED ds hc [] [])
              else Some (set_chan s c (Some (st\<lparr>ch_wait_q := (ch_wait_q st)(my_id := wq_push (ch_wait_q st my_id) t)\<rparr>)),
                         Read_Blocked) }
      | _ \<Rightarrow> Some (s, Read_Done KOM_ERR_INVALID_TYPE 0 0 [] []))"

section \<open>New objects\<close>

lemma sum_list_zero: "(\<And>x. x \<in> set xs \<Longrightarrow> f x = 0) \<Longrightarrow> sum_list (map f xs) = (0 :: nat)"
  by (induction xs) auto

text \<open>Adding objects with one reference each, and channel states that count their endpoints.\<close>

lemma kom_inv_extend:
  fixes s :: kom and os cs
  defines "s' \<equiv> s\<lparr>objs := objs s @ os, chans := chans s @ cs\<rparr>"
  defines "n \<equiv> length (objs s)" and "m \<equiv> length (chans s)"
  assumes inv: "kom_inv w ext s"
    and new: "\<And>obj. Some obj \<in> set os \<Longrightarrow> ref_count obj = 1 \<and> typed (otype obj) (odata obj) \<and> (\<forall>q. holds (Some obj) q = 0)"
    and old: "\<And>c. c < m \<or> m + length cs \<le> c \<Longrightarrow> sum_list (map (\<lambda>ob. is_end ob c) os) = 0"
    and cnt: "\<And>c. c < length cs \<Longrightarrow>
      (case cs ! c of None \<Rightarrow> 0 | Some st \<Rightarrow> unat (ch_ref_count st)) = sum_list (map (\<lambda>ob. is_end ob (m + c)) os)"
  shows "kom_inv w (\<lambda>p. if n \<le> p \<and> p < n + length os \<and> os ! (p - n) \<noteq> None then 1 else ext p) s' \<and> kframe 1 s s'"
proof -
  have ne: "objs s \<noteq> []" using inv by (simp add: kom_inv_def)
  then have n0: "0 < n" by (simp add: n_def)
  have get: "get_obj s' p = (if n \<le> p then (if p < n + length os then os ! (p - n) else None) else get_obj s p)" for p
    using n0 by (auto simp: get_obj_def s'_def n_def nth_append)
  have fresh: "get_obj s p = None" "rc s p = 0" if "n \<le> p" for p using that by (simp_all add: get_obj_def rc_def n_def)
  have one: "ref_count obj = 1 \<and> typed (otype obj) (odata obj)" if "get_obj s' p = Some obj" "n \<le> p" for p obj
    using that new[of obj] by (auto simp: get split: if_splits) (metis add_less_cancel_left le_add_diff_inverse nth_mem)+
  have rc: "rc s' p = (if n \<le> p then (if get_obj s' p = None then 0 else 1) else rc s p)" for p
    using one[of p] get[of p] by (cases "get_obj s' p") (auto simp: rc_def)
  have z: "sum_list (map (\<lambda>ob. holds ob q) os) = 0" for q
  proof (rule sum_list_zero)
    fix ob assume "ob \<in> set os"
    then show "holds ob q = 0" using new by (cases ob rule: option.exhaust) (auto simp: holds_def)
  qed
  have h: "obj_sum (\<lambda>ob. holds ob q) s' = obj_sum (\<lambda>ob. holds ob q) s" for q
    using z[of q] by (simp add: obj_sum_def s'_def)
  have e: "obj_sum (\<lambda>ob. is_end ob c) s' = obj_sum (\<lambda>ob. is_end ob c) s + sum_list (map (\<lambda>ob. is_end ob c) os)" for c
    by (simp add: obj_sum_def s'_def)
  have e0: "ext p = 0 \<and> obj_sum (\<lambda>ob. holds ob p) s = 0 \<and> ht_refs (ht s) p = 0 \<and> count_list w (Unref p) = 0" if "n \<le> p" for p
  proof -
    have "p \<noteq> 0" using that n0 by simp
    then have "rc s p = obj_sum (\<lambda>ob. holds ob p) s + ht_refs (ht s) p + ext p + count_list w (Unref p)"
      using inv unfolding kom_inv_def ref_inv_def by blast
    then show ?thesis using fresh(2)[OF that] by simp
  qed
  have ht: "ht s' = ht s" by (simp add: s'_def)
  have "ref_inv s' w (\<lambda>p. if n \<le> p \<and> p < n + length os \<and> os ! (p - n) \<noteq> None then 1 else ext p)"
    unfolding ref_inv_def rc h ht
  proof (intro allI impI)
    fix p :: oid
    assume p: "p \<noteq> 0"
    show "(if n \<le> p then if get_obj s' p = None then 0 else 1 else rc s p)
      = obj_sum (\<lambda>ob. holds ob p) s + ht_refs (ht s) p
        + (if n \<le> p \<and> p < n + length os \<and> os ! (p - n) \<noteq> None then 1 else ext p) + count_list w (Unref p)"
    proof (cases "n \<le> p")
      case True
      then show ?thesis using e0[OF True] get[of p] by simp
    next
      case False
      then show ?thesis using inv p by (simp add: kom_inv_def ref_inv_def)
    qed
  qed
  moreover have "chan_inv s'"
    unfolding chan_inv_def e
  proof
    fix c
    have o: "chan_refs s c = obj_sum (\<lambda>ob. is_end ob c) s" using inv by (simp add: kom_inv_def chan_inv_def)
    show "chan_refs s' c = obj_sum (\<lambda>ob. is_end ob c) s + sum_list (map (\<lambda>ob. is_end ob c) os)"
    proof (cases "c < m")
      case True
      then have "chan_refs s' c = chan_refs s c" by (simp add: chan_refs_def get_chan_def s'_def m_def nth_append)
      then show ?thesis using o old[of c] True by simp
    next
      case False
      then have s0: "obj_sum (\<lambda>ob. is_end ob c) s = 0" using o by (simp add: chan_refs_def get_chan_def m_def)
      show ?thesis
      proof (cases "c - m < length cs")
        case True
        have "c < length (chans s) + length cs" using True False unfolding m_def by linarith
        then have "chan_refs s' c = (case cs ! (c - m) of None \<Rightarrow> 0 | Some st \<Rightarrow> unat (ch_ref_count st))"
          using False by (simp add: chan_refs_def get_chan_def s'_def m_def nth_append)
        then show ?thesis using cnt[OF True] s0 False by simp
      next
        case f: False
        have "\<not> c < length (chans s) + length cs" using f False unfolding m_def by linarith
        then have "chan_refs s' c = 0" using False by (simp add: chan_refs_def get_chan_def s'_def m_def)
        then show ?thesis using s0 old[of c] f False by simp
      qed
    qed
  qed
  moreover have "obj_inv s'"
    unfolding obj_inv_def
  proof (intro allI impI)
    fix p obj
    assume g: "get_obj s' p = Some obj"
    show "if ref_count obj = 0 then odata obj = KDestroyed else typed (otype obj) (odata obj)"
    proof (cases "n \<le> p")
      case True
      then show ?thesis using one[OF g] by simp
    next
      case False
      then show ?thesis using g get inv by (simp add: kom_inv_def obj_inv_def)
    qed
  qed
  moreover have "free_inv s' w"
    unfolding free_inv_def
  proof
    fix p
    show "count_list w (Free p) = (case get_obj s' p of None \<Rightarrow> 0 | Some obj \<Rightarrow> if ref_count obj = 0 then 1 else 0)"
    proof (cases "n \<le> p")
      case True
      then have "count_list w (Free p) = 0" using inv fresh(1)[OF True] by (simp add: kom_inv_def free_inv_def)
      then show ?thesis using one[OF _ True] by (cases "get_obj s' p") auto
    next
      case False
      then show ?thesis using inv get by (simp add: kom_inv_def free_inv_def)
    qed
  qed
  moreover have "objs s' \<noteq> []" using ne by (simp add: s'_def)
  moreover have "kframe 1 s s'" unfolding kframe_def kom_le_def
    using get rc by (auto simp: s'_def n_def)
  ultimately show ?thesis by (simp add: kom_inv_def)
qed

section \<open>Creating a channel\<close>

lemma wake_None [simp]: "wake s None = s"
  by (simp add: wake_def)

text \<open>When an endpoint could not be allocated, everything is undone but the used-up indices.\<close>

lemma kchannel_create_failed:
  assumes "objs s \<noteq> []" and "\<not> (mem_a \<and> mem_b)"
  shows "\<exists>a b. kchannel_create True mem_a mem_b s =
    Some (s\<lparr>objs := objs s @ (if mem_a \<or> mem_b then [None] else []), chans := chans s @ [None]\<rparr>, KOM_ERR_NO_MEMORY, a, b)"
proof -
  have "length (objs s) \<noteq> 0" using assms(1) by simp
  then show ?thesis using assms(2)
    by (cases mem_a; cases mem_b)
      (simp_all add: kchannel_create_def kobject_new_def Let_def endpoint_delete_def get_obj_def nth_append
        run_destructor_def put_obj_def endpoint_destroy_def get_chan_def new_channel_def set_chan_def)
qed

lemma kchannel_create_ok:
  assumes ok: "handle_ok ext s"
  shows "\<exists>s' e a b. kchannel_create mem_state mem_a mem_b s = Some (s', e, a, b) \<and> kframe 1 s s' \<and> ht s' = ht s \<and>
    (if mem_state \<and> mem_a \<and> mem_b
     then e = KOM_OK \<and> a \<noteq> b \<and> a \<noteq> 0 \<and> b \<noteq> 0 \<and> ext a = 0 \<and> ext b = 0 \<and> handle_ok (ext(a := 1, b := 1)) s'
       \<and> (\<exists>c. endpoint s' a = Some (c, 0) \<and> endpoint s' b = Some (c, 1) \<and> get_chan s' c = Some new_channel)
     else e = KOM_ERR_NO_MEMORY \<and> handle_ok ext s')"
proof -
  have inv: "kom_inv [] ext s" and hi: "ht_inv (ht s)" using ok by (simp_all add: handle_ok_def)
  have ne: "objs s \<noteq> []" using inv by (simp add: kom_inv_def)
  let ?n = "length (objs s)" and ?c = "length (chans s)"
  consider "\<not> mem_state" | "mem_state" "\<not> (mem_a \<and> mem_b)" | "mem_state" "mem_a" "mem_b" by blast
  then show ?thesis
  proof cases
    case 1
    then show ?thesis using ok by (simp add: kchannel_create_def)
  next
    case 2
    let ?os = "if mem_a \<or> mem_b then [None :: kobject option] else []"
    obtain a b where r: "kchannel_create mem_state mem_a mem_b s
        = Some (s\<lparr>objs := objs s @ ?os, chans := chans s @ [None]\<rparr>, KOM_ERR_NO_MEMORY, a, b)"
      using kchannel_create_failed[OF ne 2(2)] 2(1) by auto
    have z: "sum_list (map (\<lambda>ob. is_end ob c) ?os) = 0" for c by (simp add: is_end_def)
    have "kom_inv [] (\<lambda>p. if ?n \<le> p \<and> p < ?n + length ?os \<and> ?os ! (p - ?n) \<noteq> None then 1 else ext p)
        (s\<lparr>objs := objs s @ ?os, chans := chans s @ [None]\<rparr>) \<and>
      kframe 1 s (s\<lparr>objs := objs s @ ?os, chans := chans s @ [None]\<rparr>)"
      by (rule kom_inv_extend[OF inv]) (auto simp: is_end_def split: if_splits)
    moreover have "(\<lambda>p. if ?n \<le> p \<and> p < ?n + length ?os \<and> ?os ! (p - ?n) \<noteq> None then 1 else ext p) = ext"
      by (auto simp: fun_eq_iff split: if_splits)
    ultimately have "kom_inv [] ext (s\<lparr>objs := objs s @ ?os, chans := chans s @ [None]\<rparr>)
      \<and> kframe 1 s (s\<lparr>objs := objs s @ ?os, chans := chans s @ [None]\<rparr>)" by (simp only:)
    then show ?thesis using r 2 hi by (simp add: handle_ok_def)
  next
    case 3
    let ?os = "[Some \<lparr>otype = CHANNEL, ref_count = 1, odata = KEndpoint ?c 0\<rparr>,
                Some \<lparr>otype = CHANNEL, ref_count = 1, odata = KEndpoint ?c 1\<rparr>]"
    let ?s = "s\<lparr>objs := objs s @ ?os, chans := chans s @ [Some new_channel]\<rparr>"
    have r: "kchannel_create mem_state mem_a mem_b s = Some (?s, KOM_OK, ?n, Suc ?n)"
      using 3 ne by (simp add: kchannel_create_def kobject_new_def Let_def)
    have k: "kom_inv [] (\<lambda>p. if ?n \<le> p \<and> p < ?n + length ?os \<and> ?os ! (p - ?n) \<noteq> None then 1 else ext p) ?s \<and> kframe 1 s ?s"
      by (rule kom_inv_extend[OF inv]) (auto simp: is_end_def holds_def new_channel_def)
    have x: "(\<lambda>p. if ?n \<le> p \<and> p < ?n + length ?os \<and> ?os ! (p - ?n) \<noteq> None then 1 else ext p) = ext(?n := 1, Suc ?n := 1)"
      by (auto simp: fun_eq_iff le_less nth_Cons split: nat.splits)
    have e0: "ext p = 0" if "?n \<le> p" for p
    proof -
      have "0 < ?n" using ne by simp
      then have "p \<noteq> 0" "rc s p = 0" using that by (linarith, simp add: rc_def get_obj_def)
      then show ?thesis using ext_live[OF inv, of p] by auto
    qed
    have "kom_inv [] (ext(?n := 1, Suc ?n := 1)) ?s" "kframe 1 s ?s" using k unfolding x by simp_all
    moreover have "endpoint ?s ?n = Some (?c, 0)" "endpoint ?s (Suc ?n) = Some (?c, 1)" "get_chan ?s ?c = Some new_channel"
      using ne by (simp_all add: endpoint_def get_obj_def get_chan_def nth_append)
    ultimately show ?thesis using r 3 hi ne e0[of ?n] e0[of "Suc ?n"] by (auto simp: handle_ok_def)
  qed
qed

section \<open>Messages\<close>

lemma peer_id_le [simp]: "peer_id i \<le> 1"
  by (simp add: peer_id_def)

lemma peer_peer [simp]: "i \<le> 1 \<Longrightarrow> peer_id (peer_id i) = i"
  by (auto simp: peer_id_def)

lemma peer_neq [simp]: "peer_id i \<noteq> i" "i \<noteq> peer_id i"
  by (auto simp: peer_id_def)

lemma get_chan_valid: "get_chan s c = Some st \<Longrightarrow> c < length (chans s) \<and> chans s ! c = Some st"
  by (auto simp: get_chan_def split: if_splits)

lemma set_chan_simps [simp]:
  "objs (set_chan s c x) = objs s" "ht (set_chan s c x) = ht s" "ons_root (set_chan s c x) = ons_root s"
  "dead (set_chan s c x) = dead s" "woken (set_chan s c x) = woken s" "get_obj (set_chan s c x) p = get_obj s p"
  "rc (set_chan s c x) p = rc s p" "endpoint (set_chan s c x) p = endpoint s p" "obj_sum f (set_chan s c x) = obj_sum f s"
  by (simp_all add: set_chan_def get_obj_def rc_def endpoint_def obj_sum_def)

lemma endpoint_wake [simp]: "endpoint (wake s r) p = endpoint s p"
  by (simp add: endpoint_def)

lemma get_set_chan:
  "get_chan s c = Some st \<Longrightarrow> get_chan (set_chan s c x) d = (if d = c then x else get_chan s d)"
  by (auto simp: get_chan_def set_chan_def nth_list_update split: if_splits)

lemma handle_ok_same:
  assumes "handle_ok ext s" and "objs s' = objs s" and "ht s' = ht s" and "\<And>c. chan_refs s' c = chan_refs s c"
  shows "handle_ok ext s'"
proof -
  have same: "get_obj s' = get_obj s" "rc s' = rc s" "obj_sum f s' = obj_sum f s" for f
    using assms(2) by (simp_all add: fun_eq_iff get_obj_def rc_def obj_sum_def)
  show ?thesis using assms(1)
    unfolding handle_ok_def kom_inv_def ref_inv_def chan_inv_def obj_inv_def free_inv_def same assms(2-4) by simp
qed

lemma kframe_same:
  "objs s' = objs s \<Longrightarrow> ons_root s' = ons_root s \<Longrightarrow> dead s' = dead s \<Longrightarrow> kframe 0 s s'"
  by (simp add: kframe_def kom_le_def rc_def get_obj_def)

lemma handle_ok_wake [simp]: "handle_ok ext (wake s r) = handle_ok ext s"
  using handle_ok_same[of ext s "wake s r"] handle_ok_same[of ext "wake s r" s] by auto

lemma set_chan_ok:
  assumes "handle_ok ext s" and "get_chan s c = Some st" and "ch_ref_count st' = ch_ref_count st"
  shows "handle_ok ext (set_chan s c (Some st'))"
  using assms by (intro handle_ok_same[OF assms(1)]) (auto simp: chan_refs_def get_set_chan)

lemma endpoint_chan:
  assumes "handle_ok ext s" and "endpoint s p = Some (c, i)" and "0 < rc s p"
  shows "i \<le> 1 \<and> (\<exists>st. get_chan s c = Some st)"
proof -
  have inv: "kom_inv [] ext s" using assms(1) by (simp add: handle_ok_def)
  obtain obj where obj: "get_obj s p = Some obj" "odata obj = KEndpoint c i"
    using assms(2) by (auto simp: endpoint_def split: option.splits kdata.splits)
  have "0 < obj_sum (\<lambda>ob. is_end ob c) s"
    using obj_sum_ge[OF obj(1), of "\<lambda>ob. is_end ob c"] obj(2) by (simp add: is_end_def)
  then have "0 < chan_refs s c" using inv by (simp add: kom_inv_def chan_inv_def)
  then show ?thesis using live_typed[OF inv assms(3)] obj by (auto simp: chan_refs_def split: option.splits)
qed

text \<open>The effect of \<open>write\<close> on every branch.\<close>

definition write_spec ::
  "bool \<Rightarrow> bool \<Rightarrow> bool \<Rightarrow> channel_state \<Rightarrow> nat \<Rightarrow> u8 list option \<Rightarrow> u32 \<Rightarrow> handle list option \<Rightarrow> u32 \<Rightarrow> kom_error" where
  "write_spec m1 m2 m3 st i data ds handles hc =
     (if ds \<noteq> 0 \<and> data = None \<or> hc \<noteq> 0 \<and> handles = None then KOM_ERR_INVALID_TYPE
      else if \<not> m1 \<or> ds \<noteq> 0 \<and> \<not> m2 \<or> hc \<noteq> 0 \<and> \<not> m3 then KOM_ERR_NO_MEMORY
      else if ch_closed st (peer_id i) then KOM_ERR_PEER_CLOSED else KOM_OK)"

definition fits :: "'a list option \<Rightarrow> u32 \<Rightarrow> bool" where
  "fits buf n \<longleftrightarrow> (case buf of None \<Rightarrow> True | Some xs \<Rightarrow> unat n \<le> length xs)"

lemma copy_in_fits: "fits buf n \<Longrightarrow> n = 0 \<or> buf \<noteq> None \<Longrightarrow> copy_in buf (unat n) = Some (take (unat n) (case buf of None \<Rightarrow> [] | Some xs \<Rightarrow> xs))"
  by (auto simp: copy_in_def fits_def unat_eq_zero split: option.splits)

definition delivered :: "channel_state \<Rightarrow> nat \<Rightarrow> kmessage \<Rightarrow> tid list \<Rightarrow> channel_state" where
  "delivered st i m q = st\<lparr>ch_msgs := (ch_msgs st)(peer_id i := ch_msgs st (peer_id i) @ [m]),
                          ch_wait_q := (ch_wait_q st)(peer_id i := q)\<rparr>"

lemma kchannel_write_exact:
  assumes "endpoint s p = Some (c, i)" and "get_chan s c = Some st" and "fits data ds" and "fits handles hc"
  shows "kchannel_write m1 m2 m3 s p data ds handles hc =
    Some (if write_spec m1 m2 m3 st i data ds handles hc = KOM_OK
          then (case wq_pop (dead s) (ch_wait_q st (peer_id i)) of (r, _, q) \<Rightarrow>
                 wake (set_chan s c (Some (delivered st i
                   \<lparr>msg_data = take (unat ds) (case data of None \<Rightarrow> [] | Some xs \<Rightarrow> xs),
                    msg_handles = take (unat hc) (case handles of None \<Rightarrow> [] | Some xs \<Rightarrow> xs)\<rparr> q))) r)
          else s,
          write_spec m1 m2 m3 st i data ds handles hc)"
  using assms copy_in_fits[OF assms(3)] copy_in_fits[OF assms(4)]
  by (auto simp: kchannel_write_def write_spec_def delivered_def word_gt_0 Let_def split: prod.splits)

lemma kchannel_write_ok:
  assumes "handle_ok ext s" and "endpoint s p = Some (c, i)" and "0 < rc s p" and "fits data ds" and "fits handles hc"
  shows "\<exists>s' e. kchannel_write m1 m2 m3 s p data ds handles hc = Some (s', e) \<and> handle_ok ext s' \<and> kframe 0 s s'
    \<and> (\<forall>q. rc s' q = rc s q)"
proof -
  obtain st where st: "get_chan s c = Some st" using endpoint_chan[OF assms(1-3)] by blast
  have ok: "handle_ok ext (set_chan s c (Some (delivered st i m q)))" for m q
    using set_chan_ok[OF assms(1) st] by (simp add: delivered_def)
  show ?thesis unfolding kchannel_write_exact[OF assms(2) st assms(4,5)]
    using ok assms(1) by (auto simp: kframe_same split: prod.splits)
qed

lemma kchannel_read_ok:
  assumes "handle_ok ext s" and "endpoint s p = Some (c, i)" and "0 < rc s p"
  shows "\<exists>s' r. kchannel_read s p t data ds handles hc = Some (s', r) \<and> handle_ok ext s' \<and> kframe 0 s s'
    \<and> (\<forall>q. rc s' q = rc s q)"
proof -
  obtain st where st: "get_chan s c = Some st" using endpoint_chan[OF assms] by blast
  then show ?thesis using assms set_chan_ok[OF assms(1) st]
    by (cases ds; cases hc; cases "ch_msgs st i") (auto simp: kchannel_read_def kframe_same)
qed

section \<open>Properties\<close>

text \<open>Sending a list of messages through an endpoint, and receiving \<open>n\<close> messages at an endpoint.\<close>

fun send_all :: "kom \<Rightarrow> oid \<Rightarrow> kmessage list \<Rightarrow> kom option" where
  "send_all s p [] = Some s"
| "send_all s p (m # ms) =
     (case kchannel_write True True True s p (Some (msg_data m)) (msg_size m) (Some (msg_handles m)) (msg_count m) of
        Some (s1, KOM_OK) \<Rightarrow> send_all s1 p ms
      | _ \<Rightarrow> None)"

fun receive_n :: "nat \<Rightarrow> kom \<Rightarrow> oid \<Rightarrow> tid \<Rightarrow> (kom \<times> kmessage list) option" where
  "receive_n 0 s p t = Some (s, [])"
| "receive_n (Suc n) s p t =
     (case kchannel_read s p t True (Some (- 1)) True (Some (- 1)) of
        Some (s1, Read_Done KOM_OK ds hc bytes hs) \<Rightarrow>
          map_option (\<lambda>(s2, ms). (s2, \<lparr>msg_data = bytes, msg_handles = hs\<rparr> # ms)) (receive_n n s1 p t)
      | _ \<Rightarrow> None)"

definition small :: "kmessage \<Rightarrow> bool" where
  "small m \<longleftrightarrow> length (msg_data m) < 2 ^ 32 \<and> length (msg_handles m) < 2 ^ 32"

lemma small_sizes: "small m \<Longrightarrow> unat (msg_size m) = length (msg_data m) \<and> unat (msg_count m) = length (msg_handles m)"
  by (simp add: small_def msg_size_def msg_count_def unat_of_nat)

lemma kmessage_eta [simp]: "\<lparr>msg_data = msg_data m, msg_handles = msg_handles m\<rparr> = m"
  by (cases m) simp

lemma send_all_ok:
  "handle_ok ext s \<Longrightarrow> endpoint s p = Some (c, i) \<Longrightarrow> get_chan s c = Some st \<Longrightarrow> \<not> ch_closed st (peer_id i) \<Longrightarrow>
   \<forall>m \<in> set ms. small m \<Longrightarrow>
   \<exists>s' st'. send_all s p ms = Some s' \<and> handle_ok ext s' \<and> objs s' = objs s \<and> get_chan s' c = Some st'
     \<and> ch_msgs st' = (ch_msgs st)(peer_id i := ch_msgs st (peer_id i) @ ms) \<and> ch_closed st' = ch_closed st"
proof (induction ms arbitrary: s st)
  case (Cons m ms)
  have sz: "unat (msg_size m) = length (msg_data m)" "unat (msg_count m) = length (msg_handles m)"
    using Cons.prems(5) small_sizes[of m] by simp_all
  obtain r k q where q: "wq_pop (dead s) (ch_wait_q st (peer_id i)) = (r, k, q)" by (metis prod_cases3)
  let ?s1 = "wake (set_chan s c (Some (delivered st i m q))) r"
  have w: "kchannel_write True True True s p (Some (msg_data m)) (msg_size m) (Some (msg_handles m)) (msg_count m) = Some (?s1, KOM_OK)"
    using kchannel_write_exact[OF Cons.prems(2,3), of "Some (msg_data m)" "msg_size m" "Some (msg_handles m)" "msg_count m" True True True]
      Cons.prems(4) q sz by (simp add: fits_def write_spec_def)
  have 1: "handle_ok ext ?s1" using set_chan_ok[OF Cons.prems(1,3)] by (simp add: delivered_def)
  have 2: "endpoint ?s1 p = Some (c, i)" "get_chan ?s1 c = Some (delivered st i m q)"
    using Cons.prems(2,3) by (simp_all add: get_set_chan)
  have 3: "\<not> ch_closed (delivered st i m q) (peer_id i)" using Cons.prems(4) by (simp add: delivered_def)
  have 4: "\<forall>m \<in> set ms. small m" using Cons.prems(5) by simp
  from Cons.IH[OF 1 2 3 4] obtain s' st' where s': "send_all ?s1 p ms = Some s'" "handle_ok ext s'" "objs s' = objs ?s1"
    "get_chan s' c = Some st'" "ch_msgs st' = (ch_msgs (delivered st i m q))(peer_id i := ch_msgs (delivered st i m q) (peer_id i) @ ms)"
    "ch_closed st' = ch_closed (delivered st i m q)" by blast
  then show ?case using w by (auto simp: delivered_def)
qed simp

lemma receive_n_ok:
  "endpoint s p = Some (c, i) \<Longrightarrow> get_chan s c = Some st \<Longrightarrow> ch_msgs st i = ms @ rest \<Longrightarrow> handle_ok ext s \<Longrightarrow>
   \<exists>s' st'. receive_n (length ms) s p t = Some (s', ms) \<and> get_chan s' c = Some st' \<and> ch_msgs st' = (ch_msgs st)(i := rest)
     \<and> handle_ok ext s'"
proof (induction ms arbitrary: s st)
  case Nil
  then show ?case by (auto simp: fun_upd_idem)
next
  case (Cons m ms)
  let ?st = "st\<lparr>ch_msgs := (ch_msgs st)(i := ms @ rest)\<rparr>"
  have big: "\<not> (- 1 :: u32) < x" for x by (simp add: not_less)
  have r: "kchannel_read s p t True (Some (- 1)) True (Some (- 1))
      = Some (set_chan s c (Some ?st), Read_Done KOM_OK (msg_size m) (msg_count m) (msg_data m) (msg_handles m))"
    using Cons.prems big by (simp add: kchannel_read_def)
  have h: "handle_ok ext (set_chan s c (Some ?st))" using set_chan_ok[OF Cons.prems(4,2)] by simp
  have "endpoint (set_chan s c (Some ?st)) p = Some (c, i)" "get_chan (set_chan s c (Some ?st)) c = Some ?st"
    "ch_msgs ?st i = ms @ rest" using Cons.prems by (simp_all add: get_set_chan)
  from Cons.IH[OF this h] obtain s' st' where
    "receive_n (length ms) (set_chan s c (Some ?st)) p t = Some (s', ms)" "get_chan s' c = Some st'"
    "ch_msgs st' = (ch_msgs ?st)(i := rest)" "handle_ok ext s'" by blast
  then show ?case using r by (auto simp: fun_eq_iff)
qed

text \<open>
  \<^bold>\<open>C15.\<close> A channel is a FIFO queue in each direction. Messages written at one endpoint while the
  peer is open are all accepted. When the queue of the other endpoint was empty, reading there as
  often as was written returns exactly these messages, bytes and handles, in the order of writing.
  The queue is then empty again, the opposite direction is untouched and the object model stays consistent.
\<close>

theorem channel_fifo:
  assumes "handle_ok ext s" and "endpoint s a = Some (c, i)" and "endpoint s b = Some (c, peer_id i)"
    and "get_chan s c = Some st" and "\<not> ch_closed st (peer_id i)" and "ch_msgs st (peer_id i) = []"
    and "\<forall>m \<in> set ms. small m"
  shows "\<exists>s1 s2 st2. send_all s a ms = Some s1 \<and> receive_n (length ms) s1 b t = Some (s2, ms)
    \<and> get_chan s2 c = Some st2 \<and> ch_msgs st2 = ch_msgs st \<and> handle_ok ext s2"
proof -
  from send_all_ok[OF assms(1,2,4,5,7)] obtain s1 st1 where
    s1: "send_all s a ms = Some s1" "handle_ok ext s1" "objs s1 = objs s" "get_chan s1 c = Some st1"
      "ch_msgs st1 = (ch_msgs st)(peer_id i := ms)" using assms(6) by auto
  have "endpoint s1 b = endpoint s b" using s1(3) by (simp add: endpoint_def get_obj_def)
  then have e: "endpoint s1 b = Some (c, peer_id i)" using assms(3) by simp
  from receive_n_ok[OF e s1(4) _ s1(2), of ms "[]" t] s1(5) obtain s2 st2 where
    "receive_n (length ms) s1 b t = Some (s2, ms)" "get_chan s2 c = Some st2"
    "ch_msgs st2 = (ch_msgs st)(peer_id i := [])" "handle_ok ext s2" by auto
  moreover have "(ch_msgs st)(peer_id i := []) = ch_msgs st" using assms(6) by (auto simp: fun_eq_iff)
  ultimately show ?thesis using s1(1) by metis
qed


lemma channel_example:
  "\<exists>s a b c. kchannel_create True True True two_objects_ht = Some (s, KOM_OK, a, b)
     \<and> handle_ok ((\<lambda>_. 0)(1 := 1, a := 1, b := 1)) s \<and> endpoint s a = Some (c, 0) \<and> endpoint s b = Some (c, 1)
     \<and> get_chan s c = Some new_channel \<and> dead s = (\<lambda>_. False) \<and> woken s = []"
proof -
  from kchannel_create_ok[OF two_objects_ht_ok(1), of True True True] obtain s a b c where
    s: "kchannel_create True True True two_objects_ht = Some (s, KOM_OK, a, b)" "kframe 1 two_objects_ht s"
      "handle_ok ((\<lambda>_. 0)(1 := 1, a := 1, b := 1)) s" "endpoint s a = Some (c, 0)" "endpoint s b = Some (c, 1)"
      "get_chan s c = Some new_channel" by auto
  have "dead s = (\<lambda>_. False)" using s(2) by (simp add: kframe_def kom_le_def two_objects_ht_def two_objects_def)
  moreover have "woken s = []"
    using s(1) by (auto simp: kchannel_create_def kobject_new_def Let_def two_objects_ht_def two_objects_def)
  ultimately show ?thesis using s by blast
qed

theorem channel_fifo_witness:
  "\<exists>s a b s1 s2. kchannel_create True True True two_objects_ht = Some (s, KOM_OK, a, b)
     \<and> send_all s a [\<lparr>msg_data = [1, 2], msg_handles = [7]\<rparr>, \<lparr>msg_data = [], msg_handles = []\<rparr>] = Some s1
     \<and> receive_n 2 s1 b 5 = Some (s2, [\<lparr>msg_data = [1, 2], msg_handles = [7]\<rparr>, \<lparr>msg_data = [], msg_handles = []\<rparr>])"
proof -
  obtain s a b c where s: "kchannel_create True True True two_objects_ht = Some (s, KOM_OK, a, b)"
    "handle_ok ((\<lambda>_. 0)(1 := 1, a := 1, b := 1)) s" "endpoint s a = Some (c, 0)" "endpoint s b = Some (c, 1)"
    "get_chan s c = Some new_channel" using channel_example by blast
  have "endpoint s b = Some (c, peer_id 0)" using s(4) by (simp add: peer_id_def)
  let ?ms = "[\<lparr>msg_data = [1, 2], msg_handles = [7]\<rparr>, \<lparr>msg_data = [], msg_handles = []\<rparr>] :: kmessage list"
  have "\<not> ch_closed new_channel (peer_id 0)" "ch_msgs new_channel (peer_id 0) = []" "\<forall>m \<in> set ?ms. small m"
    by (simp_all add: new_channel_def small_def)
  from channel_fifo[OF s(2,3) \<open>endpoint s b = Some (c, peer_id 0)\<close> s(5) this, of 5] obtain s1 s2 where
    "send_all s a ?ms = Some s1" "receive_n (length ?ms) s1 b 5 = Some (s2, ?ms)" by blast
  moreover have "length ?ms = 2" by simp
  ultimately show ?thesis using s(1) by metis
qed


end
