(* ===== verification/Kport.thy ===== *)
theory Kport
  imports Kchannel
begin

text \<open>
  Ports, \<open>src/archs/kom/common/kport.cpp\<close>: a queue of packets with a wait queue. As with channels,
  \<open>kport_wait\<close> is one turn of the loop of \<open>wait\<close>, which holds the lock of the port.
\<close>

section \<open>Operations\<close>

definition kport_new :: "kom \<Rightarrow> kom \<times> oid" where
  "kport_new s = kobject_new s PORT (KPort [] [])"

definition port_of :: "kom \<Rightarrow> oid \<Rightarrow> (port_packet list \<times> tid list) option" where
  "port_of s p =
     (case get_obj s p of
        Some obj \<Rightarrow> (case odata obj of KPort pkts q \<Rightarrow> Some (pkts, q) | _ \<Rightarrow> None)
      | None \<Rightarrow> None)"

definition set_port :: "kom \<Rightarrow> oid \<Rightarrow> port_packet list \<Rightarrow> tid list \<Rightarrow> kom option" where
  "set_port s p pkts q = do { obj \<leftarrow> get_obj s p; Some (put_obj s p (obj\<lparr>odata := KPort pkts q\<rparr>)) }"

definition kport_queue :: "bool \<Rightarrow> kom \<Rightarrow> oid \<Rightarrow> port_packet option \<Rightarrow> (kom \<times> kom_error) option" where
  "kport_queue mem s p packet =
     (case packet of
        None \<Rightarrow> Some (s, KOM_ERR_INVALID_TYPE)
      | Some pkt \<Rightarrow>
          if \<not> mem then Some (s, KOM_ERR_NO_MEMORY)
          else do {
            (pkts, q) \<leftarrow> port_of s p;
            let (waiter, _, q1) = wq_pop (dead s) q;
            s1 \<leftarrow> set_port s p (pkts @ [pkt]) q1;
            Some (wake s1 waiter, KOM_OK) })"

datatype wait_result = Wait_Done kom_error "port_packet option" | Wait_Blocked

definition kport_wait :: "kom \<Rightarrow> oid \<Rightarrow> tid \<Rightarrow> bool \<Rightarrow> (kom \<times> wait_result) option" where
  "kport_wait s p t out_packet =
     (if \<not> out_packet then Some (s, Wait_Done KOM_ERR_INVALID_TYPE None)
      else do {
        (pkts, q) \<leftarrow> port_of s p;
        case pkts of
          pkt # rest \<Rightarrow> do { s1 \<leftarrow> set_port s p rest q; Some (s1, Wait_Done KOM_OK (Some pkt)) }
        | [] \<Rightarrow> do { s1 \<leftarrow> set_port s p [] (wq_push q t); Some (s1, Wait_Blocked) } })"

section \<open>Lemmas\<close>

lemma port_of_Some:
  "port_of s p = Some (pkts, q) \<longleftrightarrow> (\<exists>obj. get_obj s p = Some obj \<and> odata obj = KPort pkts q)"
  by (auto simp: port_of_def split: option.splits kdata.splits)

lemma set_port_ok:
  assumes ok: "handle_ok ext s" and "port_of s p = Some (pkts, q)"
  shows "\<exists>s'. set_port s p pkts' q' = Some s' \<and> handle_ok ext s' \<and> kframe 0 s s' \<and> rc s' = rc s
    \<and> port_of s' p = Some (pkts', q') \<and> dead s' = dead s \<and> woken s' = woken s"
proof -
  obtain obj where obj: "get_obj s p = Some obj" "odata obj = KPort pkts q" using assms(2) port_of_Some by blast
  let ?obj = "obj\<lparr>odata := KPort pkts' q'\<rparr>"
  let ?s = "put_obj s p ?obj"
  have inv: "kom_inv [] ext s" using ok by (simp add: handle_ok_def)
  have rc: "rc ?s = rc s" using obj(1) by (simp add: fun_eq_iff rc_def get_put_obj)
  have h: "obj_sum (\<lambda>ob. holds ob x) ?s = obj_sum (\<lambda>ob. holds ob x) s" for x
    using obj by (intro obj_sum_same[OF obj(1)]) (simp add: holds_def)
  have e: "obj_sum (\<lambda>ob. is_end ob d) ?s = obj_sum (\<lambda>ob. is_end ob d) s" for d
    using obj by (intro obj_sum_same[OF obj(1)]) (simp add: is_end_def)
  have "if ref_count obj = 0 then odata obj = KDestroyed else typed (otype obj) (odata obj)"
    using inv obj(1) unfolding kom_inv_def obj_inv_def by blast
  then have live: "ref_count obj \<noteq> 0 \<and> otype obj = PORT" using obj(2) by (simp split: if_splits)
  have "ref_inv ?s [] ext" using inv unfolding kom_inv_def ref_inv_def rc h by simp
  moreover have "chan_inv ?s" using inv unfolding kom_inv_def chan_inv_def e by simp
  moreover have "obj_inv ?s"
    using inv obj live unfolding kom_inv_def obj_inv_def by (auto simp: get_put_obj)
  moreover have "free_inv ?s []" using inv obj(1) live unfolding kom_inv_def free_inv_def by (simp add: get_put_obj)
  ultimately have "kom_inv [] ext ?s" using inv by (simp add: kom_inv_def)
  moreover have "kframe 0 s ?s" using rc kom_le_put[OF obj(1), of ?obj] by (simp add: kframe_def)
  ultimately show ?thesis using obj(1) rc ok
    by (auto simp: set_port_def port_of_def get_put_obj handle_ok_def)
qed

lemma port_of_wake [simp]: "port_of (wake s r) p = port_of s p"
  by (simp add: port_of_def)

lemma kframe_wake [simp]: "kframe k s (wake t r) = kframe k s t"
  by (simp add: kframe_def kom_le_def)

lemma kport_queue_ok:
  assumes "handle_ok ext s" and "port_of s p = Some (pkts, q)"
  shows "\<exists>s' e. kport_queue mem s p packet = Some (s', e) \<and> handle_ok ext s' \<and> kframe 0 s s' \<and> rc s' = rc s \<and>
    (if packet = None then e = KOM_ERR_INVALID_TYPE \<and> s' = s
     else if \<not> mem then e = KOM_ERR_NO_MEMORY \<and> s' = s
     else e = KOM_OK \<and> port_of s' p = Some (pkts @ [the packet], snd (snd (wq_pop (dead s) q)))
       \<and> dead s' = dead s \<and> woken s' = woken s @ (case fst (wq_pop (dead s) q) of None \<Rightarrow> [] | Some t \<Rightarrow> [t]))"
proof (cases "packet = None \<or> \<not> mem")
  case True
  then show ?thesis using assms(1) by (cases packet) (simp_all add: kport_queue_def)
next
  case False
  then obtain pkt where pkt: "packet = Some pkt" "mem" by auto
  obtain r k q1 where pop: "wq_pop (dead s) q = (r, k, q1)" by (metis prod_cases3)
  from set_port_ok[OF assms, of "pkts @ [pkt]" q1] obtain s1 where
    s1: "set_port s p (pkts @ [pkt]) q1 = Some s1" "handle_ok ext s1" "kframe 0 s s1" "rc s1 = rc s"
      "port_of s1 p = Some (pkts @ [pkt], q1)" "dead s1 = dead s" "woken s1 = woken s" by blast
  have "rc (wake s1 r) = rc s" using s1(4) by (simp add: fun_eq_iff)
  moreover have "woken (wake s1 r) = woken s @ (case r of None \<Rightarrow> [] | Some t \<Rightarrow> [t])"
    using s1(7) by (simp add: wake_def split: option.splits)
  ultimately show ?thesis using pkt pop s1 assms(2) by (simp add: kport_queue_def)
qed

lemma kport_wait_ok:
  assumes "handle_ok ext s" and "port_of s p = Some (pkts, q)"
  shows "\<exists>s' r. kport_wait s p t out = Some (s', r) \<and> handle_ok ext s' \<and> kframe 0 s s' \<and> rc s' = rc s \<and>
    (if \<not> out then r = Wait_Done KOM_ERR_INVALID_TYPE None \<and> s' = s
     else dead s' = dead s \<and> woken s' = woken s \<and> (case pkts of
            [] \<Rightarrow> r = Wait_Blocked \<and> port_of s' p = Some ([], q @ [t])
          | pkt # rest \<Rightarrow> r = Wait_Done KOM_OK (Some pkt) \<and> port_of s' p = Some (rest, q)))"
proof (cases out)
  case False
  then show ?thesis using assms(1) by (simp add: kport_wait_def)
next
  case True
  show ?thesis
  proof (cases pkts)
    case Nil
    then show ?thesis using True assms(2) set_port_ok[OF assms, of "[]" "wq_push q t"]
      by (auto simp: kport_wait_def wq_push_def)
  next
    case (Cons pkt rest)
    then show ?thesis using True assms(2) set_port_ok[OF assms, of rest q] by (auto simp: kport_wait_def)
  qed
qed

lemma kport_new_ok:
  assumes ok: "handle_ok ext s"
  shows "\<exists>s' p. kport_new s = (s', p) \<and> handle_ok (ext(p := 1)) s' \<and> kframe 1 s s' \<and> p \<noteq> 0 \<and> ext p = 0
    \<and> port_of s' p = Some ([], [])"
proof -
  have inv: "kom_inv [] ext s" using ok by (simp add: handle_ok_def)
  obtain s' p where n: "kobject_new s PORT (KPort [] []) = (s', p)" "kom_inv [] (ext(p := 1)) s'"
    "kframe 1 s s'" "ht s' = ht s" "ext p = 0"
    "get_obj s' p = Some \<lparr>otype = PORT, ref_count = 1, odata = KPort [] []\<rparr>"
    using kobject_new_ok[OF inv, of PORT "KPort [] []"] by (auto simp: holds_def is_end_def)
  then show ?thesis using ok get_obj_valid[OF n(6)] by (auto simp: kport_new_def handle_ok_def port_of_def)
qed

text \<open>The destructor wakes every live waiting thread, in order.\<close>

lemma wq_pop_cases:
  "wq_pop dd q = (None, k, r) \<Longrightarrow> filter (\<lambda>t. \<not> dd t) q = []"
  "wq_pop dd q = (Some t, k, r) \<Longrightarrow> filter (\<lambda>t. \<not> dd t) q = t # filter (\<lambda>t. \<not> dd t) r"
  by (induction q arbitrary: k) (auto simp: wq_pop_Cons split: if_splits prod.splits)

lemma port_drain_filter: "port_drain dd q = filter (\<lambda>t. \<not> dd t) q"
proof (induction "length q" arbitrary: q rule: less_induct)
  case less
  obtain r k ys where p: "wq_pop dd q = (r, k, ys)" by (metis prod_cases3)
  show ?case
  proof (cases r)
    case None
    then show ?thesis using p wq_pop_cases(1)[of dd q k ys] by (subst port_drain.simps) simp
  next
    case (Some t)
    then have "length ys < length q" using p wq.pop_length[of dd q r k ys] by simp
    then show ?thesis using p Some less[of ys] wq_pop_cases(2)[of dd q t k ys]
      by (subst port_drain.simps) simp
  qed
qed

section \<open>Properties\<close>

text \<open>
  \<^bold>\<open>C27.\<close> A port delivers packets in the order they were queued, and its waiting threads are woken in
  the order they came. \<open>queue\<close> appends the packet and wakes the first live waiting thread; \<open>wait\<close>
  returns the oldest packet, or blocks at the end of the wait queue when there is none. The reference
  counts are unchanged and the object model stays consistent. When the port is destroyed, every live
  waiting thread is woken.
\<close>

theorem port_fifo:
  assumes "handle_ok ext s" and "port_of s p = Some (pkts, q)"
  shows "(\<exists>s'. kport_queue True s p (Some pkt) = Some (s', KOM_OK) \<and> handle_ok ext s' \<and> rc s' = rc s \<and>
      (case filter (\<lambda>t. \<not> dead s t) q of
         [] \<Rightarrow> port_of s' p = Some (pkts @ [pkt], []) \<and> woken s' = woken s
       | t # _ \<Rightarrow> woken s' = woken s @ [t]
           \<and> (\<exists>us r. q = us @ t # r \<and> (\<forall>u \<in> set us. dead s u) \<and> port_of s' p = Some (pkts @ [pkt], r))))
    \<and> (\<exists>s' r. kport_wait s p t True = Some (s', r) \<and> handle_ok ext s' \<and> rc s' = rc s \<and>
      (case pkts of
         [] \<Rightarrow> r = Wait_Blocked \<and> port_of s' p = Some ([], q @ [t])
       | pk # rest \<Rightarrow> r = Wait_Done KOM_OK (Some pk) \<and> port_of s' p = Some (rest, q)))
    \<and> (\<exists>s' obj. get_obj s p = Some obj \<and> run_destructor s p obj = Some (s', [])
         \<and> woken s' = woken s @ filter (\<lambda>t. \<not> dead s t) q)"
proof (intro conjI)
  obtain u k q1 where pop: "wq_pop (dead s) q = (u, k, q1)" by (metis prod_cases3)
  obtain s' where s': "kport_queue True s p (Some pkt) = Some (s', KOM_OK)" "handle_ok ext s'" "rc s' = rc s"
    "port_of s' p = Some (pkts @ [pkt], q1)" "woken s' = woken s @ (case u of None \<Rightarrow> [] | Some t \<Rightarrow> [t])"
    using kport_queue_ok[OF assms, of True "Some pkt"] pop by auto
  have "case filter (\<lambda>t. \<not> dead s t) q of
      [] \<Rightarrow> port_of s' p = Some (pkts @ [pkt], []) \<and> woken s' = woken s
    | t # _ \<Rightarrow> woken s' = woken s @ [t]
        \<and> (\<exists>us r. q = us @ t # r \<and> (\<forall>u \<in> set us. dead s u) \<and> port_of s' p = Some (pkts @ [pkt], r))"
  proof (cases u)
    case None
    then show ?thesis using s' pop wq.pop_None[of "dead s" q k q1] wq_pop_cases(1)[of "dead s" q k q1] by simp
  next
    case (Some t)
    then show ?thesis using s' pop wq.pop_Some[of "dead s" q t k q1] wq_pop_cases(2)[of "dead s" q t k q1] by auto
  qed
  then show "\<exists>s'. kport_queue True s p (Some pkt) = Some (s', KOM_OK) \<and> handle_ok ext s' \<and> rc s' = rc s \<and>
      (case filter (\<lambda>t. \<not> dead s t) q of
         [] \<Rightarrow> port_of s' p = Some (pkts @ [pkt], []) \<and> woken s' = woken s
       | t # _ \<Rightarrow> woken s' = woken s @ [t]
           \<and> (\<exists>us r. q = us @ t # r \<and> (\<forall>u \<in> set us. dead s u) \<and> port_of s' p = Some (pkts @ [pkt], r)))"
    using s'(1-3) by blast
  show "\<exists>s' r. kport_wait s p t True = Some (s', r) \<and> handle_ok ext s' \<and> rc s' = rc s \<and>
      (case pkts of
         [] \<Rightarrow> r = Wait_Blocked \<and> port_of s' p = Some ([], q @ [t])
       | pk # rest \<Rightarrow> r = Wait_Done KOM_OK (Some pk) \<and> port_of s' p = Some (rest, q))"
    using kport_wait_ok[OF assms, of t True] by (cases pkts) auto
  obtain obj where "get_obj s p = Some obj" "odata obj = KPort pkts q" using assms(2) port_of_Some by blast
  then show "\<exists>s' obj. get_obj s p = Some obj \<and> run_destructor s p obj = Some (s', [])
      \<and> woken s' = woken s @ filter (\<lambda>t. \<not> dead s t) q"
    by (auto simp: run_destructor_def Let_def port_drain_filter)
qed

theorem port_fifo_witness:
  "\<exists>s p s1 s2. kport_new two_objects_ht = (s, p)
     \<and> kport_queue True s p (Some \<lparr>pkt_key = 7, pkt_type = 0, pkt_status = 0\<rparr>) = Some (s1, KOM_OK)
     \<and> port_of s1 p = Some ([\<lparr>pkt_key = 7, pkt_type = 0, pkt_status = 0\<rparr>], [])
     \<and> kport_wait s p 5 True = Some (s2, Wait_Blocked)"
proof -
  obtain s p where s: "kport_new two_objects_ht = (s, p)" "handle_ok ((\<lambda>_. 0)(1 := 1, p := 1)) s" "port_of s p = Some ([], [])"
    using kport_new_ok[OF two_objects_ht_ok(1)] by blast
  from port_fifo[OF s(2,3), of "\<lparr>pkt_key = 7, pkt_type = 0, pkt_status = 0\<rparr>" 5] s(1) show ?thesis by auto
qed

end
