(* ===== verification/Kom_Syscalls.thy ===== *)
theory Kom_Syscalls
  imports Ons Kport
begin

text \<open>
  The system calls of the kernel object model, \<open>src/archs/kom/common/kom_syscalls.cpp\<close>, over the handle
  table, the namespace, channels and ports. \<open>tbl\<close> says whether \<open>kernel_handle_table\<close> has been set by
  \<open>kom_init\<close>. The blocking calls are one turn of their loop: a blocked call keeps the reference it
  resolved until it returns, so only a finished turn drops it.
\<close>

section \<open>Operations\<close>

definition kom_init :: "u16 list \<Rightarrow> kom \<Rightarrow> kom" where
  "kom_init fl s = s\<lparr>ht := handle_init fl\<rparr>"

definition kom_open :: "bool \<Rightarrow> kom \<Rightarrow> string option \<Rightarrow> u16 \<Rightarrow> (kom \<times> handle) option" where
  "kom_open tbl s path requested_caps =
     (if \<not> tbl then Some (s, 0)
      else do {
        (s1, target) \<leftarrow> ons_resolve s path;
        if target = 0 then Some (s1, 0)
        else do {
          (s2, h) \<leftarrow> handle_alloc s1 target requested_caps;
          s3 \<leftarrow> kobject_unref s2 target;
          Some (s3, h) } })"

definition kom_close :: "bool \<Rightarrow> kom \<Rightarrow> handle \<Rightarrow> (kom \<times> kom_error) option" where
  "kom_close tbl s h =
     (if \<not> tbl then Some (s, KOM_ERR_STALE_HANDLE)
      else do { s1 \<leftarrow> handle_close s h; Some (s1, KOM_OK) })"

definition kom_duplicate :: "bool \<Rightarrow> kom \<Rightarrow> handle \<Rightarrow> u16 \<Rightarrow> (kom \<times> handle) option" where
  "kom_duplicate tbl s h requested_caps =
     (if \<not> tbl then Some (s, 0) else handle_dup s h requested_caps)"

text \<open>\<open>outs\<close>: both result pointers are not null.\<close>

definition kom_channel_create ::
  "bool \<Rightarrow> bool \<Rightarrow> bool \<Rightarrow> bool \<Rightarrow> bool \<Rightarrow> kom \<Rightarrow> (kom \<times> kom_error \<times> handle \<times> handle) option" where
  "kom_channel_create tbl outs mem_state mem_a mem_b s =
     (if \<not> tbl \<or> \<not> outs then Some (s, KOM_ERR_INVALID_TYPE, 0, 0)
      else do {
        (s1, err, ep_a, ep_b) \<leftarrow> kchannel_create mem_state mem_a mem_b s;
        if err \<noteq> KOM_OK then Some (s1, err, 0, 0)
        else do {
          (s2, ha) \<leftarrow> handle_alloc s1 ep_a (KAP_READ OR KAP_WRITE OR KAP_XFER);
          (s3, hb) \<leftarrow> handle_alloc s2 ep_b (KAP_READ OR KAP_WRITE OR KAP_XFER);
          s4 \<leftarrow> kobject_unref s3 ep_a;
          s5 \<leftarrow> kobject_unref s4 ep_b;
          Some (s5, KOM_OK, ha, hb) } })"

fun transfer_all :: "kom \<Rightarrow> handle list \<Rightarrow> (kom \<times> handle list) option" where
  "transfer_all s [] = Some (s, [])"
| "transfer_all s (h # hs) =
     do { (s1, h1) \<leftarrow> handle_transfer s h;
          (s2, hs1) \<leftarrow> transfer_all s1 hs;
          Some (s2, h1 # hs1) }"

text \<open>The common start of the calls on a handle: resolve it and check the type of the object.\<close>

definition resolve_typed ::
  "bool \<Rightarrow> kom \<Rightarrow> handle \<Rightarrow> u16 \<Rightarrow> kobject_type \<Rightarrow> (kom \<times> (kom_error + oid)) option" where
  "resolve_typed tbl s h caps ty =
     (if \<not> tbl then Some (s, Inl KOM_ERR_STALE_HANDLE)
      else do {
        (s1, obj) \<leftarrow> handle_resolve s h caps;
        if obj = 0 then Some (s1, Inl KOM_ERR_CAP_DENIED)
        else do {
          ob \<leftarrow> get_obj s1 obj;
          if otype ob \<noteq> ty
          then do { s2 \<leftarrow> kobject_unref s1 obj; Some (s2, Inl KOM_ERR_INVALID_TYPE) }
          else Some (s1, Inr obj) } })"

text \<open>\<open>mems\<close>: whether the four allocations succeed, in their order.\<close>

definition kom_channel_write ::
  "bool \<Rightarrow> bool \<times> bool \<times> bool \<times> bool \<Rightarrow> kom \<Rightarrow> handle \<Rightarrow> u8 list option \<Rightarrow> u32 \<Rightarrow> handle list option \<Rightarrow> u32
    \<Rightarrow> (kom \<times> kom_error) option" where
  "kom_channel_write tbl mems s h data data_size handles handle_count =
     do {
       let (mem_moved, mem_msg, mem_data, mem_handles) = mems;
       (s1, r) \<leftarrow> resolve_typed tbl s h KAP_WRITE CHANNEL;
       case r of
         Inl err \<Rightarrow> Some (s1, err)
       | Inr obj \<Rightarrow>
           if 0 < handle_count \<and> handles \<noteq> None \<and> \<not> mem_moved
           then do { s2 \<leftarrow> kobject_unref s1 obj; Some (s2, KOM_ERR_NO_MEMORY) }
           else do {
             (s2, moved) \<leftarrow>
               (if 0 < handle_count \<and> handles \<noteq> None
                then do { hs \<leftarrow> copy_in handles (unat handle_count);
                          (s2, moved) \<leftarrow> transfer_all s1 hs; Some (s2, Some moved) }
                else Some (s1, None));
             (s3, err) \<leftarrow> kchannel_write mem_msg mem_data mem_handles s2 obj data data_size moved handle_count;
             s4 \<leftarrow> kobject_unref s3 obj;
             Some (s4, err) } }"

text \<open>
  A blocking call that is not finished is represented by the object whose reference it holds.
\<close>

datatype 'r call = Returned 'r | Waiting oid

definition kom_channel_read ::
  "bool \<Rightarrow> kom \<Rightarrow> handle \<Rightarrow> tid \<Rightarrow> bool \<Rightarrow> u32 option \<Rightarrow> bool \<Rightarrow> u32 option
    \<Rightarrow> (kom \<times> (kom_error + read_result) call) option" where
  "kom_channel_read tbl s h t data data_size handles handle_count =
     do {
       (s1, r) \<leftarrow> resolve_typed tbl s h KAP_READ CHANNEL;
       case r of
         Inl err \<Rightarrow> Some (s1, Returned (Inl err))
       | Inr obj \<Rightarrow> do {
           (s2, res) \<leftarrow> kchannel_read s1 obj t data data_size handles handle_count;
           if res = Read_Blocked then Some (s2, Waiting obj)
           else do { s3 \<leftarrow> kobject_unref s2 obj; Some (s3, Returned (Inr res)) } } }"

text \<open>The next turn of a blocked \<open>read\<close>.\<close>

definition kom_channel_read_resume ::
  "kom \<Rightarrow> oid \<Rightarrow> tid \<Rightarrow> bool \<Rightarrow> u32 option \<Rightarrow> bool \<Rightarrow> u32 option
    \<Rightarrow> (kom \<times> (kom_error + read_result) call) option" where
  "kom_channel_read_resume s obj t data data_size handles handle_count =
     do { (s2, res) \<leftarrow> kchannel_read s obj t data data_size handles handle_count;
          if res = Read_Blocked then Some (s2, Waiting obj)
          else do { s3 \<leftarrow> kobject_unref s2 obj; Some (s3, Returned (Inr res)) } }"

definition kom_port_create :: "bool \<Rightarrow> bool \<Rightarrow> bool \<Rightarrow> kom \<Rightarrow> (kom \<times> kom_error \<times> handle) option" where
  "kom_port_create tbl out_handle mem s =
     (if \<not> tbl \<or> \<not> out_handle then Some (s, KOM_ERR_INVALID_TYPE, 0)
      else if \<not> mem then Some (s, KOM_ERR_NO_MEMORY, 0)
      else do {
        let (s1, port) = kport_new s;
        (s2, h) \<leftarrow> handle_alloc s1 port (KAP_READ OR KAP_WRITE OR KAP_WAIT);
        s3 \<leftarrow> kobject_unref s2 port;
        Some (s3, KOM_OK, h) })"

definition kom_port_queue :: "bool \<Rightarrow> bool \<Rightarrow> kom \<Rightarrow> handle \<Rightarrow> port_packet option \<Rightarrow> (kom \<times> kom_error) option" where
  "kom_port_queue tbl mem s h packet =
     do {
       (s1, r) \<leftarrow> resolve_typed tbl s h KAP_WRITE PORT;
       case r of
         Inl err \<Rightarrow> Some (s1, err)
       | Inr obj \<Rightarrow> do {
           (s2, err) \<leftarrow> kport_queue mem s1 obj packet;
           s3 \<leftarrow> kobject_unref s2 obj;
           Some (s3, err) } }"

definition kom_port_wait ::
  "bool \<Rightarrow> kom \<Rightarrow> handle \<Rightarrow> tid \<Rightarrow> bool \<Rightarrow> (kom \<times> (kom_error + wait_result) call) option" where
  "kom_port_wait tbl s h t out_packet =
     do {
       (s1, r) \<leftarrow> resolve_typed tbl s h (KAP_WAIT OR KAP_READ) PORT;
       case r of
         Inl err \<Rightarrow> Some (s1, Returned (Inl err))
       | Inr obj \<Rightarrow> do {
           (s2, res) \<leftarrow> kport_wait s1 obj t out_packet;
           if res = Wait_Blocked then Some (s2, Waiting obj)
           else do { s3 \<leftarrow> kobject_unref s2 obj; Some (s3, Returned (Inr res)) } } }"

definition kom_port_wait_resume ::
  "kom \<Rightarrow> oid \<Rightarrow> tid \<Rightarrow> bool \<Rightarrow> (kom \<times> (kom_error + wait_result) call) option" where
  "kom_port_wait_resume s obj t out_packet =
     do { (s2, res) \<leftarrow> kport_wait s obj t out_packet;
          if res = Wait_Blocked then Some (s2, Waiting obj)
          else do { s3 \<leftarrow> kobject_unref s2 obj; Some (s3, Returned (Inr res)) } }"

section \<open>Lemmas\<close>

text \<open>The invariant with the references of the running call, and how an operation may change it.\<close>

lemma kframe_type:
  assumes "kframe k s s'" and "get_obj s p = Some obj" and "0 < rc s' p"
  shows "\<exists>obj'. get_obj s' p = Some obj' \<and> otype obj' = otype obj"
proof -
  obtain obj' where obj': "get_obj s' p = Some obj'" using assms(3) rc_pos by blast
  have "p < length (objs s)" using get_obj_valid[OF assms(2)] by simp
  then have "otype obj' = otype obj" using assms(1,2) obj' unfolding kframe_def kom_le_def by force
  then show ?thesis using obj' by blast
qed

lemma live_channel:
  assumes "handle_ok ext s" and "0 < rc s p" and "get_obj s p = Some obj" and "otype obj = CHANNEL"
  shows "\<exists>c i. endpoint s p = Some (c, i)"
  using live_typed[of "[]" ext s p] assms by (cases "odata obj") (auto simp: handle_ok_def endpoint_def)

lemma live_port:
  assumes "handle_ok ext s" and "0 < rc s p" and "get_obj s p = Some obj" and "otype obj = PORT"
  shows "\<exists>pkts q. port_of s p = Some (pkts, q)"
  using live_typed[of "[]" ext s p] assms by (cases "odata obj") (auto simp: handle_ok_def port_of_def)

lemma ext_root: "ons_ok ext s \<Longrightarrow> kframe k s s' \<Longrightarrow> 0 < ext (ons_root s')"
  using kframe_root[of k s s'] by (simp add: ons_ok_def)

lemma ons_ok_got:
  assumes "ons_ok ext s" and "kframe k s s'" and "handle_ok (got ext p) s'"
  shows "ons_ok (got ext p) s'"
  using ons_ok_step[OF assms(1,2,3)] assms(1) by (simp add: ons_ok_def got_def)

lemma kom_open_ok:
  assumes "ons_ok ext s" and "room 3 s"
  shows "\<exists>s' h. kom_open tbl s path caps = Some (s', h) \<and> ons_ok ext s' \<and> kframe 3 s s'"
proof (cases tbl)
  case True
  have "room 2 s" using assms(2) by (rule room_mono) simp
  then obtain s1 p where s1: "ons_resolve s path = Some (s1, p)" "ons_ok (got ext p) s1" "kframe 1 s s1"
    using ons_resolve_ok[OF assms(1)] by blast
  show ?thesis
  proof (cases "p = 0")
    case p0: True
    then show ?thesis using True s1 kframe_mono[OF s1(3), of 3] by (simp add: kom_open_def)
  next
    case False
    have "room 1 s1" using assms(2) s1(3) by (rule room_step) simp
    then obtain s2 h where s2: "handle_alloc s1 p caps = Some (s2, h)" "handle_ok (got ext p) s2" "kframe 1 s1 s2"
      using handle_alloc_ok[of "got ext p" s1 p caps] got_live[OF s1(2) False] s1(2) by (auto simp: ons_ok_def)
    have "ons_ok (got ext p) s2" using ons_ok_same[OF s1(2) s2(3,2)] .
    moreover have "kframe 2 s s2" using kframe_trans[OF s1(3) s2(3)] by (simp add: numeral_2_eq_2)
    ultimately obtain s3 where s3: "kobject_unref s2 p = Some s3" "ons_ok ext s3" "kframe 0 s2 s3"
      using unref_got_ons False ext_root[OF assms(1)] by blast
    have "kframe 3 s s3" using kframe_mono[OF kframe_trans[OF \<open>kframe 2 s s2\<close> s3(3)]] by simp
    then show ?thesis using True False s1(1) s2(1) s3 by (simp add: kom_open_def)
  qed
qed (use assms in \<open>simp add: kom_open_def\<close>)

lemma kom_close_ok:
  assumes "ons_ok ext s"
  shows "\<exists>s' e. kom_close tbl s h = Some (s', e) \<and> ons_ok ext s' \<and> kframe 0 s s'"
proof (cases tbl)
  case True
  obtain s1 where "handle_close s h = Some s1" "handle_ok ext s1" "kframe 0 s s1"
    using handle_close_ok[of ext s h] assms by (auto simp: ons_ok_def)
  then show ?thesis using True ons_ok_same[OF assms] by (simp add: kom_close_def)
qed (use assms in \<open>simp add: kom_close_def\<close>)

lemma kom_duplicate_ok:
  assumes "ons_ok ext s" and "room 1 s"
  shows "\<exists>s' h'. kom_duplicate tbl s h caps = Some (s', h') \<and> ons_ok ext s' \<and> kframe 1 s s'"
proof (cases tbl)
  case True
  obtain s1 h' where "handle_dup s h caps = Some (s1, h')" "handle_ok ext s1" "kframe 1 s s1"
    using handle_dup_ok[of ext s h caps] assms by (auto simp: ons_ok_def)
  then show ?thesis using True ons_ok_same[OF assms(1)] by (simp add: kom_duplicate_def)
qed (use assms in \<open>simp add: kom_duplicate_def\<close>)

lemma two_gots: "a \<noteq> b \<Longrightarrow> a \<noteq> 0 \<Longrightarrow> b \<noteq> 0 \<Longrightarrow> ext a = 0 \<Longrightarrow> ext b = 0 \<Longrightarrow> ext(a := 1, b := 1) = got (got ext b) a"
  by (auto simp: got_def fun_eq_iff)

lemma kom_channel_create_ok:
  assumes "ons_ok ext s" and "room 3 s"
  shows "\<exists>s' e ha hb. kom_channel_create tbl outs m1 m2 m3 s = Some (s', e, ha, hb) \<and> ons_ok ext s' \<and> kframe 3 s s'"
proof (cases "tbl \<and> outs")
  case True
  have ok: "handle_ok ext s" using assms(1) by (simp add: ons_ok_def)
  obtain s1 e a b where s1: "kchannel_create m1 m2 m3 s = Some (s1, e, a, b)" "kframe 1 s s1"
    "if m1 \<and> m2 \<and> m3
     then e = KOM_OK \<and> a \<noteq> b \<and> a \<noteq> 0 \<and> b \<noteq> 0 \<and> ext a = 0 \<and> ext b = 0 \<and> handle_ok (ext(a := 1, b := 1)) s1
     else e = KOM_ERR_NO_MEMORY \<and> handle_ok ext s1"
    using kchannel_create_ok[OF ok, of m1 m2 m3] by (auto split: if_splits)
  show ?thesis
  proof (cases "m1 \<and> m2 \<and> m3")
    case False
    then have "e = KOM_ERR_NO_MEMORY" "handle_ok ext s1" using s1(3) by simp_all
    then show ?thesis using True s1(1) ons_ok_same[OF assms(1) s1(2)] kframe_mono[OF s1(2), of 3]
      by (simp add: kom_channel_create_def)
  next
    case m: True
    then have e: "e = KOM_OK" "a \<noteq> 0" "b \<noteq> 0" "handle_ok (got (got ext b) a) s1"
      using s1(3) two_gots[of a b ext] by auto
    have r0: "0 < got (got ext b) a (ons_root s)" using assms(1) by (simp add: got_def ons_ok_def)
    have o1: "ons_ok (got (got ext b) a) s1" using ons_ok_step[OF assms(1) s1(2) e(4) r0] .
    have "room 1 s1" using assms(2) s1(2) by (rule room_step) simp
    then obtain s2 ha where s2: "handle_alloc s1 a (KAP_READ OR KAP_WRITE OR KAP_XFER) = Some (s2, ha)"
      "handle_ok (got (got ext b) a) s2" "kframe 1 s1 s2"
      using handle_alloc_ok[OF e(4)] got_live[OF o1 e(2)] by blast
    have o2: "ons_ok (got (got ext b) a) s2" using ons_ok_same[OF o1 s2(3,2)] .
    have f2: "kframe 2 s s2" using kframe_trans[OF s1(2) s2(3)] by (simp add: numeral_2_eq_2)
    have "room 1 s2" using assms(2) f2 by (rule room_step) simp
    moreover have "0 < rc s2 b" using got_live[of "got ext a" b s2] o2 e(3) got_commute[of ext a b] by simp
    ultimately obtain s3 hb where s3: "handle_alloc s2 b (KAP_READ OR KAP_WRITE OR KAP_XFER) = Some (s3, hb)"
      "handle_ok (got (got ext b) a) s3" "kframe 1 s2 s3"
      using handle_alloc_ok[OF s2(2)] by blast
    have o3: "ons_ok (got (got ext b) a) s3" using ons_ok_same[OF o2 s3(3,2)] .
    have f3: "kframe 3 s s3" using kframe_trans[OF f2 s3(3)] by simp
    have "0 < got ext b (ons_root s3)" using ext_root[OF assms(1) f3] by (simp add: got_def)
    then obtain s4 where s4: "kobject_unref s3 a = Some s4" "ons_ok (got ext b) s4" "kframe 0 s3 s4"
      using unref_got_ons[OF o3 e(2)] by blast
    have f4: "kframe 3 s s4" using kframe_trans[OF f3 s4(3)] by simp
    obtain s5 where s5: "kobject_unref s4 b = Some s5" "ons_ok ext s5" "kframe 0 s4 s5"
      using unref_got_ons[OF s4(2) e(3) ext_root[OF assms(1) f4]] by blast
    have "kframe 3 s s5" using kframe_trans[OF f4 s5(3)] by simp
    then show ?thesis using True s1(1) e(1) s2(1) s3(1) s4(1) s5 by (simp add: kom_channel_create_def)
  qed
qed (use assms in \<open>simp add: kom_channel_create_def\<close>)

lemma kom_port_create_ok:
  assumes "ons_ok ext s" and "room 2 s"
  shows "\<exists>s' e h. kom_port_create tbl out mem s = Some (s', e, h) \<and> ons_ok ext s' \<and> kframe 2 s s'"
proof (cases "tbl \<and> out \<and> mem")
  case True
  have ok: "handle_ok ext s" using assms(1) by (simp add: ons_ok_def)
  obtain s1 p where s1: "kport_new s = (s1, p)" "handle_ok (got ext p) s1" "kframe 1 s s1" "p \<noteq> 0"
    using kport_new_ok[OF ok] by (auto simp: got_def)
  have o1: "ons_ok (got ext p) s1" using ons_ok_got[OF assms(1) s1(3,2)] .
  have "room 1 s1" using assms(2) s1(3) by (rule room_step) simp
  then obtain s2 h where s2: "handle_alloc s1 p (KAP_READ OR KAP_WRITE OR KAP_WAIT) = Some (s2, h)"
    "handle_ok (got ext p) s2" "kframe 1 s1 s2"
    using handle_alloc_ok[OF s1(2)] got_live[OF o1 s1(4)] by blast
  have o2: "ons_ok (got ext p) s2" using ons_ok_same[OF o1 s2(3,2)] .
  have f2: "kframe 2 s s2" using kframe_trans[OF s1(3) s2(3)] by (simp add: numeral_2_eq_2)
  obtain s3 where s3: "kobject_unref s2 p = Some s3" "ons_ok ext s3" "kframe 0 s2 s3"
    using unref_got_ons[OF o2 s1(4) ext_root[OF assms(1) f2]] by blast
  have "kframe 2 s s3" using kframe_trans[OF f2 s3(3)] by simp
  then show ?thesis using True s1(1) s2(1) s3 by (simp add: kom_port_create_def)
qed (use assms in \<open>auto simp: kom_port_create_def\<close>)

text \<open>Calls on a handle.\<close>

definition has_type :: "kobject_type \<Rightarrow> kom \<Rightarrow> oid \<Rightarrow> bool" where
  "has_type ty s p \<longleftrightarrow> (\<exists>obj. get_obj s p = Some obj \<and> otype obj = ty)"

lemma kframe_has_type: "kframe k s s' \<Longrightarrow> has_type ty s p \<Longrightarrow> 0 < rc s' p \<Longrightarrow> has_type ty s' p"
  using kframe_type unfolding has_type_def by blast

lemma resolve_typed_ok:
  assumes "ons_ok ext s" and "room 1 s"
  shows "\<exists>s' r. resolve_typed tbl s h caps ty = Some (s', r) \<and> kframe 1 s s' \<and>
    (case r of Inl e \<Rightarrow> ons_ok ext s' | Inr p \<Rightarrow> p \<noteq> 0 \<and> ons_ok (got ext p) s' \<and> has_type ty s' p)"
proof (cases tbl)
  case True
  have ok: "handle_ok ext s" using assms(1) by (simp add: ons_ok_def)
  obtain s1 p where s1: "handle_resolve s h caps = Some (s1, p)" "kframe 1 s s1" "handle_ok (got ext p) s1"
    using handle_resolve_ok[OF ok assms(2), of h caps] unfolding got_def by blast
  have o1: "ons_ok (got ext p) s1" using ons_ok_got[OF assms(1) s1(2,3)] .
  show ?thesis
  proof (cases "p = 0")
    case p0: True
    then show ?thesis using True s1(1,2) o1 by (simp add: resolve_typed_def)
  next
    case False
    obtain obj where obj: "get_obj s1 p = Some obj" using got_live[OF o1 False] rc_pos by blast
    obtain s2 where s2: "kobject_unref s1 p = Some s2" "ons_ok ext s2" "kframe 0 s1 s2"
      using unref_got_ons[OF o1 False ext_root[OF assms(1) s1(2)]] by blast
    have "kframe 1 s s2" using kframe_trans[OF s1(2) s2(3)] by simp
    then show ?thesis using True False s1(1,2) s2(1,2) o1 obj
      by (cases "otype obj = ty") (simp_all add: resolve_typed_def has_type_def)
  qed
qed (use assms in \<open>simp add: resolve_typed_def\<close>)

text \<open>A call drops the reference it resolved.\<close>

lemma finish_call:
  assumes "0 < ext (ons_root s)" and "kframe k s s1" and "ons_ok (got ext p) s1" and "p \<noteq> 0"
  shows "\<exists>s'. kobject_unref s1 p = Some s' \<and> ons_ok ext s' \<and> kframe k s s'"
proof -
  obtain s2 where s2: "kobject_unref s1 p = Some s2" "ons_ok ext s2" "kframe 0 s1 s2"
    using unref_got_ons[OF assms(3,4)] assms(1) kframe_root[OF assms(2)] by auto
  then show ?thesis using kframe_trans[OF assms(2) s2(3)] by simp
qed

lemma ons_ok_rootD: "ons_ok ext s \<Longrightarrow> 0 < ext (ons_root s)"
  by (simp add: ons_ok_def)

lemma transfer_all_ok:
  "ons_ok ext s \<Longrightarrow> room (2 * length hs) s \<Longrightarrow>
   \<exists>s' hs' ext'. transfer_all s hs = Some (s', hs') \<and> length hs' = length hs \<and> ons_ok ext' s'
     \<and> (\<forall>p. ext p \<le> ext' p) \<and> kframe (2 * length hs) s s'"
proof (induction hs arbitrary: ext s)
  case (Cons h hs)
  have ok: "handle_ok ext s" using Cons.prems(1) by (simp add: ons_ok_def)
  have r2: "room 2 s" using Cons.prems(2) by (rule room_mono) simp
  have "\<exists>s1 h1 ext1. handle_transfer s h = Some (s1, h1) \<and> ons_ok ext1 s1 \<and> (\<forall>p. ext p \<le> ext1 p) \<and> kframe 2 s s1"
  proof (cases "handle_find (ht s) h")
    case None
    then show ?thesis using Cons.prems(1) by (auto simp: handle_transfer_def)
  next
    case (Some ie)
    obtain i e where ie: "handle_find (ht s) h = Some (i, e)" using Some by (cases ie) simp
    obtain s1 h1 where s1: "handle_transfer s h = Some (s1, h1)" "kframe 2 s s1"
      "handle_ok (ext(he_obj e := ext (he_obj e) + 1)) s1" using handle_transfer_ok[OF ok r2 ie] by blast
    have "ons_ok (ext(he_obj e := ext (he_obj e) + 1)) s1"
      using ons_ok_step[OF Cons.prems(1) s1(2,3)] Cons.prems(1) by (simp add: ons_ok_def)
    moreover have "ext p \<le> (ext(he_obj e := ext (he_obj e) + 1)) p" for p by simp
    ultimately show ?thesis using s1(1,2) by blast
  qed
  then obtain s1 h1 ext1 where s1: "handle_transfer s h = Some (s1, h1)" "ons_ok ext1 s1" "\<forall>p. ext p \<le> ext1 p" "kframe 2 s s1"
    by blast
  have "room (2 * length hs) s1" using Cons.prems(2) s1(4) by (rule room_step) simp
  from Cons.IH[OF s1(2) this] obtain s2 hs2 ext2 where
    s2: "transfer_all s1 hs = Some (s2, hs2)" "length hs2 = length hs" "ons_ok ext2 s2" "\<forall>p. ext1 p \<le> ext2 p"
      "kframe (2 * length hs) s1 s2" by blast
  have "ext p \<le> ext2 p" for p using s1(3) s2(4) le_trans by blast
  moreover have "kframe (2 * length (h # hs)) s s2" using kframe_trans[OF s1(4) s2(5)] by simp
  ultimately show ?case using s1(1) s2(1-3) by auto
qed auto

lemma ons_ext_live: "ons_ok ext s \<Longrightarrow> 0 < ext p \<Longrightarrow> p \<noteq> 0 \<Longrightarrow> 0 < rc s p"
  using ext_live[of "[]" ext s p] by (simp add: ons_ok_def handle_ok_def)

lemma copy_in_length: "copy_in buf n = Some xs \<Longrightarrow> length xs = n"
  by (auto simp: copy_in_def split: if_splits option.splits)

lemma write_step:
  assumes "ons_ok ext s" and "0 < ext p" and "p \<noteq> 0" and "has_type CHANNEL s p" and "fits data ds" and "fits handles hc"
  shows "\<exists>s' e. kchannel_write m1 m2 m3 s p data ds handles hc = Some (s', e) \<and> ons_ok ext s' \<and> kframe 0 s s'"
proof -
  have ok: "handle_ok ext s" using assms(1) by (simp add: ons_ok_def)
  have live: "0 < rc s p" using ons_ext_live[OF assms(1-3)] .
  obtain c i where e: "endpoint s p = Some (c, i)" using assms(4) live_channel[OF ok live] by (auto simp: has_type_def)
  show ?thesis using kchannel_write_ok[OF ok e live assms(5,6), of m1 m2 m3] ons_ok_same[OF assms(1)] by blast
qed

lemma got_split:
  assumes "\<forall>q. got ext p q \<le> ext' q" and "p \<noteq> 0"
  shows "\<exists>ext1. ext' = got ext1 p \<and> (\<forall>q. ext q \<le> ext1 q)"
proof (intro exI conjI allI)
  have "1 \<le> ext' p" using assms(1)[rule_format, of p] assms(2) by (simp add: got_def)
  then show "ext' = got (ext'(p := ext' p - 1)) p" using assms(2) by (auto simp: got_def fun_eq_iff)
  fix q
  show "ext q \<le> (ext'(p := ext' p - 1)) q" using assms(1)[rule_format, of q] assms(2) by (auto simp: got_def split: if_splits)
qed

lemma kom_channel_write_ok:
  assumes "ons_ok ext s" and "room (1 + 2 * unat hc) s" and "fits data ds" and "fits handles hc"
  shows "\<exists>s' e ext'. kom_channel_write tbl mems s h data ds handles hc = Some (s', e) \<and> ons_ok ext' s'
    \<and> (\<forall>p. ext p \<le> ext' p) \<and> kframe (1 + 2 * unat hc) s s'"
proof -
  obtain m0 m1 m2 m3 where mems: "mems = (m0, m1, m2, m3)" by (metis prod_cases4)
  have "room 1 s" using assms(2) by (rule room_mono) simp
  then obtain s1 r where s1: "resolve_typed tbl s h KAP_WRITE CHANNEL = Some (s1, r)" "kframe 1 s s1"
    "case r of Inl e \<Rightarrow> ons_ok ext s1 | Inr p \<Rightarrow> p \<noteq> 0 \<and> ons_ok (got ext p) s1 \<and> has_type CHANNEL s1 p"
    using resolve_typed_ok[OF assms(1)] by blast
  have f1: "kframe (1 + 2 * unat hc) s s1" using s1(2) by (rule kframe_mono) simp
  show ?thesis
  proof (cases r)
    case (Inl e)
    then show ?thesis using s1 f1 mems by (auto simp: kom_channel_write_def)
  next
    case (Inr p)
    have p: "p \<noteq> 0" "ons_ok (got ext p) s1" "has_type CHANNEL s1 p" using s1(3) Inr by simp_all
    let ?mv = "if 0 < hc \<and> handles \<noteq> None
                then do { hs \<leftarrow> copy_in handles (unat hc); (s2, moved) \<leftarrow> transfer_all s1 hs; Some (s2, Some moved) }
                else Some (s1, None)"
    show ?thesis
    proof (cases "0 < hc \<and> handles \<noteq> None \<and> \<not> m0")
      case True
      from finish_call[OF ons_ok_rootD[OF assms(1)] f1 p(2,1)] show ?thesis using s1(1) Inr True mems
        by (auto simp: kom_channel_write_def)
    next
      case False
      have "\<exists>s2 moved ext2. ?mv = Some (s2, moved) \<and> fits moved hc \<and> ons_ok ext2 s2 \<and> (\<forall>q. got ext p q \<le> ext2 q)
        \<and> kframe (2 * unat hc) s1 s2"
      proof (cases "0 < hc \<and> handles \<noteq> None")
        case True
        obtain hs where hs: "copy_in handles (unat hc) = Some hs" "length hs = unat hc"
          using copy_in_fits[OF assms(4)] True copy_in_length by blast
        have "room (2 * length hs) s1" using assms(2) s1(2) by (rule room_step) (simp add: hs(2))
        from transfer_all_ok[OF p(2) this] obtain s2 hs' ext2 where "transfer_all s1 hs = Some (s2, hs')"
          "length hs' = length hs" "ons_ok ext2 s2" "\<forall>q. got ext p q \<le> ext2 q" "kframe (2 * length hs) s1 s2" by blast
        then show ?thesis using True hs by (auto simp: fits_def)
      qed (use p(2) in \<open>auto simp: fits_def\<close>)
      then obtain s2 moved ext2 where s2: "?mv = Some (s2, moved)" "fits moved hc" "ons_ok ext2 s2"
        "\<forall>q. got ext p q \<le> ext2 q" "kframe (2 * unat hc) s1 s2" by blast
      obtain ext1 where e1: "ext2 = got ext1 p" "\<forall>q. ext q \<le> ext1 q" using got_split[OF s2(4) p(1)] by blast
      have pp: "0 < ext2 p" using e1(1) got_pos[OF p(1)] by simp
      have "0 < rc s2 p" using ons_ext_live[OF s2(3) pp p(1)] .
      then have "has_type CHANNEL s2 p" using kframe_has_type[OF s2(5) p(3)] by simp
      from write_step[OF s2(3) pp p(1) this assms(3) s2(2), of m1 m2 m3] obtain s3 e where
        s3: "kchannel_write m1 m2 m3 s2 p data ds moved hc = Some (s3, e)" "ons_ok ext2 s3" "kframe 0 s2 s3" by blast
      have f2: "kframe (1 + 2 * unat hc) s s2" using kframe_trans[OF s1(2) s2(5)] by simp
      then have f3: "kframe (1 + 2 * unat hc) s s3" using kframe_trans[OF f2 s3(3)] by simp
      have "0 < ext1 (ons_root s3)" using ext_root[OF assms(1) f3] e1(2) by (metis less_le_trans)
      then obtain s4 where s4: "kobject_unref s3 p = Some s4" "ons_ok ext1 s4" "kframe 0 s3 s4"
        using unref_got_ons[of ext1 p s3] s3(2) e1(1) p(1) by blast
      have "kframe (1 + 2 * unat hc) s s4" using kframe_trans[OF f3 s4(3)] by simp
      moreover have "kom_channel_write tbl mems s h data ds handles hc = Some (s4, e)"
        using s1(1) Inr mems False s2(1) s3(1) s4(1) by (auto simp: kom_channel_write_def)
      ultimately show ?thesis using s4(2) e1(2) by blast
    qed
  qed
qed

text \<open>A turn of a blocking call, from the state in which its reference is held.\<close>

definition turn_ok :: "(oid \<Rightarrow> nat) \<Rightarrow> nat \<Rightarrow> kom \<Rightarrow> oid \<Rightarrow> kobject_type \<Rightarrow> (kom \<times> 'r call) option \<Rightarrow> bool" where
  "turn_ok ext k s p ty res \<longleftrightarrow>
     (\<exists>s' c. res = Some (s', c) \<and> kframe k s s' \<and>
        (case c of Returned _ \<Rightarrow> ons_ok ext s' | Waiting q \<Rightarrow> q = p \<and> ons_ok (got ext q) s' \<and> has_type ty s' q))"

lemma read_turn:
  assumes "0 < ext (ons_root s0)" and "kframe k s0 s" and "ons_ok (got ext p) s" and "p \<noteq> 0" and "has_type CHANNEL s p"
  shows "turn_ok ext k s0 p CHANNEL (kom_channel_read_resume s p t data ds handles hc)"
proof -
  have ok: "handle_ok (got ext p) s" using assms(3) by (simp add: ons_ok_def)
  have live: "0 < rc s p" using got_live[OF assms(3,4)] .
  obtain c i where e: "endpoint s p = Some (c, i)" using assms(5) live_channel[OF ok live] by (auto simp: has_type_def)
  from kchannel_read_ok[OF ok e live, of t data ds handles hc] obtain s1 r where
    s1: "kchannel_read s p t data ds handles hc = Some (s1, r)" "handle_ok (got ext p) s1" "kframe 0 s s1" by blast
  have o1: "ons_ok (got ext p) s1" using ons_ok_same[OF assms(3) s1(3,2)] .
  have f1: "kframe k s0 s1" using kframe_trans[OF assms(2) s1(3)] by simp
  have "has_type CHANNEL s1 p" using kframe_has_type[OF s1(3) assms(5) got_live[OF o1 assms(4)]] .
  then show ?thesis using finish_call[OF assms(1) f1 o1 assms(4)] s1(1) o1 f1
    by (cases "r = Read_Blocked") (auto simp: turn_ok_def kom_channel_read_resume_def)
qed

lemma wait_turn:
  assumes "0 < ext (ons_root s0)" and "kframe k s0 s" and "ons_ok (got ext p) s" and "p \<noteq> 0" and "has_type PORT s p"
  shows "turn_ok ext k s0 p PORT (kom_port_wait_resume s p t out)"
proof -
  have ok: "handle_ok (got ext p) s" using assms(3) by (simp add: ons_ok_def)
  have live: "0 < rc s p" using got_live[OF assms(3,4)] .
  obtain pkts q where e: "port_of s p = Some (pkts, q)" using assms(5) live_port[OF ok live] by (auto simp: has_type_def)
  from kport_wait_ok[OF ok e, of t out] obtain s1 r where
    s1: "kport_wait s p t out = Some (s1, r)" "handle_ok (got ext p) s1" "kframe 0 s s1" by blast
  have o1: "ons_ok (got ext p) s1" using ons_ok_same[OF assms(3) s1(3,2)] .
  have f1: "kframe k s0 s1" using kframe_trans[OF assms(2) s1(3)] by simp
  have "has_type PORT s1 p" using kframe_has_type[OF s1(3) assms(5) got_live[OF o1 assms(4)]] .
  then show ?thesis using finish_call[OF assms(1) f1 o1 assms(4)] s1(1) o1 f1
    by (cases "r = Wait_Blocked") (auto simp: turn_ok_def kom_port_wait_resume_def)
qed

lemma kom_port_queue_ok:
  assumes "ons_ok ext s" and "room 1 s"
  shows "\<exists>s' e. kom_port_queue tbl mem s h packet = Some (s', e) \<and> ons_ok ext s' \<and> kframe 1 s s'"
proof -
  obtain s1 r where s1: "resolve_typed tbl s h KAP_WRITE PORT = Some (s1, r)" "kframe 1 s s1"
    "case r of Inl e \<Rightarrow> ons_ok ext s1 | Inr p \<Rightarrow> p \<noteq> 0 \<and> ons_ok (got ext p) s1 \<and> has_type PORT s1 p"
    using resolve_typed_ok[OF assms] by blast
  show ?thesis
  proof (cases r)
    case (Inl e)
    then show ?thesis using s1 by (simp add: kom_port_queue_def)
  next
    case (Inr p)
    have p: "p \<noteq> 0" "ons_ok (got ext p) s1" "has_type PORT s1 p" using s1(3) Inr by simp_all
    have ok: "handle_ok (got ext p) s1" using p(2) by (simp add: ons_ok_def)
    obtain pkts q where e: "port_of s1 p = Some (pkts, q)"
      using p(3) live_port[OF ok got_live[OF p(2,1)]] by (auto simp: has_type_def)
    obtain s2 err where s2: "kport_queue mem s1 p packet = Some (s2, err)" "handle_ok (got ext p) s2" "kframe 0 s1 s2"
      using kport_queue_ok[OF ok e, of mem packet] by blast
    have o2: "ons_ok (got ext p) s2" using ons_ok_same[OF p(2) s2(3,2)] .
    have f2: "kframe 1 s s2" using kframe_trans[OF s1(2) s2(3)] by simp
    show ?thesis using finish_call[OF ons_ok_rootD[OF assms(1)] f2 o2 p(1)] s1(1) Inr s2(1) by (auto simp: kom_port_queue_def)
  qed
qed

definition call_ok :: "(oid \<Rightarrow> nat) \<Rightarrow> nat \<Rightarrow> kom \<Rightarrow> kobject_type \<Rightarrow> (kom \<times> 'r call) option \<Rightarrow> bool" where
  "call_ok ext k s ty res \<longleftrightarrow>
     (\<exists>s' c. res = Some (s', c) \<and> kframe k s s' \<and>
        (case c of Returned _ \<Rightarrow> ons_ok ext s' | Waiting q \<Rightarrow> q \<noteq> 0 \<and> ons_ok (got ext q) s' \<and> has_type ty s' q))"

lemma turn_call: "turn_ok ext k s p ty res \<Longrightarrow> p \<noteq> 0 \<Longrightarrow> call_ok ext k s ty res"
  unfolding turn_ok_def call_ok_def by (force split: call.splits)

lemma kom_channel_read_ok:
  assumes "ons_ok ext s" and "room 1 s"
  shows "call_ok ext 1 s CHANNEL (kom_channel_read tbl s h t data ds handles hc)"
proof -
  obtain s1 r where s1: "resolve_typed tbl s h KAP_READ CHANNEL = Some (s1, r)" "kframe 1 s s1"
    "case r of Inl e \<Rightarrow> ons_ok ext s1 | Inr p \<Rightarrow> p \<noteq> 0 \<and> ons_ok (got ext p) s1 \<and> has_type CHANNEL s1 p"
    using resolve_typed_ok[OF assms] by blast
  show ?thesis
  proof (cases r)
    case (Inl e)
    then show ?thesis using s1 by (simp add: kom_channel_read_def call_ok_def)
  next
    case (Inr p)
    then have p: "p \<noteq> 0" "ons_ok (got ext p) s1" "has_type CHANNEL s1 p" using s1(3) by simp_all
    have "kom_channel_read tbl s h t data ds handles hc = kom_channel_read_resume s1 p t data ds handles hc"
      using s1(1) Inr by (simp add: kom_channel_read_def kom_channel_read_resume_def)
    then show ?thesis using turn_call[OF read_turn[OF ons_ok_rootD[OF assms(1)] s1(2) p(2,1,3)] p(1)] by simp
  qed
qed

lemma kom_port_wait_ok:
  assumes "ons_ok ext s" and "room 1 s"
  shows "call_ok ext 1 s PORT (kom_port_wait tbl s h t out)"
proof -
  obtain s1 r where s1: "resolve_typed tbl s h (KAP_WAIT OR KAP_READ) PORT = Some (s1, r)" "kframe 1 s s1"
    "case r of Inl e \<Rightarrow> ons_ok ext s1 | Inr p \<Rightarrow> p \<noteq> 0 \<and> ons_ok (got ext p) s1 \<and> has_type PORT s1 p"
    using resolve_typed_ok[OF assms] by blast
  show ?thesis
  proof (cases r)
    case (Inl e)
    then show ?thesis using s1 by (simp add: kom_port_wait_def call_ok_def)
  next
    case (Inr p)
    then have p: "p \<noteq> 0" "ons_ok (got ext p) s1" "has_type PORT s1 p" using s1(3) by simp_all
    have "kom_port_wait tbl s h t out = kom_port_wait_resume s1 p t out"
      using s1(1) Inr by (simp add: kom_port_wait_def kom_port_wait_resume_def)
    then show ?thesis using turn_call[OF wait_turn[OF ons_ok_rootD[OF assms(1)] s1(2) p(2,1,3)] p(1)] by simp
  qed
qed

section \<open>Runs of system calls\<close>

text \<open>
  The object model with the calls that are blocked: the object each one holds, and its arguments.
\<close>

datatype blocked_call =
    Blocked_Read (bc_obj: oid) tid bool "u32 option" bool "u32 option"
  | Blocked_Wait (bc_obj: oid) tid bool

record ksys =
  kst :: kom
  blocked :: "blocked_call list"

datatype syscall =
    Sys_open "string option" u16
  | Sys_close handle
  | Sys_duplicate handle u16
  | Sys_channel_create bool bool bool bool
  | Sys_channel_write "bool \<times> bool \<times> bool \<times> bool" handle "u8 list option" u32 "handle list option" u32
  | Sys_channel_read handle tid bool "u32 option" bool "u32 option"
  | Sys_port_create bool bool
  | Sys_port_queue bool handle "port_packet option"
  | Sys_port_wait handle tid bool
  | Sys_resume nat

definition after_call :: "ksys \<Rightarrow> (oid \<Rightarrow> blocked_call) \<Rightarrow> (kom \<times> 'r call) option \<Rightarrow> ksys option" where
  "after_call y b res =
     (case res of
        None \<Rightarrow> None
      | Some (s', Returned _) \<Rightarrow> Some (y\<lparr>kst := s'\<rparr>)
      | Some (s', Waiting q) \<Rightarrow> Some (y\<lparr>kst := s', blocked := b q # blocked y\<rparr>))"

fun exec :: "ksys \<Rightarrow> syscall \<Rightarrow> ksys option" where
  "exec y (Sys_open path caps) = map_option (\<lambda>(s', _). y\<lparr>kst := s'\<rparr>) (kom_open True (kst y) path caps)"
| "exec y (Sys_close h) = map_option (\<lambda>(s', _). y\<lparr>kst := s'\<rparr>) (kom_close True (kst y) h)"
| "exec y (Sys_duplicate h caps) = map_option (\<lambda>(s', _). y\<lparr>kst := s'\<rparr>) (kom_duplicate True (kst y) h caps)"
| "exec y (Sys_channel_create outs m1 m2 m3) =
     map_option (\<lambda>(s', _). y\<lparr>kst := s'\<rparr>) (kom_channel_create True outs m1 m2 m3 (kst y))"
| "exec y (Sys_channel_write mems h data ds handles hc) =
     map_option (\<lambda>(s', _). y\<lparr>kst := s'\<rparr>) (kom_channel_write True mems (kst y) h data ds handles hc)"
| "exec y (Sys_channel_read h t data ds handles hc) =
     after_call y (\<lambda>q. Blocked_Read q t data ds handles hc) (kom_channel_read True (kst y) h t data ds handles hc)"
| "exec y (Sys_port_create out mem) = map_option (\<lambda>(s', _). y\<lparr>kst := s'\<rparr>) (kom_port_create True out mem (kst y))"
| "exec y (Sys_port_queue mem h packet) = map_option (\<lambda>(s', _). y\<lparr>kst := s'\<rparr>) (kom_port_queue True mem (kst y) h packet)"
| "exec y (Sys_port_wait h t out) = after_call y (\<lambda>q. Blocked_Wait q t out) (kom_port_wait True (kst y) h t out)"
| "exec y (Sys_resume i) =
     (if i < length (blocked y)
      then let y' = y\<lparr>blocked := take i (blocked y) @ drop (Suc i) (blocked y)\<rparr>
           in (case blocked y ! i of
                 Blocked_Read p t data ds handles hc \<Rightarrow>
                   after_call y' (\<lambda>q. Blocked_Read q t data ds handles hc)
                     (kom_channel_read_resume (kst y) p t data ds handles hc)
               | Blocked_Wait p t out \<Rightarrow>
                   after_call y' (\<lambda>q. Blocked_Wait q t out) (kom_port_wait_resume (kst y) p t out))
      else Some y)"

fun run_calls :: "ksys \<Rightarrow> syscall list \<Rightarrow> ksys option" where
  "run_calls y [] = Some y"
| "run_calls y (c # cs) = (case exec y c of None \<Rightarrow> None | Some y1 \<Rightarrow> run_calls y1 cs)"

text \<open>How far a call may raise a count, and that its buffers are as long as it says.\<close>

fun cost :: "syscall \<Rightarrow> nat" where
  "cost (Sys_channel_write mems h data ds handles hc) = 1 + 2 * unat hc"
| "cost (Sys_close h) = 0"
| "cost (Sys_resume i) = 0"
| "cost c = 3"

fun buffers_ok :: "syscall \<Rightarrow> bool" where
  "buffers_ok (Sys_channel_write mems h data ds handles hc) \<longleftrightarrow> fits data ds \<and> fits handles hc"
| "buffers_ok c \<longleftrightarrow> True"

fun bc_type :: "blocked_call \<Rightarrow> kobject_type" where
  "bc_type (Blocked_Read _ _ _ _ _ _) = CHANNEL"
| "bc_type (Blocked_Wait _ _ _) = PORT"

definition ksys_ok :: "(oid \<Rightarrow> nat) \<Rightarrow> ksys \<Rightarrow> bool" where
  "ksys_ok ext y \<longleftrightarrow> ons_ok (gots ext (map bc_obj (blocked y))) (kst y) \<and> 0 < ext (ons_root (kst y))
     \<and> (\<forall>b \<in> set (blocked y). bc_obj b \<noteq> 0 \<and> has_type (bc_type b) (kst y) (bc_obj b))"

lemma gots_count: "gots ext cs p = ext p + (if p = 0 then 0 else count_list cs p)"
  by (induction cs arbitrary: ext) (auto simp: got_def)

lemma ksys_okD:
  assumes "ksys_ok ext y"
  shows "ons_ok (gots ext (map bc_obj (blocked y))) (kst y)" "0 < ext (ons_root (kst y))"
  using assms by (simp_all add: ksys_ok_def)

lemma blocked_types:
  assumes "ksys_ok ext y" and "ons_ok ext' s'" and "kframe k (kst y) s'" and "b \<in> set (blocked y)"
    and "\<And>p. p \<in> bc_obj ` set (blocked y) \<Longrightarrow> p \<noteq> 0 \<Longrightarrow> 0 < ext' p"
  shows "bc_obj b \<noteq> 0 \<and> has_type (bc_type b) s' (bc_obj b)"
proof -
  have b: "bc_obj b \<noteq> 0" "has_type (bc_type b) (kst y) (bc_obj b)" using assms(1,4) by (auto simp: ksys_ok_def)
  have "0 < rc s' (bc_obj b)" using ons_ext_live[OF assms(2)] assms(4,5) b(1) by blast
  then show ?thesis using kframe_has_type[OF assms(3) b(2)] b(1) by simp
qed

text \<open>A call that has returned, possibly with more references leaked.\<close>

lemma ksys_returned:
  assumes y: "ksys_ok ext y" and s': "ons_ok ext' s'" "kframe k (kst y) s'"
    and le: "\<forall>p. gots ext (map bc_obj (blocked y)) p \<le> ext' p"
  shows "\<exists>ext1. ksys_ok ext1 (y\<lparr>kst := s'\<rparr>) \<and> (\<forall>p. ext p \<le> ext1 p)"
proof -
  let ?cs = "map bc_obj (blocked y)"
  define ext1 where "ext1 = (\<lambda>p. ext' p - (gots ext ?cs p - ext p))"
  have "ext p \<le> ext1 p \<and> gots ext1 ?cs p = ext' p" for p
    using le[rule_format, of p] gots_count[of ext ?cs p] gots_count[of ext1 ?cs p] by (simp add: ext1_def)
  then have e: "\<And>p. ext p \<le> ext1 p" "gots ext1 ?cs = ext'" by (auto simp: fun_eq_iff)
  have "0 < ext' p" if "p \<in> bc_obj ` set (blocked y)" "p \<noteq> 0" for p
    using gots_in[of p ?cs ext1] that e(2) by simp
  from blocked_types[OF y s' _ this] have "\<forall>b \<in> set (blocked y). bc_obj b \<noteq> 0 \<and> has_type (bc_type b) s' (bc_obj b)" by blast
  moreover have "0 < ext1 (ons_root s')"
    using ksys_okD(2)[OF y] kframe_root[OF s'(2)] e(1)[of "ons_root s'"] by simp
  ultimately have "ksys_ok ext1 (y\<lparr>kst := s'\<rparr>)" using s'(1) e(2) by (simp add: ksys_ok_def)
  then show ?thesis using e(1) by blast
qed

text \<open>A blocking call, new or resumed.\<close>

lemma ksys_after_call:
  assumes rt: "0 < ext (ons_root s0)" and c: "call_ok (gots ext (map bc_obj (blocked y))) k s0 ty res"
    and types: "\<And>s' ext'. kframe k s0 s' \<Longrightarrow> ons_ok ext' s' \<Longrightarrow> (\<And>p. gots ext (map bc_obj (blocked y)) p \<le> ext' p) \<Longrightarrow>
      (\<forall>b \<in> set (blocked y). bc_obj b \<noteq> 0 \<and> has_type (bc_type b) s' (bc_obj b))"
    and b: "\<And>q. bc_obj (b q) = q \<and> bc_type (b q) = ty"
  shows "\<exists>y'. after_call y b res = Some y' \<and> ksys_ok ext y' \<and> kframe k s0 (kst y')"
proof -
  let ?E = "gots ext (map bc_obj (blocked y))"
  obtain s' x where s': "res = Some (s', x)" "kframe k s0 s'"
    and x: "case x of Returned _ \<Rightarrow> ons_ok ?E s' | Waiting q \<Rightarrow> q \<noteq> 0 \<and> ons_ok (got ?E q) s' \<and> has_type ty s' q"
    using c unfolding call_ok_def by blast
  have root: "0 < ext (ons_root s')" using rt kframe_root[OF s'(2)] by simp
  show ?thesis
  proof (cases x)
    case (Returned r)
    then show ?thesis using s' x root types[OF s'(2), of ?E] by (simp add: after_call_def ksys_ok_def)
  next
    case (Waiting q)
    then have q: "q \<noteq> 0" "ons_ok (got ?E q) s'" "has_type ty s' q" using x by simp_all
    have "?E p \<le> got ?E q p" for p by (simp add: got_def)
    from types[OF s'(2) q(2) this] show ?thesis
      using Waiting s' q root b[of q] by (simp add: after_call_def ksys_ok_def gots_got)
  qed
qed

lemma ksys_types:
  assumes "ksys_ok ext y" and "kframe k (kst y) s'" and "ons_ok ext' s'"
    and "\<And>p. gots ext (map bc_obj (blocked y)) p \<le> ext' p"
  shows "\<forall>b \<in> set (blocked y). bc_obj b \<noteq> 0 \<and> has_type (bc_type b) s' (bc_obj b)"
proof
  fix b
  assume b: "b \<in> set (blocked y)"
  have "0 < ext' p" if "p \<in> bc_obj ` set (blocked y)" "p \<noteq> 0" for p
    using gots_in[of p "map bc_obj (blocked y)" ext] that assms(4)[of p] by simp
  from blocked_types[OF assms(1,3,2) b this] show "bc_obj b \<noteq> 0 \<and> has_type (bc_type b) s' (bc_obj b)" .
qed

lemma resume_ok:
  assumes y: "ksys_ok ext y" and i: "i < length (blocked y)"
  shows "\<exists>y'. exec y (Sys_resume i) = Some y' \<and> ksys_ok ext y' \<and> kframe 0 (kst y) (kst y')"
proof -
  let ?rest = "take i (blocked y) @ drop (Suc i) (blocked y)"
  let ?y = "y\<lparr>blocked := ?rest\<rparr>"
  define b where "b = blocked y ! i"
  have bl: "blocked y = take i (blocked y) @ b # drop (Suc i) (blocked y)" using i by (simp add: b_def id_take_nth_drop)
  have bin: "b \<in> set (blocked y)" using i by (simp add: b_def)
  have b0: "bc_obj b \<noteq> 0" "has_type (bc_type b) (kst y) (bc_obj b)" using y bin by (auto simp: ksys_ok_def)
  let ?E = "gots ext (map bc_obj ?rest)"
  have "count_list (map bc_obj (blocked y)) p = count_list (map bc_obj ?rest) p + (if p = bc_obj b then 1 else 0)" for p
    by (subst bl) simp
  then have E: "gots ext (map bc_obj (blocked y)) = got ?E (bc_obj b)"
    using b0(1) by (auto simp: fun_eq_iff gots_count got_def)
  have o: "ons_ok (got ?E (bc_obj b)) (kst y)" using ksys_okD(1)[OF y] unfolding E .
  have root: "0 < ext (ons_root (kst y))" using ksys_okD(2)[OF y] .
  then have root': "0 < ?E (ons_root (kst y))" using gots_mono[of ext "ons_root (kst y)" "map bc_obj ?rest"] by simp
  have sub: "set ?rest \<subseteq> set (blocked y)" by (auto dest: in_set_takeD in_set_dropD)
  have types: "\<forall>b \<in> set (blocked ?y). bc_obj b \<noteq> 0 \<and> has_type (bc_type b) s' (bc_obj b)"
    if "kframe 0 (kst y) s'" "ons_ok ext' s'" "\<And>p. gots ext (map bc_obj (blocked ?y)) p \<le> ext' p" for s' ext'
  proof
    fix b1
    assume b1: "b1 \<in> set (blocked ?y)"
    then have 1: "bc_obj b1 \<noteq> 0" "has_type (bc_type b1) (kst y) (bc_obj b1)" using y sub by (auto simp: ksys_ok_def)
    have "0 < ext' (bc_obj b1)" using gots_in[of "bc_obj b1" "map bc_obj ?rest" ext] b1 1(1) that(3)[of "bc_obj b1"] by auto
    then show "bc_obj b1 \<noteq> 0 \<and> has_type (bc_type b1) s' (bc_obj b1)"
      using 1 kframe_has_type[OF that(1) 1(2) ons_ext_live[OF that(2) _ 1(1)]] by simp
  qed
  show ?thesis
  proof (cases b)
    case (Blocked_Read p t data ds handles hc)
    then have p: "p = bc_obj b" "bc_type b = CHANNEL" by simp_all
    have "call_ok ?E 0 (kst y) CHANNEL (kom_channel_read_resume (kst y) p t data ds handles hc)"
      using turn_call[OF read_turn[OF root' kframe_refl o b0(1)]] b0 p by simp
    then have "\<exists>y'. after_call ?y (\<lambda>q. Blocked_Read q t data ds handles hc)
        (kom_channel_read_resume (kst y) p t data ds handles hc) = Some y' \<and> ksys_ok ext y' \<and> kframe 0 (kst y) (kst y')"
      by (intro ksys_after_call[where ty = CHANNEL and ext = ext and y = ?y and ?s0.0 = "kst y", OF root _ types]) simp_all
    then show ?thesis using i Blocked_Read by (simp add: Let_def flip: b_def)
  next
    case (Blocked_Wait p t out)
    then have p: "p = bc_obj b" "bc_type b = PORT" by simp_all
    have "call_ok ?E 0 (kst y) PORT (kom_port_wait_resume (kst y) p t out)"
      using turn_call[OF wait_turn[OF root' kframe_refl o b0(1)]] b0 p by simp
    then have "\<exists>y'. after_call ?y (\<lambda>q. Blocked_Wait q t out) (kom_port_wait_resume (kst y) p t out) = Some y'
        \<and> ksys_ok ext y' \<and> kframe 0 (kst y) (kst y')"
      by (intro ksys_after_call[where ty = PORT and ext = ext and y = ?y and ?s0.0 = "kst y", OF root _ types]) simp_all
    then show ?thesis using i Blocked_Wait by (simp add: Let_def flip: b_def)
  qed
qed

lemma exec_ok:
  assumes y: "ksys_ok ext y" and r: "room (cost c) (kst y)" and "buffers_ok c"
  shows "\<exists>y' ext'. exec y c = Some y' \<and> ksys_ok ext' y' \<and> (\<forall>p. ext p \<le> ext' p) \<and> kframe (cost c) (kst y) (kst y')"
proof -
  let ?E = "gots ext (map bc_obj (blocked y))"
  have o: "ons_ok ?E (kst y)" using ksys_okD(1)[OF y] .
  have ret: "\<exists>ext'. ksys_ok ext' (y\<lparr>kst := s'\<rparr>) \<and> (\<forall>p. ext p \<le> ext' p)" if "ons_ok ?E s'" "kframe k (kst y) s'" for s' k
    using ksys_returned[OF y that] by simp
  have r1: "room 1 (kst y)" "room 2 (kst y)" if "room 3 (kst y)" using that by (auto elim: room_mono)
  note wide = kframe_mono[where k = 3]
  show ?thesis
  proof (cases c)
    case (Sys_open path caps)
    then obtain s' h where "kom_open True (kst y) path caps = Some (s', h)" "ons_ok ?E s'" "kframe 3 (kst y) s'"
      using kom_open_ok[OF o, of True path caps] r by auto
    then show ?thesis using Sys_open ret by auto
  next
    case (Sys_close h)
    then obtain s' e where "kom_close True (kst y) h = Some (s', e)" "ons_ok ?E s'" "kframe 0 (kst y) s'"
      using kom_close_ok[OF o, of True h] by auto
    then show ?thesis using Sys_close ret by auto
  next
    case (Sys_duplicate h caps)
    then obtain s' e where "kom_duplicate True (kst y) h caps = Some (s', e)" "ons_ok ?E s'" "kframe 1 (kst y) s'"
      using kom_duplicate_ok[OF o, of True h caps] r r1 by auto
    then show ?thesis using Sys_duplicate ret wide[of 1] by auto
  next
    case (Sys_channel_create outs m1 m2 m3)
    then obtain s' e ha hb where "kom_channel_create True outs m1 m2 m3 (kst y) = Some (s', e, ha, hb)" "ons_ok ?E s'"
      "kframe 3 (kst y) s'" using kom_channel_create_ok[OF o, of True outs m1 m2 m3] r by auto
    then show ?thesis using Sys_channel_create ret by auto
  next
    case (Sys_channel_write mems h data ds handles hc)
    then have rw: "room (1 + 2 * unat hc) (kst y)" and fs: "fits data ds" "fits handles hc" using r assms(3) by simp_all
    from kom_channel_write_ok[OF o rw fs, of True mems h] obtain s' e ext' where
      w: "kom_channel_write True mems (kst y) h data ds handles hc = Some (s', e)" "ons_ok ext' s'"
        "\<forall>p. ?E p \<le> ext' p" "kframe (1 + 2 * unat hc) (kst y) s'" by blast
    then show ?thesis using Sys_channel_write ksys_returned[OF y w(2,4,3)] by auto
  next
    case (Sys_channel_read h t data ds handles hc)
    have "call_ok ?E 1 (kst y) CHANNEL (kom_channel_read True (kst y) h t data ds handles hc)"
      using kom_channel_read_ok[OF o] r r1 Sys_channel_read by simp
    then have "\<exists>y'. after_call y (\<lambda>q. Blocked_Read q t data ds handles hc)
        (kom_channel_read True (kst y) h t data ds handles hc) = Some y' \<and> ksys_ok ext y' \<and> kframe 1 (kst y) (kst y')"
      by (intro ksys_after_call[where ty = CHANNEL and ext = ext and y = y and ?s0.0 = "kst y", OF ksys_okD(2)[OF y] _ ksys_types[OF y]]) simp_all
    then show ?thesis using Sys_channel_read wide[of 1] by auto
  next
    case (Sys_port_create out mem)
    then obtain s' e h where "kom_port_create True out mem (kst y) = Some (s', e, h)" "ons_ok ?E s'" "kframe 2 (kst y) s'"
      using kom_port_create_ok[OF o, of True out mem] r r1 by auto
    then show ?thesis using Sys_port_create ret wide[of 2] by auto
  next
    case (Sys_port_queue mem h packet)
    then obtain s' e where "kom_port_queue True mem (kst y) h packet = Some (s', e)" "ons_ok ?E s'" "kframe 1 (kst y) s'"
      using kom_port_queue_ok[OF o, of True mem h packet] r r1 by auto
    then show ?thesis using Sys_port_queue ret wide[of 1] by auto
  next
    case (Sys_port_wait h t out)
    have "call_ok ?E 1 (kst y) PORT (kom_port_wait True (kst y) h t out)"
      using kom_port_wait_ok[OF o] r r1 Sys_port_wait by simp
    then have "\<exists>y'. after_call y (\<lambda>q. Blocked_Wait q t out) (kom_port_wait True (kst y) h t out) = Some y'
        \<and> ksys_ok ext y' \<and> kframe 1 (kst y) (kst y')"
      by (intro ksys_after_call[where ty = PORT and ext = ext and y = y and ?s0.0 = "kst y", OF ksys_okD(2)[OF y] _ ksys_types[OF y]]) simp_all
    then show ?thesis using Sys_port_wait wide[of 1] by auto
  next
    case (Sys_resume i)
    then show ?thesis using resume_ok[OF y, of i] y by (cases "i < length (blocked y)") auto
  qed
qed

lemma run_calls_ok:
  "ksys_ok ext y \<Longrightarrow> room (sum_list (map cost cs)) (kst y) \<Longrightarrow> \<forall>c \<in> set cs. buffers_ok c \<Longrightarrow>
   \<exists>y' ext'. run_calls y cs = Some y' \<and> ksys_ok ext' y'"
proof (induction cs arbitrary: y ext)
  case (Cons c cs)
  have "room (cost c) (kst y)" using Cons.prems(2) by (rule room_mono) simp
  from exec_ok[OF Cons.prems(1) this] Cons.prems(3) obtain y1 ext1 where
    y1: "exec y c = Some y1" "ksys_ok ext1 y1" "kframe (cost c) (kst y) (kst y1)" by auto
  have "room (sum_list (map cost cs)) (kst y1)" using Cons.prems(2) y1(3) by (rule room_step) simp
  from Cons.IH[OF y1(2) this] show ?case using y1(1) Cons.prems(3) by auto
qed auto

section \<open>Properties\<close>


lemma ksys_example: "ksys_ok ((\<lambda>_. 0)(1 := 1)) \<lparr>kst = ons_example, blocked = []\<rparr>" "room 20 ons_example"
proof -
  show "room 20 ons_example"
    by (simp add: ons_example_def two_objects_ht_def) (simp add: room_def two_objects_rc)
  show "ksys_ok ((\<lambda>_. 0)(1 := 1)) \<lparr>kst = ons_example, blocked = []\<rparr>"
    using ons_example_ok(1) by (simp add: ksys_ok_def ons_ok_def)
qed


end
