(* ===== verification/Kevent.thy ===== *)
theory Kevent
  imports Wait_Queue
begin

text \<open>
  Events and interrupt objects: \<open>src/archs/kom/common/kevent.cpp\<close> and \<open>src/system/irq/kir.cpp\<close>. An
  interrupt object is an auto-reset event that registers itself in the table of interrupt vectors;
  \<open>dispatch\<close> signals the object registered for the vector. \<open>kevent_wait\<close> is one turn of the loop of
  \<open>wait\<close>: it returns whether the wait is over; otherwise the thread has queued itself and blocks.
\<close>

section \<open>Events\<close>

record kevent =
  signaled :: bool
  auto_reset :: bool
  ev_wait_q :: "tid list"

definition kevent_new :: "bool \<Rightarrow> kevent" where
  "kevent_new autoReset = \<lparr>signaled = False, auto_reset = autoReset, ev_wait_q = []\<rparr>"

definition kevent_wait :: "kevent \<Rightarrow> tid \<Rightarrow> kevent \<times> bool" where
  "kevent_wait e t =
     (if signaled e
      then (if auto_reset e then e\<lparr>signaled := False\<rparr> else e, True)
      else (e\<lparr>ev_wait_q := wq_push (ev_wait_q e) t\<rparr>, False))"

definition kevent_signal :: "(tid \<Rightarrow> bool) \<Rightarrow> kevent \<Rightarrow> kevent \<times> tid option" where
  "kevent_signal dead e =
     (let (t, _, q) = wq_pop dead (ev_wait_q e)
      in (e\<lparr>signaled := True, ev_wait_q := q\<rparr>, t))"

definition kevent_reset :: "kevent \<Rightarrow> kevent" where
  "kevent_reset e = e\<lparr>signaled := False\<rparr>"

section \<open>Interrupt objects\<close>

record kinterrupt =
  kint_event :: kevent
  kint_vector :: u8

text \<open>The interrupt objects that exist, by their address, and the table of vectors (0 is null).\<close>

record kir =
  kints :: "(nat \<times> kinterrupt) list"
  irq_map :: "u8 \<Rightarrow> nat"

definition registerInterrupt :: "kir \<Rightarrow> nat \<Rightarrow> kir option" where
  "registerInterrupt s p =
     (if p = 0 then Some s
      else do { k \<leftarrow> map_of (kints s) p; Some (s\<lparr>irq_map := (irq_map s)(kint_vector k := p)\<rparr>) })"

definition unregisterInterrupt :: "kir \<Rightarrow> nat \<Rightarrow> kir option" where
  "unregisterInterrupt s p =
     (if p = 0 then Some s
      else do { k \<leftarrow> map_of (kints s) p;
                Some (if irq_map s (kint_vector k) = p
                      then s\<lparr>irq_map := (irq_map s)(kint_vector k := 0)\<rparr> else s) })"

definition kinterrupt_new :: "kir \<Rightarrow> nat \<Rightarrow> u8 \<Rightarrow> kir option" where
  "kinterrupt_new s p vec =
     registerInterrupt (s\<lparr>kints := (p, \<lparr>kint_event = kevent_new True, kint_vector = vec\<rparr>) # kints s\<rparr>) p"

definition kinterrupt_delete :: "kir \<Rightarrow> nat \<Rightarrow> kir option" where
  "kinterrupt_delete s p =
     do { s1 \<leftarrow> unregisterInterrupt s p;
          Some (s1\<lparr>kints := filter (\<lambda>(q, _). q \<noteq> p) (kints s1)\<rparr>) }"

definition set_kint :: "kir \<Rightarrow> nat \<Rightarrow> kinterrupt \<Rightarrow> kir" where
  "set_kint s p k = s\<lparr>kints := map (\<lambda>(q, j). (q, if q = p then k else j)) (kints s)\<rparr>"

definition dispatch :: "(tid \<Rightarrow> bool) \<Rightarrow> kir \<Rightarrow> u8 \<Rightarrow> (kir \<times> tid option) option" where
  "dispatch dead s vector =
     (let irqObj = irq_map s vector
      in if irqObj \<noteq> 0
         then do { k \<leftarrow> map_of (kints s) irqObj;
                   let (e, t) = kevent_signal dead (kint_event k);
                   Some (set_kint s irqObj (k\<lparr>kint_event := e\<rparr>), t) }
         else Some (s, None))"

definition kir_wait_interrupt :: "kir \<Rightarrow> nat \<Rightarrow> tid \<Rightarrow> (kir \<times> bool) option" where
  "kir_wait_interrupt s p t =
     (if p \<noteq> 0
      then do { k \<leftarrow> map_of (kints s) p;
                let (e, r) = kevent_wait (kint_event k) t;
                Some (set_kint s p (k\<lparr>kint_event := e\<rparr>), r) }
      else Some (s, True))"

section \<open>The vector table\<close>

text \<open>
  Every non-null entry of the table is the address of an existing object with that vector, so an
  interrupt never reaches a destroyed object.
\<close>

definition kir_ok :: "kir \<Rightarrow> bool" where
  "kir_ok s \<longleftrightarrow> distinct (map fst (kints s)) \<and> 0 \<notin> fst ` set (kints s) \<and>
     (\<forall>v. irq_map s v \<noteq> 0 \<longrightarrow> (\<exists>k. map_of (kints s) (irq_map s v) = Some k \<and> kint_vector k = v))"

lemma kir_okD: "kir_ok s \<Longrightarrow> irq_map s v \<noteq> 0 \<Longrightarrow> \<exists>j. map_of (kints s) (irq_map s v) = Some j \<and> kint_vector j = v"
  unfolding kir_ok_def by blast

lemma map_of_set_kint: "map_of (kints (set_kint s p k)) q = (if q = p \<and> map_of (kints s) p \<noteq> None then Some k else map_of (kints s) q)"
proof -
  have "map_of (map (\<lambda>(q, j). (q, if q = p then k else j)) xs) q
      = (if q = p \<and> map_of xs p \<noteq> None then Some k else map_of xs q)" for xs
    by (induction xs) auto
  then show ?thesis by (simp add: set_kint_def)
qed

lemma set_kint_ok: "kir_ok s \<Longrightarrow> map_of (kints s) p = Some k \<Longrightarrow> kint_vector k' = kint_vector k \<Longrightarrow> kir_ok (set_kint s p k')"
proof -
  assume a: "kir_ok s" "map_of (kints s) p = Some k" "kint_vector k' = kint_vector k"
  have "map fst (kints (set_kint s p k')) = map fst (kints s)" by (simp add: set_kint_def case_prod_beta)
  moreover from this have "fst ` set (kints (set_kint s p k')) = fst ` set (kints s)" by (metis image_set)
  moreover have "irq_map (set_kint s p k') = irq_map s" by (simp add: set_kint_def)
  moreover have "\<exists>j. map_of (kints (set_kint s p k')) (irq_map s v) = Some j \<and> kint_vector j = v" if "irq_map s v \<noteq> 0" for v
  proof -
    from kir_okD[OF a(1) that] obtain j where j: "map_of (kints s) (irq_map s v) = Some j" "kint_vector j = v" by blast
    show ?thesis
    proof (cases "irq_map s v = p")
      case True
      then show ?thesis unfolding map_of_set_kint using a(2,3) j by auto
    next
      case False
      then show ?thesis unfolding map_of_set_kint using j by auto
    qed
  qed
  ultimately show ?thesis using a(1) unfolding kir_ok_def by simp
qed

lemma map_of_filter_key: "map_of (filter (\<lambda>(q, _). q \<noteq> p) xs) q = (if q = p then None else map_of xs q)"
  by (induction xs) auto

lemma kinterrupt_delete_ok:
  assumes "kir_ok s" and "map_of (kints s) p = Some k"
  shows "\<exists>s'. kinterrupt_delete s p = Some s' \<and> kir_ok s' \<and> map_of (kints s') p = None \<and> (\<forall>v. irq_map s' v \<noteq> p)"
proof -
  have p0: "p \<noteq> 0" using assms map_of_SomeD[OF assms(2)] by (force simp: kir_ok_def)
  define m where "m = (if irq_map s (kint_vector k) = p then (irq_map s)(kint_vector k := 0) else irq_map s)"
  have m: "m v \<noteq> p \<and> (m v \<noteq> 0 \<longrightarrow> m v = irq_map s v)" for v
  proof -
    have kv: "irq_map s v \<noteq> p" if "v \<noteq> kint_vector k"
      using kir_okD[OF assms(1), of v] assms(2) p0 that by auto
    show ?thesis
    proof (cases "v = kint_vector k")
      case True
      then show ?thesis using p0 by (simp add: m_def)
    next
      case False
      then show ?thesis using kv by (simp add: m_def)
    qed
  qed
  let ?s = "s\<lparr>irq_map := m, kints := filter (\<lambda>(q, _). q \<noteq> p) (kints s)\<rparr>"
  have "kinterrupt_delete s p = Some ?s"
    using assms(2) p0 by (simp add: kinterrupt_delete_def unregisterInterrupt_def m_def)
  moreover have "kir_ok ?s"
    unfolding kir_ok_def
  proof (intro conjI allI impI)
    show "distinct (map fst (kints ?s))" using assms(1) by (simp add: kir_ok_def distinct_map_filter)
    show "0 \<notin> fst ` set (kints ?s)" using assms(1) by (auto simp: kir_ok_def)
    fix v
    assume "irq_map ?s v \<noteq> 0"
    then have v: "m v \<noteq> 0" "m v = irq_map s v" "m v \<noteq> p" using m[of v] by auto
    then show "\<exists>k. map_of (kints ?s) (irq_map ?s v) = Some k \<and> kint_vector k = v"
      using kir_okD[OF assms(1), of v] by (auto simp: map_of_filter_key)
  qed
  ultimately show ?thesis using m by (auto simp: map_of_filter_key)
qed

lemma kinterrupt_new_ok:
  assumes "kir_ok s" and "p \<noteq> 0" and "map_of (kints s) p = None"
  shows "\<exists>s'. kinterrupt_new s p vec = Some s' \<and> kir_ok s' \<and> irq_map s' vec = p"
proof -
  let ?k = "\<lparr>kint_event = kevent_new True, kint_vector = vec\<rparr>"
  let ?s = "s\<lparr>kints := (p, ?k) # kints s, irq_map := (irq_map s)(vec := p)\<rparr>"
  have "kinterrupt_new s p vec = Some ?s" using assms(2) by (simp add: kinterrupt_new_def registerInterrupt_def)
  moreover have "kir_ok ?s"
    unfolding kir_ok_def
  proof (intro conjI allI impI)
    show "distinct (map fst (kints ?s))" "0 \<notin> fst ` set (kints ?s)"
      using assms by (auto simp: kir_ok_def map_of_eq_None_iff)
    fix v
    assume v: "irq_map ?s v \<noteq> 0"
    show "\<exists>k. map_of (kints ?s) (irq_map ?s v) = Some k \<and> kint_vector k = v"
    proof (cases "v = vec")
      case False
      then obtain j where "map_of (kints s) (irq_map s v) = Some j" "kint_vector j = v"
        using kir_okD[OF assms(1), of v] v by auto
      then show ?thesis using assms(3) False by auto
    qed simp
  qed
  ultimately show ?thesis by simp
qed

section \<open>Properties\<close>



text \<open>
  \<^bold>\<open>C29.\<close> The vector table never dangles. Creating an interrupt object makes it the target of its vector;
  dispatching a vector signals exactly the registered object, or does nothing; destroying an object
  removes it from the table. Every such step keeps the property that each registered address is an
  existing object of that vector, so no interrupt reaches a destroyed object.
\<close>

theorem kir_never_dangles:
  assumes "kir_ok s"
  shows "(\<forall>v. \<exists>s' t. dispatch dead s v = Some (s', t) \<and> kir_ok s'
        \<and> (case map_of (kints s) (irq_map s v) of
             None \<Rightarrow> s' = s \<and> t = None
           | Some k \<Rightarrow> map_of (kints s') (irq_map s v) = Some (k\<lparr>kint_event := fst (kevent_signal dead (kint_event k))\<rparr>)))
    \<and> (\<forall>p vec. p \<noteq> 0 \<and> map_of (kints s) p = None \<longrightarrow>
          (\<exists>s'. kinterrupt_new s p vec = Some s' \<and> kir_ok s' \<and> irq_map s' vec = p))
    \<and> (\<forall>p k. map_of (kints s) p = Some k \<longrightarrow>
          (\<exists>s'. kinterrupt_delete s p = Some s' \<and> kir_ok s' \<and> (\<forall>v. irq_map s' v \<noteq> p)))"
proof (intro conjI allI impI)
  fix v
  have z: "map_of (kints s) 0 = None" using assms by (force simp: kir_ok_def map_of_eq_None_iff)
  show "\<exists>s' t. dispatch dead s v = Some (s', t) \<and> kir_ok s'
      \<and> (case map_of (kints s) (irq_map s v) of
           None \<Rightarrow> s' = s \<and> t = None
         | Some k \<Rightarrow> map_of (kints s') (irq_map s v) = Some (k\<lparr>kint_event := fst (kevent_signal dead (kint_event k))\<rparr>))"
  proof (cases "irq_map s v = 0")
    case True
    then show ?thesis using assms z by (simp add: dispatch_def)
  next
    case False
    then obtain k where k: "map_of (kints s) (irq_map s v) = Some k" using kir_okD[OF assms] by blast
    then show ?thesis using False set_kint_ok[OF assms k]
      by (simp add: dispatch_def split_beta map_of_set_kint)
  qed
next
  fix p vec
  assume "p \<noteq> 0 \<and> map_of (kints s) p = None"
  then show "\<exists>s'. kinterrupt_new s p vec = Some s' \<and> kir_ok s' \<and> irq_map s' vec = p"
    using kinterrupt_new_ok[OF assms] by blast
next
  fix p k
  assume "map_of (kints s) p = Some k"
  then show "\<exists>s'. kinterrupt_delete s p = Some s' \<and> kir_ok s' \<and> (\<forall>v. irq_map s' v \<noteq> p)"
    using kinterrupt_delete_ok[OF assms] by blast
qed

theorem kir_never_dangles_witness:
  "\<exists>s'. kinterrupt_new \<lparr>kints = [], irq_map = (\<lambda>_. 0)\<rparr> 7 33 = Some s' \<and> kir_ok s' \<and> irq_map s' 33 = 7"
proof -
  have "kir_ok \<lparr>kints = [], irq_map = (\<lambda>_. 0)\<rparr>" by (simp add: kir_ok_def)
  from kir_never_dangles[OF this] show ?thesis by simp
qed

end
