(* ===== verification/Pmm.thy ===== *)
theory Pmm
  imports Kernel_Prelude "HOL-Library.Multiset"
begin

text \<open>
  The physical memory manager, \<open>src/rust_core/src/memory/pmm.rs\<close>: free frames are kept as a sorted
  array of extents, every frame has a one-byte reference count, and each processor has a magazine of
  frames that are allocated but not in use. Frame numbers and sizes (\<open>usize\<close>) are natural numbers,
  except in the alignment, which works on the 64-bit word. \<open>None\<close> is a panic or an access
  outside the array of reference counts. Each operation holds its locks throughout.
\<close>

section \<open>State\<close>

record extent =
  ext_start :: nat
  ext_count :: nat

record numa_node =
  nd_active :: bool
  nd_start :: nat
  nd_end :: nat

record pmm =
  extents :: "extent list"
  ref_counts :: "u8 list"
  total_frames :: nat
  used_frames :: nat
  reserved_frames :: nat
  hw_reserved_frames :: nat
  total_usable_memory_bytes :: nat
  initialized :: bool
  nodes :: "numa_node list"
  magazines :: "nat list list"
  magazine_total :: nat

abbreviation (input) PAGE_SIZE :: nat where "PAGE_SIZE \<equiv> 4096"
abbreviation (input) MAX_EXTENTS :: nat where "MAX_EXTENTS \<equiv> 1024"
abbreviation (input) MAX_NUMA_NODES :: nat where "MAX_NUMA_NODES \<equiv> 8"
abbreviation (input) MAX_CPUS :: nat where "MAX_CPUS \<equiv> 32"
abbreviation (input) MAGAZINE_SIZE :: nat where "MAGAZINE_SIZE \<equiv> 32"
abbreviation (input) REF_FREE :: u8 where "REF_FREE \<equiv> 0"
abbreviation (input) REF_RESERVED :: u8 where "REF_RESERVED \<equiv> 0xFF"

text \<open>The static state before initialisation.\<close>

definition pmm_new :: pmm where
  "pmm_new =
     \<lparr>extents = [], ref_counts = [], total_frames = 0, used_frames = 0, reserved_frames = 0, hw_reserved_frames = 0,
      total_usable_memory_bytes = 0, initialized = False,
      nodes = replicate MAX_NUMA_NODES \<lparr>nd_active = False, nd_start = 0, nd_end = 0\<rparr>,
      magazines = replicate MAX_CPUS [], magazine_total = 0\<rparr>"

section \<open>Extents\<close>

text \<open>The second loop of \<open>free_region_internal\<close>: \<open>w\<close> is the extent being grown.\<close>

fun merge_extents :: "extent \<Rightarrow> extent list \<Rightarrow> extent list" where
  "merge_extents w [] = [w]"
| "merge_extents w (r # rs) =
     (if ext_start w + ext_count w = ext_start r
      then merge_extents (w\<lparr>ext_count := ext_count w + ext_count r\<rparr>) rs
      else w # merge_extents r rs)"

fun coalesce :: "extent list \<Rightarrow> extent list" where
  "coalesce [] = []"
| "coalesce (e # es) = merge_extents e es"

fun insert_extent :: "extent \<Rightarrow> extent list \<Rightarrow> extent list" where
  "insert_extent x [] = [x]"
| "insert_extent x (e # es) = (if ext_start e > ext_start x then x # e # es else e # insert_extent x es)"

definition free_region_internal :: "extent list \<Rightarrow> nat \<Rightarrow> nat \<Rightarrow> extent list option" where
  "free_region_internal es start cnt =
     (if cnt = 0 then Some es
      else if length es \<ge> MAX_EXTENTS then None
      else Some (coalesce (insert_extent \<lparr>ext_start = start, ext_count = cnt\<rparr> es)))"

definition push_extent :: "extent list \<Rightarrow> nat \<Rightarrow> nat \<Rightarrow> extent list" where
  "push_extent es start cnt =
     (if length es < MAX_EXTENTS then es @ [\<lparr>ext_start = start, ext_count = cnt\<rparr>] else es)"

fun reserve_loop :: "nat \<Rightarrow> nat \<Rightarrow> extent list \<Rightarrow> extent list \<Rightarrow> extent list" where
  "reserve_loop res_start res_end acc [] = acc"
| "reserve_loop res_start res_end acc (ext # es) =
     (let ext_end = ext_start ext + ext_count ext
      in if res_start < ext_end \<and> res_end > ext_start ext
         then let acc1 = (if ext_start ext < res_start
                          then push_extent acc (ext_start ext) (res_start - ext_start ext) else acc);
                  acc2 = (if ext_end > res_end then push_extent acc1 res_end (ext_end - res_end) else acc1)
              in reserve_loop res_start res_end acc2 es
         else reserve_loop res_start res_end (push_extent acc (ext_start ext) (ext_count ext)) es)"

definition reserve_region_internal :: "extent list \<Rightarrow> nat \<Rightarrow> nat \<Rightarrow> extent list" where
  "reserve_region_internal es res_start res_count =
     (if res_count = 0 then es else reserve_loop res_start (res_start + res_count) [] es)"

text \<open>\<open>(ext.start + align - 1) & !(align - 1)\<close>\<close>

definition align_up :: "nat \<Rightarrow> nat \<Rightarrow> nat" where
  "align_up start align =
     unat ((of_nat start + of_nat align - 1 :: u64) AND NOT (of_nat align - 1))"

definition valid_node :: "numa_node list \<Rightarrow> nat option \<Rightarrow> nat \<Rightarrow> nat \<Rightarrow> bool" where
  "valid_node nds preferred_node aligned_start cnt =
     (case preferred_node of
        None \<Rightarrow> True
      | Some node_id \<Rightarrow>
          node_id < MAX_NUMA_NODES \<and>
          (let node = nds ! node_id
           in nd_active node \<and> aligned_start \<ge> nd_start node \<and> aligned_start + cnt \<le> nd_end node))"

text \<open>
  The loop of \<open>alloc_contiguous_internal\<close>: \<open>pre\<close> are the extents before the current one. The result
  is the new array and the first frame, or no frame at all.
\<close>

fun alloc_scan ::
  "numa_node list \<Rightarrow> nat \<Rightarrow> nat \<Rightarrow> nat option \<Rightarrow> extent list \<Rightarrow> extent list \<Rightarrow> (extent list \<times> nat) option option" where
  "alloc_scan nds cnt align preferred_node pre [] = Some None"
| "alloc_scan nds cnt align preferred_node pre (ext # post) =
     (let aligned_start = align_up (ext_start ext) align;
          shift = aligned_start - ext_start ext
      in if aligned_start \<ge> ext_start ext \<and> valid_node nds preferred_node aligned_start cnt
            \<and> ext_count ext \<ge> shift + cnt
         then do {
           let rem_start = aligned_start + cnt;
           let rem_count = (ext_start ext + ext_count ext) - rem_start;
           es1 \<leftarrow> free_region_internal (pre @ post) rem_start rem_count;
           es2 \<leftarrow> free_region_internal es1 (ext_start ext) shift;
           Some (Some (es2, aligned_start)) }
         else alloc_scan nds cnt align preferred_node (pre @ [ext]) post)"

definition alloc_contiguous_internal :: "pmm \<Rightarrow> nat \<Rightarrow> nat \<Rightarrow> nat option \<Rightarrow> (pmm \<times> nat option) option" where
  "alloc_contiguous_internal s cnt align preferred_node =
     do { r \<leftarrow> alloc_scan (nodes s) cnt align preferred_node [] (extents s);
          case r of
            None \<Rightarrow> Some (s, None)
          | Some (es, f) \<Rightarrow> Some (s\<lparr>extents := es\<rparr>, Some f) }"

section \<open>Initialisation\<close>

record mmap_entry =
  mm_addr :: nat
  mm_len :: nat
  mm_typ :: u32

text \<open>The entries of the memory map in order; \<open>frees\<close> collects the extents, \<open>usable\<close> the sizes.\<close>

fun mmap_loop :: "mmap_entry list \<Rightarrow> extent list \<Rightarrow> nat \<Rightarrow> nat \<Rightarrow> (extent list \<times> nat \<times> nat) option" where
  "mmap_loop [] es max_ram_addr usable_ram = Some (es, max_ram_addr, usable_ram)"
| "mmap_loop (entry # entries) es max_ram_addr usable_ram =
     do {
       let region_end = mm_addr entry + mm_len entry;
       let max1 = (if region_end > max_ram_addr then region_end else max_ram_addr);
       if mm_typ entry = 1
       then do { es1 \<leftarrow> free_region_internal es (mm_addr entry div PAGE_SIZE) (mm_len entry div PAGE_SIZE);
                 mmap_loop entries es1 max1 (usable_ram + mm_len entry) }
       else mmap_loop entries es max1 usable_ram }"

fun set_refs :: "u8 list \<Rightarrow> nat \<Rightarrow> nat \<Rightarrow> u8 \<Rightarrow> u8 list option" where
  "set_refs rs f 0 v = Some rs"
| "set_refs rs f (Suc n) v = do { rs1 \<leftarrow> store rs f v; set_refs rs1 (Suc f) n v }"

fun free_refs :: "u8 list \<Rightarrow> extent list \<Rightarrow> u8 list option" where
  "free_refs rs [] = Some rs"
| "free_refs rs (e # es) = do { rs1 \<leftarrow> set_refs rs (ext_start e) (ext_count e) REF_FREE; free_refs rs1 es }"

definition div_ceil :: "nat \<Rightarrow> nat \<Rightarrow> nat" where
  "div_ceil a b = (a + b - 1) div b"

definition pmm_init :: "pmm \<Rightarrow> mmap_entry list \<Rightarrow> nat \<Rightarrow> nat \<Rightarrow> nat \<Rightarrow> pmm option" where
  "pmm_init s entries multiboot_addr mb_size kernel_end =
     (if initialized s then Some s
      else do {
        (es, max_ram_addr, usable_ram) \<leftarrow> mmap_loop entries (extents s) 0 0;
        let total = max_ram_addr div PAGE_SIZE;
        let mb_end = multiboot_addr + mb_size;
        let safe_after = (if mb_end > kernel_end then mb_end else kernel_end);
        let ref_start = (safe_after + PAGE_SIZE - 1) div PAGE_SIZE * PAGE_SIZE;
        let es1 = reserve_region_internal es 0 (0x100000 div PAGE_SIZE);
        let es2 = reserve_region_internal es1 (0x100000 div PAGE_SIZE) (div_ceil (kernel_end - 0x100000) PAGE_SIZE);
        let es3 = reserve_region_internal es2 (multiboot_addr div PAGE_SIZE) (div_ceil mb_size PAGE_SIZE);
        let es4 = reserve_region_internal es3 (ref_start div PAGE_SIZE) (div_ceil total PAGE_SIZE);
        rs \<leftarrow> free_refs (replicate total REF_RESERVED) es4;
        let free_frames = sum_list (map ext_count es4);
        let used = total - free_frames;
        let hw = total - usable_ram div PAGE_SIZE;
        Some (s\<lparr>extents := es4, ref_counts := rs, total_frames := total, total_usable_memory_bytes := usable_ram,
                used_frames := used, hw_reserved_frames := hw, reserved_frames := used - hw, initialized := True\<rparr>) })"

section \<open>Single frames\<close>

text \<open>The frame gets its first reference; addresses are frame numbers times the page size.\<close>

definition take_frame :: "pmm \<Rightarrow> nat \<Rightarrow> (pmm \<times> nat) option" where
  "take_frame s f =
     do { rs \<leftarrow> store (ref_counts s) f 1;
          Some (s\<lparr>ref_counts := rs, used_frames := used_frames s + 1\<rparr>, f * PAGE_SIZE) }"

fun try_nodes :: "pmm \<Rightarrow> nat list \<Rightarrow> (pmm \<times> nat option) option" where
  "try_nodes s [] = Some (s, None)"
| "try_nodes s (node_id # order) =
     (if node_id \<ge> MAX_NUMA_NODES \<or> \<not> nd_active (nodes s ! node_id) then try_nodes s order
      else do {
        (s1, r) \<leftarrow> alloc_contiguous_internal s 1 1 (Some node_id);
        case r of Some f \<Rightarrow> Some (s1, Some f) | None \<Rightarrow> try_nodes s1 order })"

definition alloc_from_node :: "pmm \<Rightarrow> nat \<Rightarrow> (pmm \<times> nat) option" where
  "alloc_from_node s preferred_node =
     do {
       let order = preferred_node # filter (\<lambda>i. i \<noteq> preferred_node) [0..<MAX_NUMA_NODES];
       (s1, r) \<leftarrow> try_nodes s order;
       case r of
         Some f \<Rightarrow> take_frame s1 f
       | None \<Rightarrow> do {
           (s2, r2) \<leftarrow> alloc_contiguous_internal s1 1 1 None;
           case r2 of Some f \<Rightarrow> take_frame s2 f | None \<Rightarrow> Some (s2, 0) } }"

definition free_frame_locked :: "pmm \<Rightarrow> nat \<Rightarrow> pmm option" where
  "free_frame_locked s ptr =
     (let frame = ptr div PAGE_SIZE
      in if ptr = 0 then Some s
         else if frame \<ge> total_frames s then Some s
         else do {
           refs \<leftarrow> load (ref_counts s) frame;
           if refs = REF_FREE \<or> refs = REF_RESERVED then None
           else do {
             let s1 = s\<lparr>ref_counts := (ref_counts s)[frame := refs - 1]\<rparr>;
             if refs - 1 = REF_FREE
             then do { es \<leftarrow> free_region_internal (extents s1) frame 1;
                       Some (s1\<lparr>extents := es, used_frames := used_frames s1 - 1\<rparr>) }
             else Some s1 } })"

definition pmm_inc_ref :: "pmm \<Rightarrow> nat \<Rightarrow> pmm option" where
  "pmm_inc_ref s ptr =
     (let frame = ptr div PAGE_SIZE
      in if ptr = 0 then Some s
         else if \<not> initialized s then Some s
         else if frame \<ge> total_frames s then Some s
         else do {
           r \<leftarrow> load (ref_counts s) frame;
           Some (if r = REF_RESERVED then s
                 else if r < 254 then s\<lparr>ref_counts := (ref_counts s)[frame := r + 1]\<rparr> else s) })"

definition pmm_dec_ref :: "pmm \<Rightarrow> nat \<Rightarrow> pmm option" where
  "pmm_dec_ref s ptr =
     (let frame = ptr div PAGE_SIZE
      in if ptr = 0 then Some s
         else if \<not> initialized s then Some s
         else if frame \<ge> total_frames s then Some s
         else do {
           refs \<leftarrow> load (ref_counts s) frame;
           if refs = REF_RESERVED then Some s
           else if refs = REF_FREE then None
           else do {
             let s1 = s\<lparr>ref_counts := (ref_counts s)[frame := refs - 1]\<rparr>;
             if refs - 1 = REF_FREE
             then do { es \<leftarrow> free_region_internal (extents s1) frame 1;
                       Some (s1\<lparr>extents := es, used_frames := used_frames s1 - 1\<rparr>) }
             else Some s1 } })"

definition pmm_get_ref :: "pmm \<Rightarrow> nat \<Rightarrow> u8 option" where
  "pmm_get_ref s ptr =
     (if \<not> initialized s \<or> ptr = 0 then Some 0
      else let frame = ptr div PAGE_SIZE
           in if frame \<ge> total_frames s then Some 0 else load (ref_counts s) frame)"

section \<open>Contiguous frames\<close>

definition pmm_alloc_contiguous_aligned :: "pmm \<Rightarrow> nat \<Rightarrow> nat \<Rightarrow> (pmm \<times> nat) option" where
  "pmm_alloc_contiguous_aligned s cnt align_pages =
     (if cnt = 0 then Some (s, 0)
      else let align = (if align_pages = 0 then 1 else align_pages)
           in if \<not> initialized s then Some (s, 0)
              else do {
                (s1, r) \<leftarrow> alloc_contiguous_internal s cnt align None;
                case r of
                  Some f \<Rightarrow> do {
                    rs \<leftarrow> set_refs (ref_counts s1) f cnt 1;
                    Some (s1\<lparr>ref_counts := rs, used_frames := used_frames s1 + cnt\<rparr>, f * PAGE_SIZE) }
                | None \<Rightarrow> Some (s1, 0) })"

definition pmm_alloc_contiguous :: "pmm \<Rightarrow> nat \<Rightarrow> (pmm \<times> nat) option" where
  "pmm_alloc_contiguous s cnt = pmm_alloc_contiguous_aligned s cnt 1"

text \<open>The loop of \<open>pmm_free_contiguous\<close>, with the run of frames that is not yet given back.\<close>

fun free_run :: "nat \<Rightarrow> nat \<Rightarrow> pmm \<Rightarrow> nat \<Rightarrow> nat \<Rightarrow> (pmm \<times> nat \<times> nat) option" where
  "free_run 0 frame s free_start free_count = Some (s, free_start, free_count)"
| "free_run (Suc n) frame s free_start free_count =
     (if frame \<ge> total_frames s then Some (s, free_start, free_count)
      else do {
        refs \<leftarrow> load (ref_counts s) frame;
        if refs = REF_FREE \<or> refs = REF_RESERVED then None
        else do {
          let s1 = s\<lparr>ref_counts := (ref_counts s)[frame := refs - 1]\<rparr>;
          if refs - 1 = REF_FREE
          then do {
            (s2, fs, fc) \<leftarrow>
              (if free_count = 0 then Some (s1, frame, 1)
               else if free_start + free_count = frame then Some (s1, free_start, free_count + 1)
               else do { es \<leftarrow> free_region_internal (extents s1) free_start free_count;
                         Some (s1\<lparr>extents := es\<rparr>, frame, 1) });
            free_run n (Suc frame) (s2\<lparr>used_frames := used_frames s2 - 1\<rparr>) fs fc }
          else free_run n (Suc frame) s1 free_start free_count } })"

definition pmm_free_contiguous :: "pmm \<Rightarrow> nat \<Rightarrow> nat \<Rightarrow> pmm option" where
  "pmm_free_contiguous s ptr cnt =
     (if ptr = 0 \<or> cnt = 0 then Some s
      else let start_frame = ptr div PAGE_SIZE
           in if \<not> initialized s then Some s
              else if start_frame \<ge> total_frames s then Some s
              else do {
                (s1, free_start, free_count) \<leftarrow> free_run cnt start_frame s 0 0;
                es \<leftarrow> free_region_internal (extents s1) free_start free_count;
                Some (s1\<lparr>extents := es\<rparr>) })"

section \<open>Magazines\<close>

fun refill_singles :: "nat \<Rightarrow> pmm \<Rightarrow> nat list \<Rightarrow> (pmm \<times> nat list) option" where
  "refill_singles 0 s fs = Some (s, fs)"
| "refill_singles (Suc n) s fs =
     do { (s1, r) \<leftarrow> alloc_contiguous_internal s 1 1 None;
          case r of
            Some f \<Rightarrow> do { rs \<leftarrow> store (ref_counts s1) f 1;
                           refill_singles n (s1\<lparr>ref_counts := rs\<rparr>) (fs @ [f]) }
          | None \<Rightarrow> Some (s1, fs) }"

definition magazine_refill :: "pmm \<Rightarrow> nat \<Rightarrow> (pmm \<times> nat) option" where
  "magazine_refill s cpu =
     (if cpu \<ge> MAX_CPUS then Some (s, 0)
      else if \<not> initialized s then Some (s, 0)
      else do {
        (s1, r) \<leftarrow> alloc_contiguous_internal s MAGAZINE_SIZE 1 None;
        (s2, fs) \<leftarrow>
          (case r of
             Some f \<Rightarrow> do { rs \<leftarrow> set_refs (ref_counts s1) f MAGAZINE_SIZE 1;
                            Some (s1\<lparr>ref_counts := rs\<rparr>, [f..<f + MAGAZINE_SIZE]) }
           | None \<Rightarrow> refill_singles MAGAZINE_SIZE s1 []);
        let loaded = length fs;
        Some (s2\<lparr>magazines := (magazines s2)[cpu := fs], used_frames := used_frames s2 + loaded,
                 magazine_total := magazine_total s2 + loaded\<rparr>, loaded) })"

fun flush_frames :: "pmm \<Rightarrow> nat list \<Rightarrow> pmm option" where
  "flush_frames s [] = Some s"
| "flush_frames s (f # fs) = do { s1 \<leftarrow> free_frame_locked s (f * PAGE_SIZE); flush_frames s1 fs }"

definition magazine_flush :: "pmm \<Rightarrow> nat \<Rightarrow> pmm option" where
  "magazine_flush s cpu =
     (if cpu \<ge> MAX_CPUS then Some s
      else let mag = magazines s ! cpu
           in if mag = [] then Some s
              else do {
                s1 \<leftarrow> flush_frames s mag;
                Some (s1\<lparr>magazines := (magazines s1)[cpu := []],
                         magazine_total := magazine_total s1 - length mag\<rparr>) })"

text \<open>Taking the last frame of a magazine that is not empty.\<close>

definition magazine_pop :: "pmm \<Rightarrow> nat \<Rightarrow> pmm \<times> nat" where
  "magazine_pop s cpu =
     (let mag = magazines s ! cpu
      in (s\<lparr>magazines := (magazines s)[cpu := butlast mag], magazine_total := magazine_total s - 1\<rparr>,
          last mag * PAGE_SIZE))"

definition pmm_alloc_frame :: "pmm \<Rightarrow> nat \<Rightarrow> (pmm \<times> nat) option" where
  "pmm_alloc_frame s cpu =
     do {
       (s1, r) \<leftarrow>
         (if cpu < MAX_CPUS
          then if magazines s ! cpu \<noteq> [] then Some (map_prod id Some (magazine_pop s cpu))
               else do {
                 (s1, loaded) \<leftarrow> magazine_refill s cpu;
                 Some (if loaded > 0 then map_prod id Some (magazine_pop s1 cpu) else (s1, None)) }
          else Some (s, None));
       case r of
         Some p \<Rightarrow> Some (s1, p)
       | None \<Rightarrow> if \<not> initialized s1 then Some (s1, 0) else alloc_from_node s1 0 }"

definition pmm_free_frame :: "pmm \<Rightarrow> nat \<Rightarrow> nat \<Rightarrow> pmm option" where
  "pmm_free_frame s cpu ptr =
     (if ptr = 0 then Some s
      else let frame = ptr div PAGE_SIZE
           in if cpu < MAX_CPUS
              then let mag = magazines s ! cpu
                   in if length mag < MAGAZINE_SIZE
                      then Some (s\<lparr>magazines := (magazines s)[cpu := mag @ [frame]],
                                   magazine_total := magazine_total s + 1\<rparr>)
                      else do {
                        s1 \<leftarrow> magazine_flush s cpu;
                        Some (s1\<lparr>magazines := (magazines s1)[cpu := [frame]],
                                 magazine_total := magazine_total s1 + 1\<rparr>) }
              else free_frame_locked s ptr)"

section \<open>Statistics and NUMA nodes\<close>

definition pmm_get_used_memory :: "pmm \<Rightarrow> nat" where
  "pmm_get_used_memory s =
     (let effective = used_frames s - magazine_total s
      in if effective > hw_reserved_frames s then (effective - hw_reserved_frames s) * PAGE_SIZE else 0)"

definition pmm_get_free_memory :: "pmm \<Rightarrow> nat" where
  "pmm_get_free_memory s = total_usable_memory_bytes s - pmm_get_used_memory s"

definition pmm_get_reserved_memory :: "pmm \<Rightarrow> nat" where
  "pmm_get_reserved_memory s = reserved_frames s * PAGE_SIZE"

definition pmm_is_low_memory :: "pmm \<Rightarrow> bool" where
  "pmm_is_low_memory s =
     (let total = total_usable_memory_bytes s
      in total \<noteq> 0 \<and> pmm_get_used_memory s * 100 div total > 90)"

definition pmm_register_region :: "pmm \<Rightarrow> nat \<Rightarrow> nat \<Rightarrow> nat \<Rightarrow> pmm" where
  "pmm_register_region s idx base len =
     (if idx \<ge> MAX_NUMA_NODES then s
      else let sf = base div PAGE_SIZE;
               ef = (base + len) div PAGE_SIZE;
               nd = nodes s ! idx;
               nd' = (if nd_active nd
                      then nd\<lparr>nd_start := (if sf < nd_start nd then sf else nd_start nd),
                              nd_end := (if ef > nd_end nd then ef else nd_end nd)\<rparr>
                      else \<lparr>nd_active = True, nd_start = sf, nd_end = ef\<rparr>)
           in s\<lparr>nodes := (nodes s)[idx := nd']\<rparr>)"

definition pmm_remaining_pages :: "pmm \<Rightarrow> (nat \<times> nat) option" where
  "pmm_remaining_pages s =
     (let total_ram = total_usable_memory_bytes s; mapped_limit = 4 * 1024 * 1024 * 1024
      in if total_ram \<le> mapped_limit then None
         else Some (mapped_limit, div_ceil (total_ram - mapped_limit) 0x200000))"

section \<open>Extents as sets of frames\<close>

definition frames :: "extent list \<Rightarrow> nat set" where
  "frames es = (\<Union>e \<in> set es. {ext_start e..<ext_start e + ext_count e})"

definition before :: "extent \<Rightarrow> extent \<Rightarrow> bool" where
  "before a b \<longleftrightarrow> ext_start a + ext_count a \<le> ext_start b"

definition ext_wf :: "extent list \<Rightarrow> bool" where
  "ext_wf es \<longleftrightarrow> sorted_wrt before es \<and> (\<forall>e \<in> set es. 0 < ext_count e)"

lemma frames_simps [simp]:
  "frames [] = {}" "frames (e # es) = {ext_start e..<ext_start e + ext_count e} \<union> frames es"
  "frames (es @ fs) = frames es \<union> frames fs"
  by (auto simp: frames_def)

lemma ext_wf_simps [simp]:
  "ext_wf []" "ext_wf (e # es) \<longleftrightarrow> 0 < ext_count e \<and> (\<forall>x \<in> set es. before e x) \<and> ext_wf es"
  by (auto simp: ext_wf_def)

lemma ext_wf_append: "ext_wf (es @ fs) \<longleftrightarrow> ext_wf es \<and> ext_wf fs \<and> (\<forall>a \<in> set es. \<forall>b \<in> set fs. before a b)"
  by (auto simp: ext_wf_def sorted_wrt_append)

lemma set_insert_extent: "set (insert_extent x es) = insert x (set es)"
  by (induction es) auto

lemma frames_insert_extent: "frames (insert_extent x es) = {ext_start x..<ext_start x + ext_count x} \<union> frames es"
  by (simp add: frames_def set_insert_extent)

lemma length_insert_extent: "length (insert_extent x es) = Suc (length es)"
  by (induction es) auto

lemma disjoint_before:
  assumes "{ext_start a..<ext_start a + ext_count a} \<inter> {ext_start b..<ext_start b + ext_count b} = {}"
    and "0 < ext_count a" and "0 < ext_count b" and "ext_start a \<le> ext_start b"
  shows "before a b"
proof (rule ccontr)
  assume "\<not> before a b"
  then have "ext_start b \<in> {ext_start a..<ext_start a + ext_count a} \<inter> {ext_start b..<ext_start b + ext_count b}"
    using assms(3,4) by (simp add: before_def)
  then show False using assms(1) by blast
qed

lemma ext_wf_insert:
  "ext_wf es \<Longrightarrow> 0 < ext_count x \<Longrightarrow> {ext_start x..<ext_start x + ext_count x} \<inter> frames es = {} \<Longrightarrow>
   ext_wf (insert_extent x es)"
proof (induction es)
  case (Cons e es)
  have d: "{ext_start x..<ext_start x + ext_count x} \<inter> {ext_start e..<ext_start e + ext_count e} = {}"
    "{ext_start x..<ext_start x + ext_count x} \<inter> frames es = {}"
    using Cons.prems(3) by (simp_all only: frames_simps Int_Un_distrib Un_empty)
  show ?case
  proof (cases "ext_start e > ext_start x")
    case True
    then have "before x e" using disjoint_before[OF d(1)] Cons.prems(1,2) by simp
    moreover have "before x y" if "y \<in> set es" for y
      using \<open>before x e\<close> Cons.prems(1) that by (force simp: before_def)
    ultimately show ?thesis using True Cons.prems(1,2) by simp
  next
    case False
    have "before e x" using False disjoint_before[of e x] d(1) Cons.prems(1,2) by (simp add: Int_commute)
    then show ?thesis using False Cons.prems(1,2) Cons.IH[OF _ _ d(2)] by (simp add: set_insert_extent)
  qed
qed simp

text \<open>Merging keeps the frames and separates the extents strictly.\<close>

definition apart :: "extent \<Rightarrow> extent \<Rightarrow> bool" where
  "apart a b \<longleftrightarrow> ext_start a + ext_count a < ext_start b"

lemma merge_extents_ok:
  "ext_wf (w # rs) \<Longrightarrow>
   frames (merge_extents w rs) = frames (w # rs) \<and> ext_wf (merge_extents w rs) \<and> sorted_wrt apart (merge_extents w rs)
   \<and> length (merge_extents w rs) \<le> Suc (length rs) \<and> (\<forall>x \<in> set (merge_extents w rs). ext_start w \<le> ext_start x)"
proof (induction rs arbitrary: w)
  case (Cons r rs)
  show ?case
  proof (cases "ext_start w + ext_count w = ext_start r")
    case True
    let ?w = "w\<lparr>ext_count := ext_count w + ext_count r\<rparr>"
    have "ext_wf (?w # rs)" using Cons.prems True by (auto simp: before_def)
    from Cons.IH[OF this] True show ?thesis by auto
  next
    case False
    have r: "ext_wf (r # rs)" "before w r" using Cons.prems by simp_all
    then have a: "apart w r" using False by (simp add: apart_def before_def)
    have ih: "frames (merge_extents r rs) = frames (r # rs)" "ext_wf (merge_extents r rs)"
      "sorted_wrt apart (merge_extents r rs)" "length (merge_extents r rs) \<le> Suc (length rs)"
      "\<forall>x \<in> set (merge_extents r rs). ext_start r \<le> ext_start x" using Cons.IH[OF r(1)] by simp_all
    have "apart w x \<and> before w x \<and> ext_start w \<le> ext_start x" if "x \<in> set (merge_extents r rs)" for x
      using a ih(5) that by (force simp: apart_def before_def)
    then show ?thesis using False ih Cons.prems by simp
  qed
qed simp

lemma coalesce_ok:
  assumes "ext_wf es"
  shows "frames (coalesce es) = frames es \<and> ext_wf (coalesce es) \<and> sorted_wrt apart (coalesce es) \<and> length (coalesce es) \<le> length es"
proof (cases es)
  case (Cons e fs)
  then show ?thesis using merge_extents_ok[of e fs] assms by simp
qed simp

lemma free_region_ok:
  assumes "ext_wf es" and "length es < MAX_EXTENTS" and "{start..<start + cnt} \<inter> frames es = {}"
  shows "\<exists>es'. free_region_internal es start cnt = Some es' \<and> ext_wf es'
    \<and> frames es' = frames es \<union> {start..<start + cnt} \<and> length es' \<le> Suc (length es)
    \<and> (0 < cnt \<longrightarrow> sorted_wrt apart es')"
proof (cases "cnt = 0")
  case True
  then show ?thesis using assms(1) by (simp add: free_region_internal_def)
next
  case False
  let ?es = "insert_extent \<lparr>ext_start = start, ext_count = cnt\<rparr> es"
  have "ext_wf ?es" using ext_wf_insert[OF assms(1), of "\<lparr>ext_start = start, ext_count = cnt\<rparr>"] False assms(3) by simp
  from coalesce_ok[OF this] show ?thesis
    using False assms(2) by (auto simp: free_region_internal_def frames_insert_extent length_insert_extent)
qed

section \<open>Searching the extents\<close>

lemma ext_wf_remove:
  assumes "ext_wf (pre @ e # post)"
  shows "ext_wf (pre @ post) \<and> {ext_start e..<ext_start e + ext_count e} \<inter> frames (pre @ post) = {}"
proof
  show "ext_wf (pre @ post)" using assms by (auto simp: ext_wf_append)
  have "{ext_start e..<ext_start e + ext_count e} \<inter> {ext_start x..<ext_start x + ext_count x} = {}"
    if "x \<in> set (pre @ post)" for x
  proof -
    have "before x e \<or> before e x" using assms that by (auto simp: ext_wf_append)
    then show ?thesis by (auto simp: before_def)
  qed
  then show "{ext_start e..<ext_start e + ext_count e} \<inter> frames (pre @ post) = {}" unfolding frames_def by blast
qed

definition fits_extent :: "numa_node list \<Rightarrow> nat \<Rightarrow> nat \<Rightarrow> nat option \<Rightarrow> extent \<Rightarrow> bool" where
  "fits_extent nds cnt align pref e \<longleftrightarrow>
     (let a = align_up (ext_start e) align
      in ext_start e \<le> a \<and> valid_node nds pref a cnt \<and> a + cnt \<le> ext_start e + ext_count e)"

lemma cut_extent:
  assumes "ext_wf (pre @ e # post)" and "length (pre @ e # post) < MAX_EXTENTS"
    and a: "ext_start e \<le> a" "a + cnt \<le> ext_start e + ext_count e"
  shows "\<exists>es1 es2. free_region_internal (pre @ post) (a + cnt) ((ext_start e + ext_count e) - (a + cnt)) = Some es1
    \<and> free_region_internal es1 (ext_start e) (a - ext_start e) = Some es2 \<and> ext_wf es2
    \<and> frames es2 = frames (pre @ e # post) - {a..<a + cnt} \<and> length es2 \<le> Suc (length (pre @ e # post))"
proof -
  let ?E = "{ext_start e..<ext_start e + ext_count e}" and ?A = "frames (pre @ post)"
  let ?rem = "{a + cnt..<a + cnt + ((ext_start e + ext_count e) - (a + cnt))}"
  have w: "ext_wf (pre @ post)" "?E \<inter> ?A = {}" using ext_wf_remove[OF assms(1)] by simp_all
  have rem: "?rem = {a + cnt..<ext_start e + ext_count e}" using a by simp
  have "?rem \<subseteq> ?E" unfolding rem using a by auto
  then have d1: "?rem \<inter> ?A = {}" using w(2) by blast
  obtain es1 where es1: "free_region_internal (pre @ post) (a + cnt) ((ext_start e + ext_count e) - (a + cnt)) = Some es1"
    "ext_wf es1" "frames es1 = ?A \<union> ?rem" "length es1 \<le> Suc (length (pre @ post))"
    using free_region_ok[OF w(1) _ d1] assms(2) by auto
  let ?sh = "{ext_start e..<ext_start e + (a - ext_start e)}"
  have sh: "?sh = {ext_start e..<a}" using a by simp
  have "?sh \<subseteq> ?E" "?sh \<inter> ?rem = {}" unfolding sh rem using a by auto
  then have d2: "?sh \<inter> frames es1 = {}" unfolding es1(3) using w(2) by blast
  obtain es2 where es2: "free_region_internal es1 (ext_start e) (a - ext_start e) = Some es2"
    "ext_wf es2" "frames es2 = frames es1 \<union> ?sh" "length es2 \<le> Suc (length es1)"
    using free_region_ok[OF es1(2) _ d2] es1(4) assms(2) by auto
  have "?rem \<union> ?sh = ?E - {a..<a + cnt}" unfolding rem sh using a by auto
  moreover have "{a..<a + cnt} \<subseteq> ?E" using a by auto
  ultimately have "?A \<union> ?rem \<union> ?sh = (?E \<union> ?A) - {a..<a + cnt}" using w(2) by blast
  then have "frames es2 = frames (pre @ e # post) - {a..<a + cnt}" unfolding es2(3) es1(3) by (simp add: Un_left_commute)
  then show ?thesis using es1(1,4) es2 by auto
qed

lemma alloc_scan_ok:
  "ext_wf (pre @ es) \<Longrightarrow> length (pre @ es) < MAX_EXTENTS \<Longrightarrow>
   \<exists>r. alloc_scan nds cnt align pref pre es = Some r \<and>
     (case r of
        None \<Rightarrow> \<forall>e \<in> set es. \<not> fits_extent nds cnt align pref e
      | Some (es', a) \<Rightarrow> ext_wf es' \<and> {a..<a + cnt} \<subseteq> frames (pre @ es) \<and> frames es' = frames (pre @ es) - {a..<a + cnt}
          \<and> length es' \<le> Suc (length (pre @ es))
          \<and> (\<exists>e \<in> set es. a = align_up (ext_start e) align \<and> fits_extent nds cnt align pref e))"
proof (induction es arbitrary: pre)
  case (Cons e post)
  let ?a = "align_up (ext_start e) align"
  have c: "(ext_start e \<le> ?a \<and> valid_node nds pref ?a cnt \<and> ?a - ext_start e + cnt \<le> ext_count e)
      = fits_extent nds cnt align pref e" by (auto simp: fits_extent_def Let_def)
  show ?case
  proof (cases "fits_extent nds cnt align pref e")
    case True
    then have a: "ext_start e \<le> ?a" "?a + cnt \<le> ext_start e + ext_count e" by (auto simp: fits_extent_def Let_def)
    obtain es1 es2 where r: "free_region_internal (pre @ post) (?a + cnt) ((ext_start e + ext_count e) - (?a + cnt)) = Some es1"
      "free_region_internal es1 (ext_start e) (?a - ext_start e) = Some es2" "ext_wf es2"
      "frames es2 = frames (pre @ e # post) - {?a..<?a + cnt}" "length es2 \<le> Suc (length (pre @ e # post))"
      using cut_extent[OF Cons.prems a] by blast
    have "{?a..<?a + cnt} \<subseteq> frames (pre @ e # post)" using a by auto
    moreover have "alloc_scan nds cnt align pref pre (e # post) = Some (Some (es2, ?a))"
      unfolding alloc_scan.simps Let_def c using True r(1,2) by simp
    ultimately show ?thesis using r(3-5) True by auto
  next
    case False
    have "ext_wf ((pre @ [e]) @ post)" "length ((pre @ [e]) @ post) < MAX_EXTENTS" using Cons.prems by simp_all
    from Cons.IH[OF this, unfolded append_assoc append_Cons append_Nil] obtain r where
      r: "alloc_scan nds cnt align pref (pre @ [e]) post = Some r"
      "case r of
        None \<Rightarrow> \<forall>e \<in> set post. \<not> fits_extent nds cnt align pref e
      | Some (es', a) \<Rightarrow> ext_wf es' \<and> {a..<a + cnt} \<subseteq> frames (pre @ e # post) \<and> frames es' = frames (pre @ e # post) - {a..<a + cnt}
          \<and> length es' \<le> Suc (length (pre @ e # post))
          \<and> (\<exists>e \<in> set post. a = align_up (ext_start e) align \<and> fits_extent nds cnt align pref e)" by blast
    have "alloc_scan nds cnt align pref pre (e # post) = Some r"
      unfolding alloc_scan.simps Let_def c using False r(1) by simp
    then show ?thesis using r(2) False by (auto split: option.splits)
  qed
qed simp

section \<open>The invariant\<close>

text \<open>
  The free frames are exactly those with reference count 0, and the counter of used frames is right;
  \<open>k\<close> frames have been taken but are not counted yet. Frame 0 is never free, so that no address
  handed out is null.
\<close>

definition core_ok :: "nat \<Rightarrow> pmm \<Rightarrow> bool" where
  "core_ok k s \<longleftrightarrow> ext_wf (extents s) \<and> length (ref_counts s) = total_frames s
     \<and> (\<forall>f. f \<in> frames (extents s) \<longleftrightarrow> f < total_frames s \<and> ref_counts s ! f = 0)
     \<and> used_frames s + k + card (frames (extents s)) = total_frames s \<and> 0 \<notin> frames (extents s)"

text \<open>The frames in magazines are distinct and have one reference.\<close>

definition mag_ok :: "pmm \<Rightarrow> bool" where
  "mag_ok s \<longleftrightarrow> length (magazines s) = MAX_CPUS \<and> distinct (concat (magazines s))
     \<and> (\<forall>m \<in> set (magazines s). length m \<le> MAGAZINE_SIZE) \<and> magazine_total s = length (concat (magazines s))
     \<and> (\<forall>f \<in> set (concat (magazines s)). 0 < f \<and> f < total_frames s \<and> ref_counts s ! f = 1)"

definition pmm_ok :: "pmm \<Rightarrow> bool" where
  "pmm_ok s \<longleftrightarrow> core_ok 0 s \<and> mag_ok s \<and> length (nodes s) = MAX_NUMA_NODES"

lemma finite_frames [simp]: "finite (frames es)"
  by (simp add: frames_def)

lemma set_refs_ok:
  "f + n \<le> length rs \<Longrightarrow> \<exists>rs'. set_refs rs f n v = Some rs' \<and> length rs' = length rs
     \<and> (\<forall>i < length rs. rs' ! i = (if f \<le> i \<and> i < f + n then v else rs ! i))"
proof (induction n arbitrary: f rs)
  case (Suc n)
  obtain rs' where "set_refs (rs[f := v]) (Suc f) n v = Some rs'" "length rs' = length rs"
    "\<forall>i < length rs. rs' ! i = (if Suc f \<le> i \<and> i < Suc f + n then v else rs[f := v] ! i)"
    using Suc.IH[of "Suc f" "rs[f := v]"] Suc.prems by auto
  then show ?case using Suc.prems by (auto simp: store_def nth_list_update)
qed auto

lemma set_refs_1: "set_refs rs f 1 v = store rs f v"
  by (simp add: store_def)

text \<open>Taking frames out of the extents and giving each its first reference.\<close>

lemma grab_frames:
  assumes ok: "core_ok k s" and "length (extents s) < MAX_EXTENTS" and "0 < cnt"
  shows "\<exists>s1 r. alloc_contiguous_internal s cnt align pref = Some (s1, r) \<and>
    (case r of
       None \<Rightarrow> s1 = s \<and> (\<forall>e \<in> set (extents s). \<not> fits_extent (nodes s) cnt align pref e)
     | Some f \<Rightarrow> \<exists>rs. ref_counts s1 = ref_counts s \<and> set_refs (ref_counts s) f cnt 1 = Some rs
         \<and> core_ok (k + cnt) (s1\<lparr>ref_counts := rs\<rparr>) \<and> s1 = s\<lparr>extents := extents s1\<rparr> \<and> 0 < f
         \<and> {f..<f + cnt} \<subseteq> frames (extents s) \<and> frames (extents s1) = frames (extents s) - {f..<f + cnt}
         \<and> length (extents s1) \<le> Suc (length (extents s))
         \<and> (\<forall>i < total_frames s. rs ! i = (if f \<le> i \<and> i < f + cnt then 1 else ref_counts s ! i))
         \<and> (\<exists>e \<in> set (extents s). f = align_up (ext_start e) align \<and> fits_extent (nodes s) cnt align pref e))"
proof -
  have wf: "ext_wf (extents s)" and len: "length (ref_counts s) = total_frames s"
    and fr: "\<And>f. f \<in> frames (extents s) \<longleftrightarrow> f < total_frames s \<and> ref_counts s ! f = 0"
    and cnt: "used_frames s + k + card (frames (extents s)) = total_frames s" and z: "0 \<notin> frames (extents s)"
    using ok unfolding core_ok_def by blast+
  from alloc_scan_ok[of "[]" "extents s" "nodes s" cnt align pref, unfolded append_Nil, OF wf assms(2)] obtain r where
    r: "alloc_scan (nodes s) cnt align pref [] (extents s) = Some r"
      "case r of
        None \<Rightarrow> \<forall>e \<in> set (extents s). \<not> fits_extent (nodes s) cnt align pref e
      | Some (es', a) \<Rightarrow> ext_wf es' \<and> {a..<a + cnt} \<subseteq> frames (extents s) \<and> frames es' = frames (extents s) - {a..<a + cnt}
          \<and> length es' \<le> Suc (length (extents s))
          \<and> (\<exists>e \<in> set (extents s). a = align_up (ext_start e) align \<and> fits_extent (nodes s) cnt align pref e)" by blast
  show ?thesis
  proof (cases r)
    case None
    then show ?thesis using r by (simp add: alloc_contiguous_internal_def)
  next
    case (Some ef)
    obtain es' f where ef: "ef = (es', f)" by force
    have e: "ext_wf es'" "{f..<f + cnt} \<subseteq> frames (extents s)" "frames es' = frames (extents s) - {f..<f + cnt}"
      "length es' \<le> Suc (length (extents s))"
      "\<exists>e \<in> set (extents s). f = align_up (ext_start e) align \<and> fits_extent (nodes s) cnt align pref e"
      using r(2) Some ef by simp_all
    have f: "f + (cnt - 1) \<in> frames (extents s)" "f \<in> frames (extents s)" using e(2) assms(3) by auto
    then have lt: "f + cnt \<le> total_frames s" using fr[of "f + (cnt - 1)"] assms(3) by linarith
    obtain rs where rs: "set_refs (ref_counts s) f cnt 1 = Some rs" "length rs = total_frames s"
      "\<forall>i < total_frames s. rs ! i = (if f \<le> i \<and> i < f + cnt then 1 else ref_counts s ! i)"
      using set_refs_ok[of f cnt "ref_counts s" 1] lt len by auto
    have "card (frames es') + cnt = card (frames (extents s))"
      using card_Diff_subset[OF _ e(2)] card_mono[OF _ e(2)] e(3) by simp
    then have c: "used_frames s + (k + cnt) + card (frames es') = total_frames s" using cnt by simp
    have g: "g \<in> frames es' \<longleftrightarrow> g < total_frames s \<and> rs ! g = 0" for g
    proof (cases "f \<le> g \<and> g < f + cnt")
      case True
      then have "g \<notin> frames es'" "g < total_frames s" using e(3) lt by simp_all
      then show ?thesis using rs(3)[rule_format, of g] True by simp
    next
      case False
      then have "g \<in> frames es' \<longleftrightarrow> g \<in> frames (extents s)" using e(3) by simp
      then show ?thesis using rs(3)[rule_format, of g] False fr[of g] by (cases "g < total_frames s") simp_all
    qed
    have "0 \<notin> frames es'" using e(3) z by blast
    with c g have "core_ok (k + cnt) (s\<lparr>extents := es', ref_counts := rs\<rparr>)"
      unfolding core_ok_def using e(1) rs(2) by simp
    moreover have "0 < f" using f(2) z by (metis gr0I)
    ultimately show ?thesis using r(1) Some ef e rs by (simp add: alloc_contiguous_internal_def)
  qed
qed

text \<open>What does not matter to the magazines: changes of frames that are not in them.\<close>

lemma mag_ok_same:
  assumes "mag_ok s" and "magazines t = magazines s" and "magazine_total t = magazine_total s" and "total_frames t = total_frames s"
    and "\<And>f. f < total_frames s \<Longrightarrow> ref_counts s ! f = 1 \<Longrightarrow> f \<in> set (concat (magazines s)) \<Longrightarrow> ref_counts t ! f = 1"
  shows "mag_ok t"
  using assms unfolding mag_ok_def by metis

lemma core_refs: "core_ok k s \<Longrightarrow> f \<in> frames (extents s) \<Longrightarrow> f < total_frames s \<and> ref_counts s ! f = 0"
  unfolding core_ok_def by blast

lemma core_ok_cong:
  "extents t = extents s \<Longrightarrow> ref_counts t = ref_counts s \<Longrightarrow> total_frames t = total_frames s \<Longrightarrow>
   used_frames t = used_frames s \<Longrightarrow> core_ok k t = core_ok k s"
  by (simp only: core_ok_def)

lemma core_ok_used:
  assumes "core_ok (k + n) s"
  shows "core_ok k (s\<lparr>used_frames := used_frames s + n\<rparr>)"
proof -
  have "ext_wf (extents s)" "length (ref_counts s) = total_frames s" "0 \<notin> frames (extents s)"
    "\<And>f. f \<in> frames (extents s) \<longleftrightarrow> f < total_frames s \<and> ref_counts s ! f = 0"
    "used_frames s + (k + n) + card (frames (extents s)) = total_frames s"
    using assms unfolding core_ok_def by blast+
  then show ?thesis unfolding core_ok_def by simp
qed

section \<open>Contiguous allocation\<close>

lemma mask_word: "k < 64 \<Longrightarrow> (of_nat (2 ^ k) - 1 :: u64) = mask k"
  by (simp add: mask_eq_exp_minus_1)

lemma align_up_multiple:
  assumes "k < 64"
  shows "align_up start (2 ^ k) mod 2 ^ k = 0"
proof -
  define x :: u64 where "x = of_nat start + of_nat (2 ^ k) - 1"
  define w where "w = x AND NOT (mask k)"
  have "take_bit k w = 0" unfolding w_def by (rule bit_eqI) (simp add: bit_simps)
  then have "unat (take_bit k w) = 0" by simp
  then have "take_bit k (unat w) = 0" by (simp only: unsigned_take_bit_eq)
  moreover have "align_up start (2 ^ k) = unat w"
    unfolding align_up_def mask_word[OF assms] w_def x_def by (rule refl)
  ultimately show ?thesis by (simp add: take_bit_eq_mod)
qed

lemma alloc_contiguous_spec:
  fixes align :: nat
  assumes ok: "pmm_ok s" and "initialized s" and "length (extents s) < MAX_EXTENTS" and "0 < cnt"
  defines "al \<equiv> (if align = 0 then 1 else align)"
  shows "(\<forall>e \<in> set (extents s). \<not> fits_extent (nodes s) cnt al None e) \<and> pmm_alloc_contiguous_aligned s cnt align = Some (s, 0)
    \<or> (\<exists>s' f e. pmm_alloc_contiguous_aligned s cnt align = Some (s', f * PAGE_SIZE) \<and> pmm_ok s' \<and> 0 < f
        \<and> {f..<f + cnt} \<subseteq> frames (extents s) \<and> frames (extents s') = frames (extents s) - {f..<f + cnt}
        \<and> (\<forall>i < total_frames s. ref_counts s' ! i = (if f \<le> i \<and> i < f + cnt then 1 else ref_counts s ! i))
        \<and> initialized s' \<and> total_frames s' = total_frames s \<and> magazines s' = magazines s
        \<and> used_frames s' = used_frames s + cnt \<and> length (extents s') \<le> Suc (length (extents s))
        \<and> e \<in> set (extents s) \<and> f = align_up (ext_start e) al)"
proof -
  have c: "core_ok 0 s" "mag_ok s" "length (nodes s) = MAX_NUMA_NODES" using ok by (simp_all add: pmm_ok_def)
  obtain s1 r where s1: "alloc_contiguous_internal s cnt al None = Some (s1, r)"
    and r: "case r of
       None \<Rightarrow> s1 = s \<and> (\<forall>e \<in> set (extents s). \<not> fits_extent (nodes s) cnt al None e)
     | Some f \<Rightarrow> \<exists>rs. ref_counts s1 = ref_counts s \<and> set_refs (ref_counts s) f cnt 1 = Some rs
         \<and> core_ok (0 + cnt) (s1\<lparr>ref_counts := rs\<rparr>) \<and> s1 = s\<lparr>extents := extents s1\<rparr> \<and> 0 < f
         \<and> {f..<f + cnt} \<subseteq> frames (extents s) \<and> frames (extents s1) = frames (extents s) - {f..<f + cnt}
         \<and> length (extents s1) \<le> Suc (length (extents s))
         \<and> (\<forall>i < total_frames s. rs ! i = (if f \<le> i \<and> i < f + cnt then 1 else ref_counts s ! i))
         \<and> (\<exists>e \<in> set (extents s). f = align_up (ext_start e) al \<and> fits_extent (nodes s) cnt al None e)"
    using grab_frames[OF c(1) assms(3,4)] by blast
  show ?thesis
  proof (cases r)
    case None
    then show ?thesis using s1 r assms(2,4) by (simp add: pmm_alloc_contiguous_aligned_def al_def Let_def)
  next
    case (Some f)
    then obtain rs e where f: "ref_counts s1 = ref_counts s" "set_refs (ref_counts s) f cnt 1 = Some rs"
      "core_ok cnt (s1\<lparr>ref_counts := rs\<rparr>)" "s1 = s\<lparr>extents := extents s1\<rparr>" "0 < f"
      "{f..<f + cnt} \<subseteq> frames (extents s)" "frames (extents s1) = frames (extents s) - {f..<f + cnt}"
      "length (extents s1) \<le> Suc (length (extents s))"
      "\<forall>i < total_frames s. rs ! i = (if f \<le> i \<and> i < f + cnt then 1 else ref_counts s ! i)"
      "e \<in> set (extents s)" "f = align_up (ext_start e) al" using r by auto
    let ?s' = "s1\<lparr>ref_counts := rs, used_frames := used_frames s1 + cnt\<rparr>"
    have eq: "total_frames s1 = total_frames s" "magazines s1 = magazines s" "magazine_total s1 = magazine_total s"
      "nodes s1 = nodes s" "initialized s1 = initialized s" "used_frames s1 = used_frames s"
      by (subst f(4), simp)+
    have "core_ok 0 ?s'" using core_ok_used[of 0 cnt "s1\<lparr>ref_counts := rs\<rparr>"] f(3) by simp
    moreover have "mag_ok ?s'"
      using f(9) by (intro mag_ok_same[OF c(2)]) (auto simp: eq)
    ultimately have "pmm_ok ?s'" using c(3) eq by (simp add: pmm_ok_def)
    moreover have "pmm_alloc_contiguous_aligned s cnt align = Some (?s', f * PAGE_SIZE)"
      using s1 Some f(1,2) assms(2,4) by (simp add: pmm_alloc_contiguous_aligned_def al_def Let_def)
    ultimately show ?thesis using f eq assms(2) by (intro disjI2 exI[of _ ?s'] exI[of _ f] exI[of _ e]) simp
  qed
qed

section \<open>Giving frames back\<close>

lemma free_run_ones:
  "length (ref_counts s) = total_frames s \<Longrightarrow> frame + n \<le> total_frames s \<Longrightarrow>
   \<forall>i. frame \<le> i \<and> i < frame + n \<longrightarrow> ref_counts s ! i = 1 \<Longrightarrow> fc = 0 \<or> fs + fc = frame \<Longrightarrow>
   \<exists>rs. free_run n frame s fs fc = Some (s\<lparr>ref_counts := rs, used_frames := used_frames s - n\<rparr>,
        if fc = 0 \<and> 0 < n then frame else fs, fc + n) \<and> length rs = total_frames s
     \<and> (\<forall>i < total_frames s. rs ! i = (if frame \<le> i \<and> i < frame + n then 0 else ref_counts s ! i))"
proof (induction n arbitrary: frame s fs fc)
  case 0
  then show ?case by (intro exI[of _ "ref_counts s"]) auto
next
  case (Suc n)
  have r: "frame < total_frames s" "ref_counts s ! frame = 1" using Suc.prems(2,3) by auto
  let ?s = "s\<lparr>ref_counts := (ref_counts s)[frame := 0], used_frames := used_frames s - 1\<rparr>"
  define fs' where "fs' = (if fc = 0 then frame else fs)"
  have step: "free_run (Suc n) frame s fs fc = free_run n (Suc frame) ?s fs' (fc + 1)"
    using r Suc.prems(1,4) by (auto simp: load_def fs'_def)
  have p: "length (ref_counts ?s) = total_frames ?s" "Suc frame + n \<le> total_frames ?s"
    "\<forall>i. Suc frame \<le> i \<and> i < Suc frame + n \<longrightarrow> ref_counts ?s ! i = 1" "fc + 1 = 0 \<or> fs' + (fc + 1) = Suc frame"
    using Suc.prems by (auto simp: fs'_def)
  from Suc.IH[OF p] obtain rs where rs: "free_run n (Suc frame) ?s fs' (fc + 1)
      = Some (?s\<lparr>ref_counts := rs, used_frames := used_frames ?s - n\<rparr>, fs', fc + 1 + n)" "length rs = total_frames ?s"
    "\<forall>i < total_frames ?s. rs ! i = (if Suc frame \<le> i \<and> i < Suc frame + n then 0 else ref_counts ?s ! i)" by auto
  have "rs ! i = (if frame \<le> i \<and> i < frame + Suc n then 0 else ref_counts s ! i)" if "i < total_frames s" for i
    using rs(3)[rule_format, of i] that Suc.prems(1) r(1) by (cases "i = frame") auto
  then show ?case using step rs(1,2) by (auto simp: fs'_def)
qed

lemma free_contiguous_spec:
  assumes ok: "pmm_ok s" and "initialized s" and "length (extents s) < MAX_EXTENTS" and "0 < cnt" and "0 < f"
    and "f + cnt \<le> total_frames s" and one: "\<forall>i. f \<le> i \<and> i < f + cnt \<longrightarrow> ref_counts s ! i = 1"
    and mg: "{f..<f + cnt} \<inter> set (concat (magazines s)) = {}"
  shows "\<exists>s'. pmm_free_contiguous s (f * PAGE_SIZE) cnt = Some s' \<and> pmm_ok s'
    \<and> frames (extents s') = frames (extents s) \<union> {f..<f + cnt} \<and> used_frames s' = used_frames s - cnt
    \<and> total_frames s' = total_frames s \<and> length (ref_counts s') = total_frames s
    \<and> (\<forall>i < total_frames s. ref_counts s' ! i = (if f \<le> i \<and> i < f + cnt then 0 else ref_counts s ! i))"
proof -
  have c: "core_ok 0 s" "mag_ok s" "length (nodes s) = MAX_NUMA_NODES" using ok by (simp_all add: pmm_ok_def)
  have wf: "ext_wf (extents s)" and len: "length (ref_counts s) = total_frames s"
    and fr: "\<And>g. g \<in> frames (extents s) \<longleftrightarrow> g < total_frames s \<and> ref_counts s ! g = 0"
    and cnt: "used_frames s + card (frames (extents s)) = total_frames s" and z: "0 \<notin> frames (extents s)"
    using c(1) unfolding core_ok_def by auto
  obtain rs where rs: "free_run cnt f s 0 0 = Some (s\<lparr>ref_counts := rs, used_frames := used_frames s - cnt\<rparr>, f, cnt)"
    "length rs = total_frames s"
    "\<forall>i < total_frames s. rs ! i = (if f \<le> i \<and> i < f + cnt then 0 else ref_counts s ! i)"
    using free_run_ones[OF len assms(6) one, of 0 0] assms(4) by auto
  have d: "{f..<f + cnt} \<inter> frames (extents s) = {}"
  proof -
    have "g \<notin> frames (extents s)" if "g \<in> {f..<f + cnt}" for g using that one[rule_format, of g] fr[of g] by simp
    then show ?thesis by blast
  qed
  obtain es where es: "free_region_internal (extents s) f cnt = Some es" "ext_wf es" "frames es = frames (extents s) \<union> {f..<f + cnt}"
    using free_region_ok[OF wf assms(3) d] by blast
  let ?s' = "s\<lparr>ref_counts := rs, used_frames := used_frames s - cnt, extents := es\<rparr>"
  have "card (frames es) = card (frames (extents s)) + cnt" using card_Un_disjoint[OF _ _ d] es(3) by (simp add: Un_commute Int_commute)
  moreover have "card (frames es) \<le> total_frames s"
  proof -
    have "g < total_frames s" if "g \<in> frames es" for g
    proof -
      have "g \<in> frames (extents s) \<or> g < f + cnt" using that es(3) by auto
      then show ?thesis using fr[of g] assms(6) by linarith
    qed
    then have "frames es \<subseteq> {..<total_frames s}" by blast
    then show ?thesis using card_mono[of "{..<total_frames s}" "frames es"] by simp
  qed
  ultimately have "used_frames s - cnt + 0 + card (frames es) = total_frames s" using cnt by simp
  moreover have "g \<in> frames es \<longleftrightarrow> g < total_frames s \<and> rs ! g = 0" for g
  proof (cases "f \<le> g \<and> g < f + cnt")
    case True
    then show ?thesis using es(3) rs(3)[rule_format, of g] assms(6) by simp
  next
    case False
    then have "g \<in> frames es \<longleftrightarrow> g \<in> frames (extents s)" using es(3) by auto
    moreover have "g < total_frames s \<Longrightarrow> rs ! g = ref_counts s ! g" using False rs(3) by auto
    ultimately show ?thesis using fr[of g] by auto
  qed
  ultimately have "core_ok 0 ?s'" unfolding core_ok_def using es(2,3) rs(2) z assms(5) by simp
  moreover have "mag_ok ?s'"
  proof (rule mag_ok_same[OF c(2)])
    fix g
    assume g: "g < total_frames s" "ref_counts s ! g = 1" "g \<in> set (concat (magazines s))"
    then have "\<not> (f \<le> g \<and> g < f + cnt)" using mg by auto
    then show "ref_counts ?s' ! g = 1" using rs(3)[rule_format, OF g(1)] g(2) by simp
  qed simp_all
  ultimately have "pmm_ok ?s'" using c(3) by (simp add: pmm_ok_def)
  moreover have "pmm_free_contiguous s (f * PAGE_SIZE) cnt = Some ?s'"
    using rs(1) es(1) assms(2,4-6) by (simp add: pmm_free_contiguous_def Let_def)
  ultimately show ?thesis using es(3) rs(2,3) by simp
qed

section \<open>Frames through the magazines\<close>

definition taken :: "nat \<Rightarrow> pmm \<Rightarrow> pmm \<Rightarrow> nat list \<Rightarrow> bool" where
  "taken k s s' gs \<longleftrightarrow> core_ok (k + length gs) s' \<and> distinct gs \<and> set gs \<subseteq> frames (extents s) \<and> 0 \<notin> set gs
     \<and> frames (extents s') = frames (extents s) - set gs
     \<and> (\<forall>i < total_frames s. ref_counts s' ! i = (if i \<in> set gs then 1 else ref_counts s ! i))
     \<and> s' = s\<lparr>extents := extents s', ref_counts := ref_counts s'\<rparr>"

lemma taken_refl: "core_ok k s \<Longrightarrow> taken k s s []"
  by (simp add: taken_def)

lemma taken_eqs:
  assumes "taken k s s' gs"
  shows "total_frames s' = total_frames s" "magazines s' = magazines s" "magazine_total s' = magazine_total s"
    "nodes s' = nodes s" "initialized s' = initialized s" "used_frames s' = used_frames s"
proof -
  have e: "s' = s\<lparr>extents := extents s', ref_counts := ref_counts s'\<rparr>" using assms by (simp add: taken_def)
  show "total_frames s' = total_frames s" "magazines s' = magazines s" "magazine_total s' = magazine_total s"
    "nodes s' = nodes s" "initialized s' = initialized s" "used_frames s' = used_frames s" by (subst e, simp)+
qed

lemma taken_trans:
  assumes "taken k s t gs" and "taken (k + length gs) t u hs"
  shows "taken k s u (gs @ hs)"
proof -
  note e = taken_eqs[OF assms(1)]
  have "distinct (gs @ hs)" "set (gs @ hs) \<subseteq> frames (extents s)" "frames (extents u) = frames (extents s) - set (gs @ hs)"
    using assms unfolding taken_def by auto
  moreover have "ref_counts u ! i = (if i \<in> set (gs @ hs) then 1 else ref_counts s ! i)" if "i < total_frames s" for i
    using assms that e(1) unfolding taken_def by auto
  moreover have "u = s\<lparr>extents := extents u, ref_counts := ref_counts u\<rparr>"
  proof -
    have t: "t = s\<lparr>extents := extents t, ref_counts := ref_counts t\<rparr>" "u = t\<lparr>extents := extents u, ref_counts := ref_counts u\<rparr>"
      using assms unfolding taken_def by blast+
    show ?thesis by (subst t(2), subst t(1)) simp
  qed
  ultimately show ?thesis using assms unfolding taken_def by (simp add: add.assoc)
qed

lemma take_block:
  assumes "core_ok k s" and "length (extents s) < MAX_EXTENTS" and "0 < cnt"
  shows "\<exists>s1 r. alloc_contiguous_internal s cnt align pref = Some (s1, r) \<and>
    (case r of
       None \<Rightarrow> s1 = s \<and> (\<forall>e \<in> set (extents s). \<not> fits_extent (nodes s) cnt align pref e)
     | Some f \<Rightarrow> \<exists>rs. set_refs (ref_counts s1) f cnt 1 = Some rs \<and> taken k s (s1\<lparr>ref_counts := rs\<rparr>) [f..<f + cnt]
         \<and> length (extents s1) \<le> Suc (length (extents s)))"
proof -
  obtain s1 r where s1: "alloc_contiguous_internal s cnt align pref = Some (s1, r)"
    and r: "case r of
       None \<Rightarrow> s1 = s \<and> (\<forall>e \<in> set (extents s). \<not> fits_extent (nodes s) cnt align pref e)
     | Some f \<Rightarrow> \<exists>rs. ref_counts s1 = ref_counts s \<and> set_refs (ref_counts s) f cnt 1 = Some rs
         \<and> core_ok (k + cnt) (s1\<lparr>ref_counts := rs\<rparr>) \<and> s1 = s\<lparr>extents := extents s1\<rparr> \<and> 0 < f
         \<and> {f..<f + cnt} \<subseteq> frames (extents s) \<and> frames (extents s1) = frames (extents s) - {f..<f + cnt}
         \<and> length (extents s1) \<le> Suc (length (extents s))
         \<and> (\<forall>i < total_frames s. rs ! i = (if f \<le> i \<and> i < f + cnt then 1 else ref_counts s ! i))
         \<and> (\<exists>e \<in> set (extents s). f = align_up (ext_start e) align \<and> fits_extent (nodes s) cnt align pref e)"
    using grab_frames[OF assms] by blast
  show ?thesis
  proof (cases r)
    case None
    then show ?thesis using s1 r by simp
  next
    case (Some f)
    then obtain rs where f: "ref_counts s1 = ref_counts s" "set_refs (ref_counts s) f cnt 1 = Some rs"
      "core_ok (k + cnt) (s1\<lparr>ref_counts := rs\<rparr>)" "s1 = s\<lparr>extents := extents s1\<rparr>" "0 < f"
      "{f..<f + cnt} \<subseteq> frames (extents s)" "frames (extents s1) = frames (extents s) - {f..<f + cnt}"
      "length (extents s1) \<le> Suc (length (extents s))"
      "\<forall>i < total_frames s. rs ! i = (if f \<le> i \<and> i < f + cnt then 1 else ref_counts s ! i)" using r by auto
    have "s1\<lparr>ref_counts := rs\<rparr> = s\<lparr>extents := extents s1, ref_counts := rs\<rparr>" by (subst f(4)) simp
    then have "taken k s (s1\<lparr>ref_counts := rs\<rparr>) [f..<f + cnt]"
      unfolding taken_def using f(3,5-7,9) by (simp add: atLeastLessThan_iff)
    then show ?thesis using s1 Some f(1,2,8) by simp
  qed
qed

lemma refill_singles_ok:
  "core_ok k s \<Longrightarrow> length (extents s) + n < MAX_EXTENTS \<Longrightarrow>
   \<exists>s' gs. refill_singles n s fs = Some (s', fs @ gs) \<and> taken k s s' gs \<and> length gs \<le> n
     \<and> (gs = [] \<and> 0 < n \<longrightarrow> s' = s \<and> (\<forall>e \<in> set (extents s). \<not> fits_extent (nodes s) 1 1 None e))"
proof (induction n arbitrary: k s fs)
  case 0
  then show ?case using taken_refl by force
next
  case (Suc n)
  obtain s1 r where s1: "alloc_contiguous_internal s 1 1 None = Some (s1, r)"
    and r: "case r of
       None \<Rightarrow> s1 = s \<and> (\<forall>e \<in> set (extents s). \<not> fits_extent (nodes s) 1 1 None e)
     | Some f \<Rightarrow> \<exists>rs. set_refs (ref_counts s1) f 1 1 = Some rs \<and> taken k s (s1\<lparr>ref_counts := rs\<rparr>) [f..<f + 1]
         \<and> length (extents s1) \<le> Suc (length (extents s))"
    using take_block[OF Suc.prems(1), of 1 1 None] Suc.prems(2) by auto
  show ?case
  proof (cases r)
    case None
    then show ?thesis using s1 r taken_refl[OF Suc.prems(1)] by auto
  next
    case (Some f)
    then obtain rs where f: "set_refs (ref_counts s1) f 1 1 = Some rs" "taken k s (s1\<lparr>ref_counts := rs\<rparr>) [f]"
      "length (extents s1) \<le> Suc (length (extents s))" using r by auto
    have st: "store (ref_counts s1) f 1 = Some rs" using f(1) unfolding set_refs_1 .
    have "core_ok (k + length [f]) (s1\<lparr>ref_counts := rs\<rparr>)" using f(2) unfolding taken_def by blast
    then have "core_ok (k + 1) (s1\<lparr>ref_counts := rs\<rparr>)" by simp
    from Suc.IH[OF this, of "fs @ [f]"] obtain s' gs where
      g: "refill_singles n (s1\<lparr>ref_counts := rs\<rparr>) (fs @ [f]) = Some (s', (fs @ [f]) @ gs)"
        "taken (k + 1) (s1\<lparr>ref_counts := rs\<rparr>) s' gs" "length gs \<le> n" using Suc.prems(2) f(3) by auto
    have "taken k s s' ([f] @ gs)" using taken_trans[OF f(2)] g(2) by simp
    then show ?thesis using s1 Some st g(1,3) by auto
  qed
qed

text \<open>Replacing the magazine of one processor.\<close>

lemma mset_concat_update:
  "i < length xs \<Longrightarrow> mset (concat (xs[i := ys])) + mset (xs ! i) = mset (concat xs) + mset ys"
proof (induction xs arbitrary: i)
  case (Cons x xs)
  show ?case
  proof (cases i)
    case 0
    then show ?thesis by simp
  next
    case (Suc j)
    then show ?thesis using Cons.IH[of j] Cons.prems by (simp add: add.assoc)
  qed
qed simp

lemma mag_ok_update:
  assumes ok: "mag_ok s" and "cpu < MAX_CPUS" and "length ys \<le> MAGAZINE_SIZE" and "distinct zs"
    and perm: "mset zs + mset (magazines s ! cpu) = mset (concat (magazines s)) + mset ys"
    and t: "magazines t = (magazines s)[cpu := ys]" "magazine_total t = length zs"
    and refs: "\<And>f. f \<in> set zs \<Longrightarrow> 0 < f \<and> f < total_frames t \<and> ref_counts t ! f = 1"
  shows "mag_ok t \<and> set (concat (magazines t)) = set zs"
proof -
  have len: "length (magazines s) = MAX_CPUS" using ok by (simp add: mag_ok_def)
  have "mset (concat (magazines t)) + mset (magazines s ! cpu) = mset (concat (magazines s)) + mset ys"
    using mset_concat_update[of cpu "magazines s" ys] assms(2) len t(1) by simp
  then have m: "mset (concat (magazines t)) = mset zs" using perm by (metis add_right_cancel)
  have "distinct (concat (magazines t))" using assms(4) mset_eq_imp_distinct_iff[OF m] by simp
  moreover have "set (concat (magazines t)) = set zs" using m mset_eq_setD by blast
  moreover have "length (concat (magazines t)) = length zs" using m by (metis size_mset)
  moreover have "\<forall>m \<in> set (magazines t). length m \<le> MAGAZINE_SIZE"
    using ok assms(3) t(1) set_update_subset_insert[of "magazines s" cpu ys] by (auto simp: mag_ok_def)
  ultimately show ?thesis using len t refs unfolding mag_ok_def by simp
qed

lemma refill_ok:
  assumes ok: "pmm_ok s" and "initialized s" and "length (extents s) + 33 < MAX_EXTENTS" and "cpu < MAX_CPUS"
    and "magazines s ! cpu = []"
  shows "\<exists>s' gs. magazine_refill s cpu = Some (s', length gs) \<and> pmm_ok s' \<and> magazines s' ! cpu = gs \<and> initialized s'
    \<and> set gs \<subseteq> frames (extents s) \<and> set (concat (magazines s')) = set gs \<union> set (concat (magazines s))
    \<and> (gs = [] \<longrightarrow> s' = s \<and> (\<forall>e \<in> set (extents s). \<not> fits_extent (nodes s) 1 1 None e))"
proof -
  have c: "core_ok 0 s" "mag_ok s" "length (nodes s) = MAX_NUMA_NODES" using ok by (simp_all add: pmm_ok_def)
  obtain s1 r where s1: "alloc_contiguous_internal s MAGAZINE_SIZE 1 None = Some (s1, r)"
    and r: "case r of
       None \<Rightarrow> s1 = s \<and> (\<forall>e \<in> set (extents s). \<not> fits_extent (nodes s) MAGAZINE_SIZE 1 None e)
     | Some f \<Rightarrow> \<exists>rs. set_refs (ref_counts s1) f MAGAZINE_SIZE 1 = Some rs
         \<and> taken 0 s (s1\<lparr>ref_counts := rs\<rparr>) [f..<f + MAGAZINE_SIZE] \<and> length (extents s1) \<le> Suc (length (extents s))"
    using take_block[OF c(1), of MAGAZINE_SIZE 1 None] assms(3) by auto
  let ?load = "case r of
      Some f \<Rightarrow> do { rs \<leftarrow> set_refs (ref_counts s1) f MAGAZINE_SIZE 1;
                     Some (s1\<lparr>ref_counts := rs\<rparr>, [f..<f + MAGAZINE_SIZE]) }
    | None \<Rightarrow> refill_singles MAGAZINE_SIZE s1 []"
  have "\<exists>s2 gs. ?load = Some (s2, gs) \<and> taken 0 s s2 gs \<and> length gs \<le> MAGAZINE_SIZE
    \<and> (gs = [] \<longrightarrow> s2 = s \<and> (\<forall>e \<in> set (extents s). \<not> fits_extent (nodes s) 1 1 None e))"
  proof (cases r)
    case None
    then show ?thesis using r refill_singles_ok[OF c(1), of MAGAZINE_SIZE "[]"] assms(3) by auto
  next
    case (Some f)
    then show ?thesis using r by (auto simp del: upt_Suc)
  qed
  then obtain s2 gs where g: "?load = Some (s2, gs)" "taken 0 s s2 gs" "length gs \<le> MAGAZINE_SIZE"
    "gs = [] \<longrightarrow> s2 = s \<and> (\<forall>e \<in> set (extents s). \<not> fits_extent (nodes s) 1 1 None e)" by blast
  note e = taken_eqs[OF g(2)]
  let ?t = "s2\<lparr>magazines := (magazines s2)[cpu := gs], used_frames := used_frames s2 + length gs,
               magazine_total := magazine_total s2 + length gs\<rparr>"
  have res: "magazine_refill s cpu = Some (?t, length gs)"
    using assms(2,4) s1 g(1) by (simp add: magazine_refill_def Let_def)
  have "core_ok (0 + length gs) s2" using g(2) unfolding taken_def by blast
  from core_ok_used[OF this] have core: "core_ok 0 ?t" by (subst core_ok_cong[of _ "s2\<lparr>used_frames := used_frames s2 + length gs\<rparr>"]) simp_all
  have tk: "distinct gs" "set gs \<subseteq> frames (extents s)" "0 \<notin> set gs"
    "\<And>i. i < total_frames s \<Longrightarrow> ref_counts s2 ! i = (if i \<in> set gs then 1 else ref_counts s ! i)"
    using g(2) unfolding taken_def by auto
  have dis: "set gs \<inter> set (concat (magazines s)) = {}"
  proof -
    have "f \<notin> set (concat (magazines s))" if "f \<in> set gs" for f
      using core_refs[OF c(1), of f] tk(2) that c(2) by (auto simp: mag_ok_def)
    then show ?thesis by blast
  qed
  have mt: "magazine_total s = length (concat (magazines s))" "distinct (concat (magazines s))" using c(2) by (simp_all add: mag_ok_def)
  have mag: "mag_ok ?t \<and> set (concat (magazines ?t)) = set (gs @ concat (magazines s))"
  proof (rule mag_ok_update[OF c(2) assms(4) g(3)])
    show "distinct (gs @ concat (magazines s))" using tk(1) mt(2) dis by simp
    show "mset (gs @ concat (magazines s)) + mset (magazines s ! cpu) = mset (concat (magazines s)) + mset gs"
      using assms(5) by simp
    show "magazines ?t = (magazines s)[cpu := gs]" using e(2) by simp
    show "magazine_total ?t = length (gs @ concat (magazines s))" using e(3) mt(1) by simp
    fix f
    assume f: "f \<in> set (gs @ concat (magazines s))"
    show "0 < f \<and> f < total_frames ?t \<and> ref_counts ?t ! f = 1"
    proof (cases "f \<in> set gs")
      case True
      then have "f \<noteq> 0" using tk(3) by metis
      then show ?thesis using True core_refs[OF c(1), of f] tk(2,4) e(1) by auto
    next
      case False
      then have "0 < f \<and> f < total_frames s \<and> ref_counts s ! f = 1" using f c(2) by (auto simp: mag_ok_def)
      then show ?thesis using tk(4)[of f] False e(1) by simp
    qed
  qed
  have "pmm_ok ?t" using core mag c(3) e(4) by (simp add: pmm_ok_def)
  moreover have "magazines ?t ! cpu = gs" using e(2) assms(4) c(2) by (simp add: mag_ok_def)
  moreover have "gs = [] \<longrightarrow> ?t = s"
  proof
    assume gs: "gs = []"
    then have s2: "s2 = s" using g(4) by simp
    have "(magazines s)[cpu := []] = magazines s" using assms(5) by (metis list_update_id)
    then show "?t = s" using gs s2 by simp
  qed
  ultimately show ?thesis using res mag tk(2) g(4) e(5) assms(2) by (intro exI[of _ ?t] exI[of _ gs]) auto
qed

lemma align_up_1: "start < 2 ^ 64 \<Longrightarrow> align_up start 1 = start"
  by (simp add: align_up_def unat_of_nat)

lemma no_single_frame:
  assumes ok: "core_ok k s" and "total_frames s < 2 ^ 64" and no: "\<forall>e \<in> set (extents s). \<not> fits_extent (nodes s) 1 1 None e"
  shows "extents s = []"
proof (rule ccontr)
  assume "extents s \<noteq> []"
  then obtain e where e: "e \<in> set (extents s)" by (cases "extents s") auto
  have c: "0 < ext_count e" using ok e by (simp add: core_ok_def ext_wf_def)
  have "ext_start e \<in> {ext_start e..<ext_start e + ext_count e}" using c by simp
  then have "ext_start e \<in> frames (extents s)" using e unfolding frames_def by blast
  then have "ext_start e < 2 ^ 64" using core_refs[OF ok] assms(2) less_trans by blast
  then have "fits_extent (nodes s) 1 1 None e" using c by (simp add: fits_extent_def align_up_1[simplified] valid_node_def)
  then show False using no e by blast
qed

lemma try_nodes_empty: "extents s = [] \<Longrightarrow> try_nodes s order = Some (s, None)"
  by (induction order) (simp_all add: alloc_contiguous_internal_def)

lemma alloc_from_node_empty: "extents s = [] \<Longrightarrow> alloc_from_node s n = Some (s, 0)"
  by (simp add: alloc_from_node_def try_nodes_empty alloc_contiguous_internal_def)

lemma pop_ok:
  assumes ok: "pmm_ok s" and "cpu < MAX_CPUS" and ne: "magazines s ! cpu \<noteq> []"
  shows "\<exists>s' f. magazine_pop s cpu = (s', f * PAGE_SIZE) \<and> pmm_ok s' \<and> 0 < f \<and> f \<in> set (magazines s ! cpu)
    \<and> ref_counts s' ! f = 1 \<and> f < total_frames s \<and> extents s' = extents s \<and> f \<notin> set (concat (magazines s'))
    \<and> set (concat (magazines s)) = insert f (set (concat (magazines s')))"
proof -
  have c: "core_ok 0 s" "mag_ok s" "length (nodes s) = MAX_NUMA_NODES" using ok by (simp_all add: pmm_ok_def)
  let ?mag = "magazines s ! cpu" let ?f = "last ?mag"
  let ?t = "s\<lparr>magazines := (magazines s)[cpu := butlast ?mag], magazine_total := magazine_total s - 1\<rparr>"
  have len: "length (magazines s) = MAX_CPUS" "distinct (concat (magazines s))" "magazine_total s = length (concat (magazines s))"
    using c(2) by (simp_all add: mag_ok_def)
  have mem: "?mag \<in> set (magazines s)" using assms(2) len(1) by simp
  have m1: "mset ?mag = mset (butlast ?mag) + {#?f#}" using ne by (metis append_butlast_last_id mset.simps(1,2) mset_append)
  have "mset (concat ((magazines s)[cpu := butlast ?mag])) + mset ?mag = mset (concat (magazines s)) + mset (butlast ?mag)"
    using mset_concat_update[of cpu "magazines s" "butlast ?mag"] assms(2) len(1) by simp
  then have m2: "mset (?f # concat ((magazines s)[cpu := butlast ?mag])) = mset (concat (magazines s))"
    unfolding m1 by simp
  let ?zs = "concat ((magazines s)[cpu := butlast ?mag])"
  have dz: "distinct (?f # ?zs)" using len(2) mset_eq_imp_distinct_iff[OF m2] by simp
  have sz: "set (concat (magazines s)) = insert ?f (set ?zs)" using mset_eq_setD[OF m2] by simp
  have lz: "length (concat (magazines s)) = Suc (length ?zs)" using arg_cong[OF m2, of size] by simp
  have fr: "0 < g \<and> g < total_frames s \<and> ref_counts s ! g = 1" if "g \<in> set (concat (magazines s))" for g
    using c(2) that by (auto simp: mag_ok_def)
  have "length ?mag \<le> MAGAZINE_SIZE" using c(2) mem unfolding mag_ok_def by blast
  then have lb: "length (butlast ?mag) \<le> MAGAZINE_SIZE" by simp
  have dz': "distinct ?zs" using dz by simp
  have mag: "mag_ok ?t \<and> set (concat (magazines ?t)) = set ?zs"
  proof (rule mag_ok_update[OF c(2) assms(2) lb dz'])
    show "mset ?zs + mset ?mag = mset (concat (magazines s)) + mset (butlast ?mag)"
      using mset_concat_update[of cpu "magazines s" "butlast ?mag"] assms(2) len(1) by simp
    show "magazine_total ?t = length ?zs" using len(3) lz by simp
    show "0 < g \<and> g < total_frames ?t \<and> ref_counts ?t ! g = 1" if "g \<in> set ?zs" for g
    proof -
      have "g \<in> set (concat (magazines s))" unfolding sz using that by blast
      from fr[OF this] show ?thesis by simp
    qed
  qed simp
  have "core_ok 0 ?t" using c(1) by (subst core_ok_cong[of _ s]) simp_all
  then have "pmm_ok ?t" using mag c(3) by (simp add: pmm_ok_def)
  moreover have "?f \<in> set ?mag" using ne by simp
  moreover have "?f \<in> set (concat (magazines s))" using sz by simp
  ultimately show ?thesis using fr[of ?f] dz sz mag
    by (intro exI[of _ ?t] exI[of _ ?f]) (simp add: magazine_pop_def Let_def)
qed

lemma alloc_frame_ok:
  assumes ok: "pmm_ok s" and "initialized s" and "length (extents s) + 33 < MAX_EXTENTS" and "cpu < MAX_CPUS"
    and "total_frames s < 2 ^ 64"
  shows "\<exists>s' f. pmm_alloc_frame s cpu = Some (s', f * PAGE_SIZE) \<and> pmm_ok s' \<and>
    (if f = 0 then frames (extents s) = {} \<and> magazines s ! cpu = [] \<and> s' = s
     else (f \<in> frames (extents s) \<or> f \<in> set (concat (magazines s)))
       \<and> f \<notin> frames (extents s') \<and> f \<notin> set (concat (magazines s')) \<and> f < total_frames s' \<and> ref_counts s' ! f = 1)"
proof (cases "magazines s ! cpu = []")
  case False
  obtain s' f where p: "magazine_pop s cpu = (s', f * PAGE_SIZE)" "pmm_ok s'" "0 < f" "f \<in> set (magazines s ! cpu)"
    "ref_counts s' ! f = 1" "f < total_frames s" "extents s' = extents s" "f \<notin> set (concat (magazines s'))"
    "set (concat (magazines s)) = insert f (set (concat (magazines s')))"
    using pop_ok[OF ok assms(4) False] by blast
  have tf: "total_frames s' = total_frames s" using p(1) by (auto simp: magazine_pop_def Let_def)
  have "f \<notin> frames (extents s')" using core_refs[of 0 s' f] p(2,5) by (auto simp: pmm_ok_def)
  then show ?thesis using False p assms(4) tf by (intro exI[of _ s'] exI[of _ f]) (simp add: pmm_alloc_frame_def)
next
  case True
  obtain t gs where t: "magazine_refill s cpu = Some (t, length gs)" "pmm_ok t" "magazines t ! cpu = gs" "initialized t"
    "set gs \<subseteq> frames (extents s)" "set (concat (magazines t)) = set gs \<union> set (concat (magazines s))"
    "gs = [] \<longrightarrow> t = s \<and> (\<forall>e \<in> set (extents s). \<not> fits_extent (nodes s) 1 1 None e)"
    using refill_ok[OF ok assms(2-4) True] by blast
  show ?thesis
  proof (cases "gs = []")
    case g: True
    then have e: "t = s" "extents s = []" using t(7) no_single_frame[of 0 s] ok assms(5) by (auto simp: pmm_ok_def)
    then have "pmm_alloc_frame s cpu = Some (s, 0)"
      using True g t(1) assms(2,4) by (simp add: pmm_alloc_frame_def alloc_from_node_empty)
    then show ?thesis using ok e True by (intro exI[of _ s] exI[of _ 0]) simp
  next
    case False
    have "magazines t ! cpu \<noteq> []" using False t(3) by simp
    from pop_ok[OF t(2) assms(4) this] obtain s' f where p: "magazine_pop t cpu = (s', f * PAGE_SIZE)" "pmm_ok s'" "0 < f"
      "f \<in> set (magazines t ! cpu)" "ref_counts s' ! f = 1" "f < total_frames t" "f \<notin> set (concat (magazines s'))" by blast
    have tf: "total_frames s' = total_frames t" using p(1) by (auto simp: magazine_pop_def Let_def)
    have "f \<notin> frames (extents s')" using core_refs[of 0 s' f] p(2,5) by (auto simp: pmm_ok_def)
    moreover have "f \<in> frames (extents s)" using p(4) t(3,5) by blast
    moreover have "pmm_alloc_frame s cpu = Some (s', f * PAGE_SIZE)"
      using True False t(1) p(1) assms(4) by (simp add: pmm_alloc_frame_def)
    ultimately show ?thesis using p tf by (intro exI[of _ s'] exI[of _ f]) simp
  qed
qed

lemma free_frame_locked_ok:
  assumes ok: "core_ok 0 s" and "0 < f" and "f < total_frames s" and "ref_counts s ! f = 1" and "length (extents s) < MAX_EXTENTS"
  shows "\<exists>es. free_frame_locked s (f * PAGE_SIZE) = Some (s\<lparr>ref_counts := (ref_counts s)[f := 0], extents := es, used_frames := used_frames s - 1\<rparr>)
    \<and> core_ok 0 (s\<lparr>ref_counts := (ref_counts s)[f := 0], extents := es, used_frames := used_frames s - 1\<rparr>)
    \<and> frames es = insert f (frames (extents s)) \<and> length es \<le> Suc (length (extents s))"
proof -
  have wf: "ext_wf (extents s)" and len: "length (ref_counts s) = total_frames s"
    and fr: "\<And>g. g \<in> frames (extents s) \<longleftrightarrow> g < total_frames s \<and> ref_counts s ! g = 0"
    and cnt: "used_frames s + 0 + card (frames (extents s)) = total_frames s" and z: "0 \<notin> frames (extents s)"
    using ok unfolding core_ok_def by blast+
  have nf: "f \<notin> frames (extents s)" using fr[of f] assms(4) by simp
  then have d: "{f..<f + 1} \<inter> frames (extents s) = {}" by auto
  obtain es where es: "free_region_internal (extents s) f 1 = Some es" "ext_wf es" "frames es = frames (extents s) \<union> {f..<f + 1}"
    "length es \<le> Suc (length (extents s))" using free_region_ok[OF wf assms(5) d] by blast
  have fe: "frames es = insert f (frames (extents s))" using es(3) by auto
  let ?s = "s\<lparr>ref_counts := (ref_counts s)[f := 0], extents := es, used_frames := used_frames s - 1\<rparr>"
  have g: "g \<in> frames es \<longleftrightarrow> g < total_frames s \<and> (ref_counts s)[f := 0] ! g = 0" for g
    using fe fr[of g] assms(3) len by (cases "g = f") auto
  have "card (frames es) = Suc (card (frames (extents s)))" using fe nf by simp
  moreover have "frames es \<subseteq> {..<total_frames s}" using g by auto
  then have "card (frames es) \<le> total_frames s" using card_mono[of "{..<total_frames s}" "frames es"] by simp
  ultimately have "used_frames s - 1 + 0 + card (frames es) = total_frames s" using cnt by simp
  then have "core_ok 0 ?s" unfolding core_ok_def using es(2) len g fe z assms(2) by simp
  moreover have "free_frame_locked s (f * PAGE_SIZE) = Some ?s"
    using assms(2-4) es(1) len by (simp add: free_frame_locked_def Let_def load_def)
  ultimately show ?thesis using fe es(4) by blast
qed

lemma flush_frames_ok:
  "core_ok 0 s \<Longrightarrow> distinct fs \<Longrightarrow> \<forall>f \<in> set fs. 0 < f \<and> f < total_frames s \<and> ref_counts s ! f = 1 \<Longrightarrow>
   length (extents s) + length fs \<le> MAX_EXTENTS \<Longrightarrow>
   \<exists>s'. flush_frames s fs = Some s' \<and> core_ok 0 s' \<and> frames (extents s') = frames (extents s) \<union> set fs
     \<and> s' = s\<lparr>ref_counts := ref_counts s', extents := extents s', used_frames := used_frames s'\<rparr>
     \<and> (\<forall>g < total_frames s. g \<notin> set fs \<longrightarrow> ref_counts s' ! g = ref_counts s ! g)"
proof (induction fs arbitrary: s)
  case (Cons f fs)
  obtain es where es: "free_frame_locked s (f * PAGE_SIZE)
      = Some (s\<lparr>ref_counts := (ref_counts s)[f := 0], extents := es, used_frames := used_frames s - 1\<rparr>)"
    "core_ok 0 (s\<lparr>ref_counts := (ref_counts s)[f := 0], extents := es, used_frames := used_frames s - 1\<rparr>)"
    "frames es = insert f (frames (extents s))" "length es \<le> Suc (length (extents s))"
    using free_frame_locked_ok[OF Cons.prems(1), of f] Cons.prems(3,4) by auto
  let ?s = "s\<lparr>ref_counts := (ref_counts s)[f := 0], extents := es, used_frames := used_frames s - 1\<rparr>"
  have "\<forall>g \<in> set fs. 0 < g \<and> g < total_frames ?s \<and> ref_counts ?s ! g = 1" 
  proof
    fix g assume g: "g \<in> set fs"
    then have "f \<noteq> g" using Cons.prems(2) by auto
    then show "0 < g \<and> g < total_frames ?s \<and> ref_counts ?s ! g = 1" using Cons.prems(3) g by simp
  qed
  from Cons.IH[OF es(2) _ this] Cons.prems(2,4) es(4) obtain s' where
    s': "flush_frames ?s fs = Some s'" "core_ok 0 s'" "frames (extents s') = frames es \<union> set fs"
      "s' = ?s\<lparr>ref_counts := ref_counts s', extents := extents s', used_frames := used_frames s'\<rparr>"
      "\<forall>g < total_frames s. g \<notin> set fs \<longrightarrow> ref_counts s' ! g = (ref_counts s)[f := 0] ! g" by auto
  have "s' = s\<lparr>ref_counts := ref_counts s', extents := extents s', used_frames := used_frames s'\<rparr>"
    by (subst s'(4)) simp
  then show ?case using es(1,3) s' by auto
qed simp

lemma mag_ok_push:
  assumes ok: "mag_ok s" and "cpu < MAX_CPUS" and "length (magazines s ! cpu) < MAGAZINE_SIZE"
    and "0 < f" and "f < total_frames s" and "ref_counts s ! f = 1" and "f \<notin> set (concat (magazines s))"
  shows "mag_ok (s\<lparr>magazines := (magazines s)[cpu := magazines s ! cpu @ [f]], magazine_total := magazine_total s + 1\<rparr>)"
proof -
  let ?t = "s\<lparr>magazines := (magazines s)[cpu := magazines s ! cpu @ [f]], magazine_total := magazine_total s + 1\<rparr>"
  have fr: "0 < g \<and> g < total_frames s \<and> ref_counts s ! g = 1" if "g \<in> set (concat (magazines s))" for g
    using ok that by (auto simp: mag_ok_def)
  have "mag_ok ?t \<and> set (concat (magazines ?t)) = set (f # concat (magazines s))"
  proof (rule mag_ok_update[OF ok assms(2), of "magazines s ! cpu @ [f]"])
    show "length (magazines s ! cpu @ [f]) \<le> MAGAZINE_SIZE" using assms(3) by simp
    show "distinct (f # concat (magazines s))" using ok assms(7) by (simp add: mag_ok_def)
    show "magazine_total ?t = length (f # concat (magazines s))" using ok by (simp add: mag_ok_def)
    show "0 < g \<and> g < total_frames ?t \<and> ref_counts ?t ! g = 1" if "g \<in> set (f # concat (magazines s))" for g
      using fr[of g] that assms(4-6) by (cases "g = f") simp_all
  qed simp_all
  then show ?thesis by blast
qed

lemma flush_ok:
  assumes ok: "pmm_ok s" and "cpu < MAX_CPUS" and "length (extents s) + MAGAZINE_SIZE \<le> MAX_EXTENTS"
  shows "\<exists>s'. magazine_flush s cpu = Some s' \<and> pmm_ok s' \<and> magazines s' = (magazines s)[cpu := []]
    \<and> frames (extents s') = frames (extents s) \<union> set (magazines s ! cpu) \<and> total_frames s' = total_frames s
    \<and> (\<forall>g < total_frames s. g \<notin> set (magazines s ! cpu) \<longrightarrow> ref_counts s' ! g = ref_counts s ! g)"
proof -
  have c: "core_ok 0 s" "mag_ok s" "length (nodes s) = MAX_NUMA_NODES" using ok by (simp_all add: pmm_ok_def)
  let ?mag = "magazines s ! cpu" let ?zs = "concat ((magazines s)[cpu := []])"
  have len: "length (magazines s) = MAX_CPUS" "distinct (concat (magazines s))" "magazine_total s = length (concat (magazines s))"
    using c(2) by (simp_all add: mag_ok_def)
  have mem: "?mag \<in> set (magazines s)" using assms(2) len(1) by simp
  have lm: "length ?mag \<le> MAGAZINE_SIZE" using c(2) mem unfolding mag_ok_def by blast
  have fr: "0 < g \<and> g < total_frames s \<and> ref_counts s ! g = 1" if "g \<in> set (concat (magazines s))" for g
    using c(2) that by (auto simp: mag_ok_def)
  have frm: "\<forall>g \<in> set ?mag. 0 < g \<and> g < total_frames s \<and> ref_counts s ! g = 1" using fr mem by auto
  have perm: "mset ?zs + mset ?mag = mset (concat (magazines s)) + mset []"
    using mset_concat_update[of cpu "magazines s" "[]"] assms(2) len(1) by simp
  then have p: "mset (?zs @ ?mag) = mset (concat (magazines s))" by simp
  have d: "distinct (?zs @ ?mag)" using len(2) mset_eq_imp_distinct_iff[OF p] by simp
  have sz: "set (concat (magazines s)) = set ?zs \<union> set ?mag" using mset_eq_setD[OF p] by simp
  have lz: "length (concat (magazines s)) = length ?zs + length ?mag" using arg_cong[OF p, of size] by simp
  show ?thesis
  proof (cases "?mag = []")
    case True
    then have e: "(magazines s)[cpu := []] = magazines s" by (metis list_update_id)
    have "magazine_flush s cpu = Some s" using True assms(2) by (simp add: magazine_flush_def)
    then show ?thesis using ok True unfolding e by (intro exI[of _ s]) simp
  next
    case False
    have "distinct ?mag" using d by simp
    from flush_frames_ok[OF c(1) this frm] assms(3) lm obtain s1 where
      s1: "flush_frames s ?mag = Some s1" "core_ok 0 s1" "frames (extents s1) = frames (extents s) \<union> set ?mag"
        "s1 = s\<lparr>ref_counts := ref_counts s1, extents := extents s1, used_frames := used_frames s1\<rparr>"
        "\<forall>g < total_frames s. g \<notin> set ?mag \<longrightarrow> ref_counts s1 ! g = ref_counts s ! g" by auto
    have e: "magazines s1 = magazines s" "magazine_total s1 = magazine_total s" "total_frames s1 = total_frames s" "nodes s1 = nodes s"
      by (subst s1(4), simp)+
    let ?t = "s1\<lparr>magazines := (magazines s)[cpu := []], magazine_total := magazine_total s - length ?mag\<rparr>"
    have "mag_ok ?t \<and> set (concat (magazines ?t)) = set ?zs"
    proof (rule mag_ok_update[OF c(2) assms(2) _ _ perm])
      show "distinct ?zs" using d by simp
      show "magazine_total ?t = length ?zs" using len(3) lz by simp
      fix g assume g: "g \<in> set ?zs"
      then have "g \<notin> set ?mag" using d by auto
      moreover have "g \<in> set (concat (magazines s))" using g unfolding sz by blast
      ultimately show "0 < g \<and> g < total_frames ?t \<and> ref_counts ?t ! g = 1" using fr[of g] s1(5) e(3) by simp
    qed simp_all
    moreover have "core_ok 0 ?t" using s1(2) by (subst core_ok_cong[of _ s1]) simp_all
    ultimately have "pmm_ok ?t" using c(3) e(4) by (simp add: pmm_ok_def)
    then show ?thesis using False assms(2) s1(1,3,5) e by (intro exI[of _ ?t]) (simp add: magazine_flush_def Let_def)
  qed
qed

lemma free_frame_ok:
  assumes ok: "pmm_ok s" and "cpu < MAX_CPUS" and "length (extents s) + MAGAZINE_SIZE \<le> MAX_EXTENTS"
    and f: "0 < f" "f < total_frames s" "ref_counts s ! f = 1" "f \<notin> set (concat (magazines s))"
  shows "\<exists>s'. pmm_free_frame s cpu (f * PAGE_SIZE) = Some s' \<and> pmm_ok s' \<and> magazines s' ! cpu \<noteq> [] \<and> last (magazines s' ! cpu) = f"
proof -
  have len: "length (magazines s) = MAX_CPUS" using ok by (simp add: pmm_ok_def mag_ok_def)
  let ?push = "\<lambda>t. t\<lparr>magazines := (magazines t)[cpu := magazines t ! cpu @ [f]], magazine_total := magazine_total t + 1\<rparr>"
  have push: "pmm_ok (?push t)" if t: "pmm_ok t" "length (magazines t ! cpu) < MAGAZINE_SIZE" "f < total_frames t" "ref_counts t ! f = 1"
    "f \<notin> set (concat (magazines t))" for t
  proof -
    have "mag_ok (?push t)" by (rule mag_ok_push) (use t f(1) assms(2) in \<open>simp_all add: pmm_ok_def\<close>)
    moreover have "core_ok 0 (?push t)" using t(1) by (subst core_ok_cong[of _ t]) (simp_all add: pmm_ok_def)
    ultimately show ?thesis using t(1) by (simp add: pmm_ok_def)
  qed
  show ?thesis
  proof (cases "length (magazines s ! cpu) < MAGAZINE_SIZE")
    case True
    then show ?thesis using push[OF ok True f(2-4)] assms(2) f(1) len
      by (intro exI[of _ "?push s"]) (simp add: pmm_free_frame_def Let_def)
  next
    case False
    obtain s1 where s1: "magazine_flush s cpu = Some s1" "pmm_ok s1" "magazines s1 = (magazines s)[cpu := []]"
      "total_frames s1 = total_frames s" "\<forall>g < total_frames s. g \<notin> set (magazines s ! cpu) \<longrightarrow> ref_counts s1 ! g = ref_counts s ! g"
      using flush_ok[OF ok assms(2,3)] by blast
    have "f \<notin> set (magazines s ! cpu)" using f(4) assms(2) len by auto
    then have r: "ref_counts s1 ! f = 1" using s1(5) f(2,3) by simp
    have e: "magazines s1 ! cpu = []" using s1(3) assms(2) len by simp
    have "set (concat (magazines s1)) \<subseteq> set (concat (magazines s))"
      using set_update_subset_insert[of "magazines s" cpu "[]"] unfolding s1(3) by auto
    then have n: "f \<notin> set (concat (magazines s1))" using f(4) by blast
    have "pmm_ok (?push s1)" using push[OF s1(2) _ _ r n] e s1(4) f(2) by simp
    then show ?thesis using False s1(1) e assms(2) f(1) len s1(3)
      by (intro exI[of _ "?push s1"]) (simp add: pmm_free_frame_def Let_def)
  qed
qed

section \<open>Reserving regions and initialisation\<close>

lemma reserve_cut:
  assumes "a < ext_start e + ext_count e" and "b > ext_start e" and "a < b" and "length acc + 2 \<le> MAX_EXTENTS"
  shows "\<exists>L. reserve_loop a b acc (e # es) = reserve_loop a b (acc @ L) es
    \<and> frames L = {ext_start e..<ext_start e + ext_count e} - {a..<b} \<and> ext_wf L \<and> length L \<le> 2
    \<and> (\<forall>y \<in> set L. ext_start e \<le> ext_start y \<and> ext_start y + ext_count y \<le> ext_start e + ext_count e)"
proof -
  let ?fin = "ext_start e + ext_count e"
  let ?l = "\<lparr>ext_start = ext_start e, ext_count = a - ext_start e\<rparr>"
  let ?r = "\<lparr>ext_start = b, ext_count = ?fin - b\<rparr>"
  have s: "reserve_loop a b acc (e # es) = reserve_loop a b (acc @ L) es"
    if "L = (if ext_start e < a then [?l] else []) @ (if ?fin > b then [?r] else [])" for L
    unfolding that using assms by (simp add: push_extent_def Let_def)
  consider "ext_start e < a" "?fin > b" | "ext_start e < a" "\<not> ?fin > b" | "\<not> ext_start e < a" "?fin > b" | "\<not> ext_start e < a" "\<not> ?fin > b"
    by blast
  then show ?thesis
  proof cases
    case 1
    then show ?thesis using s[of "[?l, ?r]"] assms by (intro exI[of _ "[?l, ?r]"]) (auto simp: before_def simp del: reserve_loop.simps)
  next
    case 2
    then show ?thesis using s[of "[?l]"] assms by (intro exI[of _ "[?l]"]) (auto simp del: reserve_loop.simps)
  next
    case 3
    then show ?thesis using s[of "[?r]"] assms by (intro exI[of _ "[?r]"]) (auto simp del: reserve_loop.simps)
  next
    case 4
    then show ?thesis using s[of "[]"] assms by (intro exI[of _ "[]"]) (auto simp del: reserve_loop.simps)
  qed
qed

lemma reserve_loop_ok:
  "ext_wf (acc @ es) \<Longrightarrow> length acc + 2 * length es \<le> MAX_EXTENTS \<Longrightarrow> frames acc \<inter> {a..<b} = {} \<Longrightarrow> a < b \<Longrightarrow>
   ext_wf (reserve_loop a b acc es) \<and> frames (reserve_loop a b acc es) = frames (acc @ es) - {a..<b}
   \<and> length (reserve_loop a b acc es) \<le> length acc + 2 * length es"
proof (induction es arbitrary: acc)
  case Nil
  then show ?case by auto
next
  case (Cons e es)
  let ?fin = "ext_start e + ext_count e"
  have wf: "ext_wf acc" "ext_wf es" "0 < ext_count e" "\<And>x. x \<in> set acc \<Longrightarrow> before x e" "\<And>y. y \<in> set es \<Longrightarrow> before e y"
    "\<And>x y. x \<in> set acc \<Longrightarrow> y \<in> set es \<Longrightarrow> before x y"
    using Cons.prems(1) by (auto simp: ext_wf_append)
  show ?case
  proof (cases "a < ?fin \<and> b > ext_start e")
    case False
    have w: "ext_wf ((acc @ [e]) @ es)" using Cons.prems(1) by simp
    have d: "frames (acc @ [e]) \<inter> {a..<b} = {}" using Cons.prems(3) False by auto
    have "length (acc @ [e]) + 2 * length es \<le> MAX_EXTENTS" using Cons.prems(2) by simp
    from Cons.IH[OF w this d Cons.prems(4)] have ih: "ext_wf (reserve_loop a b (acc @ [e]) es)"
      "frames (reserve_loop a b (acc @ [e]) es) = frames ((acc @ [e]) @ es) - {a..<b}"
      "length (reserve_loop a b (acc @ [e]) es) \<le> length (acc @ [e]) + 2 * length es" by blast+
    have "\<lparr>ext_start = ext_start e, ext_count = ext_count e\<rparr> = e" by simp
    then have "push_extent acc (ext_start e) (ext_count e) = acc @ [e]" using Cons.prems(2) by (simp add: push_extent_def)
    then have "reserve_loop a b acc (e # es) = reserve_loop a b (acc @ [e]) es" using False by (auto simp: Let_def)
    then show ?thesis using ih by simp
  next
    case True
    obtain L where L: "reserve_loop a b acc (e # es) = reserve_loop a b (acc @ L) es" "frames L = {ext_start e..<?fin} - {a..<b}"
      "ext_wf L" "length L \<le> 2" "\<forall>y \<in> set L. ext_start e \<le> ext_start y \<and> ext_start y + ext_count y \<le> ?fin"
      using reserve_cut[of a e b acc es] True Cons.prems(2,4) by auto
    have "before x y" if "x \<in> set acc" "y \<in> set L" for x y
      using wf(4)[OF that(1)] L(5) that(2) by (force simp: before_def)
    moreover have "before x y" if "x \<in> set L" "y \<in> set es" for x y
      using wf(5)[OF that(2)] L(5) that(1) by (force simp: before_def)
    ultimately have w: "ext_wf ((acc @ L) @ es)" using wf(1,2,6) L(3) unfolding ext_wf_append by auto
    have d: "frames (acc @ L) \<inter> {a..<b} = {}" using L(2) Cons.prems(3) by auto
    have "length (acc @ L) + 2 * length es \<le> MAX_EXTENTS" using Cons.prems(2) L(4) by simp
    from Cons.IH[OF w this d Cons.prems(4)] have ih: "ext_wf (reserve_loop a b (acc @ L) es)"
      "frames (reserve_loop a b (acc @ L) es) = frames ((acc @ L) @ es) - {a..<b}"
      "length (reserve_loop a b (acc @ L) es) \<le> length (acc @ L) + 2 * length es" by blast+
    have "frames ((acc @ L) @ es) - {a..<b} = frames (acc @ e # es) - {a..<b}"
      unfolding frames_simps L(2) by blast
    then show ?thesis using ih L(1,4) by (simp del: reserve_loop.simps)
  qed
qed

lemma reserve_region_ok:
  assumes "ext_wf es" and "2 * length es \<le> MAX_EXTENTS"
  shows "ext_wf (reserve_region_internal es a n) \<and> frames (reserve_region_internal es a n) = frames es - {a..<a + n}
    \<and> length (reserve_region_internal es a n) \<le> 2 * length es"
  using reserve_loop_ok[of "[]" es a "a + n"] assms by (cases "n = 0") (simp_all add: reserve_region_internal_def)

text \<open>The frames of the usable entries, and that no two of them overlap.\<close>

definition entry_frames :: "mmap_entry \<Rightarrow> nat set" where
  "entry_frames e =
     (if mm_typ e = 1 then {mm_addr e div PAGE_SIZE..<mm_addr e div PAGE_SIZE + mm_len e div PAGE_SIZE} else {})"

fun entries_disjoint :: "mmap_entry list \<Rightarrow> bool" where
  "entries_disjoint [] = True"
| "entries_disjoint (e # es) =
     (entries_disjoint es \<and> (\<forall>x \<in> set es. entry_frames e \<inter> entry_frames x = {}))"

lemma mmap_loop_ok:
  "ext_wf es \<Longrightarrow> length es + length entries \<le> MAX_EXTENTS \<Longrightarrow> entries_disjoint entries \<Longrightarrow>
   \<forall>x \<in> set entries. entry_frames x \<inter> frames es = {} \<Longrightarrow>
   \<exists>es' mx us. mmap_loop entries es m u = Some (es', mx, us) \<and> ext_wf es' \<and> m \<le> mx
     \<and> frames es' = frames es \<union> (\<Union>x \<in> set entries. entry_frames x) \<and> length es' \<le> length es + length entries
     \<and> (\<forall>x \<in> set entries. mm_addr x + mm_len x \<le> mx)"
proof (induction entries arbitrary: es m u)
  case (Cons x entries)
  let ?m = "if mm_addr x + mm_len x > m then mm_addr x + mm_len x else m"
  obtain es1 where es1: "ext_wf es1" "frames es1 = frames es \<union> entry_frames x" "length es1 \<le> Suc (length es)"
    "mm_typ x = 1 \<longrightarrow> free_region_internal es (mm_addr x div PAGE_SIZE) (mm_len x div PAGE_SIZE) = Some es1"
    "mm_typ x \<noteq> 1 \<longrightarrow> es1 = es"
  proof (cases "mm_typ x = 1")
    case True
    then have "{mm_addr x div PAGE_SIZE..<mm_addr x div PAGE_SIZE + mm_len x div PAGE_SIZE} \<inter> frames es = {}"
      using Cons.prems(4) by (simp add: entry_frames_def)
    from free_region_ok[OF Cons.prems(1) _ this] Cons.prems(2) True that show ?thesis by (auto simp: entry_frames_def)
  next
    case False
    then show ?thesis using that Cons.prems(1) by (simp add: entry_frames_def)
  qed
  have d: "\<forall>y \<in> set entries. entry_frames y \<inter> frames es1 = {}"
  proof
    fix y assume "y \<in> set entries"
    then have "entry_frames x \<inter> entry_frames y = {}" "entry_frames y \<inter> frames es = {}" using Cons.prems(3,4) by simp_all
    then show "entry_frames y \<inter> frames es1 = {}" unfolding es1(2) by blast
  qed
  have "length es1 + length entries \<le> MAX_EXTENTS" "entries_disjoint entries" using Cons.prems(2,3) es1(3) by simp_all
  from Cons.IH[OF es1(1) this d, of ?m "if mm_typ x = 1 then u + mm_len x else u"] obtain es' mx us where
    r: "mmap_loop entries es1 ?m (if mm_typ x = 1 then u + mm_len x else u) = Some (es', mx, us)" "ext_wf es'" "?m \<le> mx"
      "frames es' = frames es1 \<union> (\<Union>x \<in> set entries. entry_frames x)" "length es' \<le> length es1 + length entries"
      "\<forall>x \<in> set entries. mm_addr x + mm_len x \<le> mx" by blast
  have "mmap_loop (x # entries) es m u = Some (es', mx, us)"
    using r(1) es1(4,5) by (cases "mm_typ x = 1") (simp_all add: Let_def)
  moreover have "m \<le> mx" "mm_addr x + mm_len x \<le> mx" using r(3) by (simp_all split: if_splits)
  ultimately show ?case using r(2,4-6) es1(2,3) by auto
qed simp

lemma card_frames: "ext_wf es \<Longrightarrow> card (frames es) = sum_list (map ext_count es)"
proof (induction es)
  case (Cons e es)
  have "{ext_start e..<ext_start e + ext_count e} \<inter> frames es = {}"
    using Cons.prems by (force simp: frames_def before_def)
  then have "card (frames (e # es)) = ext_count e + card (frames es)" by (simp add: card_Un_disjoint)
  then show ?case using Cons by simp
qed simp

lemma free_refs_ok:
  "\<forall>e \<in> set es. ext_start e + ext_count e \<le> length rs \<Longrightarrow>
   \<exists>rs'. free_refs rs es = Some rs' \<and> length rs' = length rs
     \<and> (\<forall>i < length rs. rs' ! i = (if i \<in> frames es then REF_FREE else rs ! i))"
proof (induction es arbitrary: rs)
  case (Cons e es)
  obtain rs1 where rs1: "set_refs rs (ext_start e) (ext_count e) REF_FREE = Some rs1" "length rs1 = length rs"
    "\<forall>i < length rs. rs1 ! i = (if ext_start e \<le> i \<and> i < ext_start e + ext_count e then REF_FREE else rs ! i)"
    using set_refs_ok[of "ext_start e" "ext_count e" rs REF_FREE] Cons.prems by auto
  obtain rs' where rs': "free_refs rs1 es = Some rs'" "length rs' = length rs"
    "\<forall>i < length rs. rs' ! i = (if i \<in> frames es then REF_FREE else rs1 ! i)"
    using Cons.IH[of rs1] Cons.prems rs1(2) by auto
  have "\<forall>i < length rs. rs' ! i = (if i \<in> frames (e # es) then REF_FREE else rs ! i)"
    using rs1(3) rs'(3) by auto
  then show ?case using rs1(1) rs'(1,2) by simp
qed simp

lemma extent_below:
  assumes "ext_wf es" and "frames es \<subseteq> {..<n}" and "e \<in> set es"
  shows "ext_start e + ext_count e \<le> n"
proof -
  have c: "0 < ext_count e" using assms(1,3) by (simp add: ext_wf_def)
  then have "ext_start e + ext_count e - 1 \<in> frames es" using assms(3) unfolding frames_def by force
  then show ?thesis using assms(2) c by auto
qed

lemma entry_below: "entry_frames e \<subseteq> {..<(mm_addr e + mm_len e) div PAGE_SIZE}"
proof -
  have "mm_addr e div PAGE_SIZE + mm_len e div PAGE_SIZE \<le> (mm_addr e + mm_len e) div PAGE_SIZE"
    using div_add1_eq[of "mm_addr e" "mm_len e" PAGE_SIZE] by linarith
  then show ?thesis by (auto simp: entry_frames_def)
qed

lemma core_ok_boot:
  assumes "ext_wf es" and "frames es \<subseteq> {..<n}" and "0 \<notin> frames es" and "length rs = n"
    and "\<forall>i < n. rs ! i = (if i \<in> frames es then REF_FREE else replicate n REF_RESERVED ! i)"
  shows "core_ok 0 (s\<lparr>extents := es, ref_counts := rs, total_frames := n, total_usable_memory_bytes := us,
                used_frames := n - sum_list (map ext_count es), hw_reserved_frames := hw, reserved_frames := rv, initialized := True\<rparr>)"
proof -
  have "card (frames es) \<le> n" using card_mono[OF _ assms(2)] by simp
  moreover have "f \<in> frames es \<longleftrightarrow> f < n \<and> rs ! f = 0" for f using assms(2,5) by (cases "f < n") auto
  ultimately show ?thesis using assms(1,3,4) card_frames[OF assms(1)] unfolding core_ok_def by simp
qed

lemma mag_ok_new: "magazines s = replicate MAX_CPUS [] \<Longrightarrow> magazine_total s = 0 \<Longrightarrow> mag_ok s"
  by (simp add: mag_ok_def)

lemma pmm_new_sel [simp]:
  "initialized pmm_new = False" "extents pmm_new = []" "magazines pmm_new = replicate MAX_CPUS []" "magazine_total pmm_new = 0"
  "nodes pmm_new = replicate MAX_NUMA_NODES \<lparr>nd_active = False, nd_start = 0, nd_end = 0\<rparr>"
  by (simp_all only: pmm_new_def pmm.simps)

lemma reserve_step:
  assumes "ext_wf es \<and> P \<and> length es \<le> n" and "2 * n \<le> MAX_EXTENTS"
  shows "ext_wf (reserve_region_internal es a k) \<and> frames (reserve_region_internal es a k) = frames es - {a..<a + k}
    \<and> length (reserve_region_internal es a k) \<le> 2 * n"
proof -
  have l: "2 * length es \<le> 2 * n" "2 * length es \<le> MAX_EXTENTS" using assms by simp_all
  show ?thesis using reserve_region_ok[OF _ l(2), of a k] l(1) assms(1) by (meson le_trans)
qed

text \<open>A small state: frames 1 and 2 are free, frame 3 is in the magazine of processor 0, frame 4 has two references.\<close>

definition pmm_example :: pmm where
  "pmm_example = pmm_new\<lparr>extents := [\<lparr>ext_start = 1, ext_count = 2\<rparr>], ref_counts := [255, 0, 0, 1, 2], total_frames := 5,
     used_frames := 3, initialized := True, magazines := [3] # replicate 31 [], magazine_total := 1\<rparr>"

lemma pmm_example_ok: "pmm_ok pmm_example"
proof -
  have "core_ok 0 pmm_example"
    by (auto simp: core_ok_def pmm_example_def less_Suc_eq nth_Cons split: nat.splits)
  moreover have "mag_ok pmm_example" by (simp add: mag_ok_def pmm_example_def)
  ultimately show ?thesis by (simp add: pmm_ok_def) (simp add: pmm_example_def)
qed

lemma pmm_example_sel:
  "extents pmm_example = [\<lparr>ext_start = 1, ext_count = 2\<rparr>]" "initialized pmm_example" "total_frames pmm_example = 5"
  "magazines pmm_example = [3] # replicate 31 []" "ref_counts pmm_example = [255, 0, 0, 1, 2]"
  by (simp_all add: pmm_example_def)

lemma other_case: "A \<and> B \<or> C \<Longrightarrow> \<not> A \<Longrightarrow> C"
  by blast

lemma alloc_scan_none:
  "\<forall>e \<in> set es. \<not> fits_extent nds cnt align pref e \<Longrightarrow> alloc_scan nds cnt align pref pre es = Some None"
proof (induction es arbitrary: pre)
  case (Cons e es)
  let ?a = "align_up (ext_start e) align"
  have "\<not> (ext_start e \<le> ?a \<and> valid_node nds pref ?a cnt \<and> ?a - ext_start e + cnt \<le> ext_count e)"
    using Cons.prems by (auto simp: fits_extent_def Let_def)
  then have "alloc_scan nds cnt align pref pre (e # es) = alloc_scan nds cnt align pref (pre @ [e]) es" by (simp only: alloc_scan.simps Let_def if_False simp_thms)
  then show ?case using Cons.IH Cons.prems by simp
qed simp

lemma alloc_contiguous_none:
  assumes "initialized s" and "\<forall>e \<in> set (extents s). \<not> fits_extent (nodes s) cnt align None e" and "align \<noteq> 0"
  shows "pmm_alloc_contiguous_aligned s cnt align = Some (s, 0)"
  using assms by (simp add: pmm_alloc_contiguous_aligned_def Let_def alloc_contiguous_internal_def alloc_scan_none)

section \<open>Properties\<close>



text \<open>
  \<^bold>\<open>C13.\<close> The sorted array of extents implements a set of frames: freeing a region adds its frames and leaves
  sorted extents no two of which touch, reserving a region removes its frames, and reserving what was just freed
  gives back the set.
\<close>

theorem extents_refine_sets:
  assumes "ext_wf es" and "2 * Suc (length es) \<le> MAX_EXTENTS" and "{a..<a + n} \<inter> frames es = {}" and "0 < n"
  shows "\<exists>es'. free_region_internal es a n = Some es' \<and> ext_wf es' \<and> sorted_wrt apart es' \<and> frames es' = frames es \<union> {a..<a + n}
    \<and> ext_wf (reserve_region_internal es' b m) \<and> frames (reserve_region_internal es' b m) = frames es \<union> {a..<a + n} - {b..<b + m}
    \<and> frames (reserve_region_internal es' a n) = frames es"
proof -
  have l: "length es < MAX_EXTENTS" using assms(2) by simp
  obtain es' where es': "free_region_internal es a n = Some es'" "ext_wf es'" "frames es' = frames es \<union> {a..<a + n}"
    "length es' \<le> Suc (length es)" "sorted_wrt apart es'" using free_region_ok[OF assms(1) l assms(3)] assms(4) by blast
  have l': "2 * length es' \<le> MAX_EXTENTS" using es'(4) assms(2) by simp
  have "frames es \<union> {a..<a + n} - {a..<a + n} = frames es" using assms(3) by blast
  then show ?thesis using es' reserve_region_ok[OF es'(2) l', of b m] reserve_region_ok[OF es'(2) l', of a n] by auto
qed

theorem extents_refine_sets_witness:
  "\<exists>es'. free_region_internal [\<lparr>ext_start = 4, ext_count = 2\<rparr>, \<lparr>ext_start = 9, ext_count = 1\<rparr>] 6 3 = Some es'
    \<and> frames (reserve_region_internal es' 6 3) = frames [\<lparr>ext_start = 4, ext_count = 2\<rparr>, \<lparr>ext_start = 9, ext_count = 1\<rparr>]"
proof -
  have "{6..<6 + 3} \<inter> frames [\<lparr>ext_start = 4, ext_count = 2\<rparr>, \<lparr>ext_start = 9, ext_count = 1\<rparr>] = {}" by auto
  from extents_refine_sets[OF _ _ this, where b = 6 and m = 3] show ?thesis by (auto simp: before_def)
qed

text \<open>
  \<^bold>\<open>C6.\<close> Allocation of a frame is exclusive: \<open>pmm_alloc_frame\<close> returns 0 only when the processor's magazine and the
  extents are empty; otherwise the frame was free or in a magazine before, is in neither afterwards and has one
  reference, and the invariant is kept.
\<close>

theorem pmm_alloc_frame_exclusive:
  assumes "pmm_ok s" and "initialized s" and "length (extents s) + 33 < MAX_EXTENTS" and "cpu < MAX_CPUS" and "total_frames s < 2 ^ 64"
  shows "\<exists>s' f. pmm_alloc_frame s cpu = Some (s', f * PAGE_SIZE) \<and> pmm_ok s' \<and>
    (if f = 0 then frames (extents s) = {} \<and> magazines s ! cpu = [] \<and> s' = s
     else (f \<in> frames (extents s) \<or> f \<in> set (concat (magazines s)))
       \<and> f \<notin> frames (extents s') \<and> f \<notin> set (concat (magazines s')) \<and> f < total_frames s' \<and> ref_counts s' ! f = 1)"
  using alloc_frame_ok[OF assms] .

theorem pmm_alloc_frame_exclusive_witness: "\<exists>s' f. pmm_alloc_frame pmm_example 1 = Some (s', f * PAGE_SIZE) \<and> pmm_ok s'"
  using pmm_alloc_frame_exclusive[OF pmm_example_ok, of 1] by (fastforce simp: pmm_example_sel)

text \<open>
  \<^bold>\<open>C32.\<close> A frame with one reference that is in no magazine can be freed: \<open>pmm_free_frame\<close> keeps the invariant, and
  the next allocation on the same processor returns that frame.
\<close>

theorem pmm_free_alloc_roundtrip:
  assumes "pmm_ok s" and "cpu < MAX_CPUS" and "length (extents s) + MAGAZINE_SIZE \<le> MAX_EXTENTS"
    and "0 < f" and "f < total_frames s" and "ref_counts s ! f = 1" and "f \<notin> set (concat (magazines s))"
  shows "\<exists>s' s''. pmm_free_frame s cpu (f * PAGE_SIZE) = Some s' \<and> pmm_ok s'
    \<and> pmm_alloc_frame s' cpu = Some (s'', f * PAGE_SIZE) \<and> pmm_ok s''"
proof -
  obtain s' where s': "pmm_free_frame s cpu (f * PAGE_SIZE) = Some s'" "pmm_ok s'" "magazines s' ! cpu \<noteq> []" "last (magazines s' ! cpu) = f"
    using free_frame_ok[OF assms] by blast
  obtain s'' g where p: "magazine_pop s' cpu = (s'', g * PAGE_SIZE)" "pmm_ok s''" using pop_ok[OF s'(2) assms(2) s'(3)] by blast
  have "g = f" using p(1) s'(4) by (auto simp: magazine_pop_def Let_def)
  then have "pmm_alloc_frame s' cpu = Some (s'', f * PAGE_SIZE)" using p(1) s'(3) assms(2) by (simp add: pmm_alloc_frame_def)
  then show ?thesis using s'(1,2) p(2) by blast
qed

theorem pmm_free_alloc_roundtrip_witness:
  "\<exists>s' s''. pmm_free_frame (pmm_example\<lparr>ref_counts := [255, 0, 0, 1, 1]\<rparr>) 5 (4 * PAGE_SIZE) = Some s' \<and> pmm_ok s'
    \<and> pmm_alloc_frame s' 5 = Some (s'', 4 * PAGE_SIZE) \<and> pmm_ok s''"
proof (rule pmm_free_alloc_roundtrip)
  have "core_ok 0 (pmm_example\<lparr>ref_counts := [255, 0, 0, 1, 1]\<rparr>)"
    by (auto simp: core_ok_def pmm_example_def less_Suc_eq nth_Cons split: nat.splits)
  moreover have "mag_ok (pmm_example\<lparr>ref_counts := [255, 0, 0, 1, 1]\<rparr>)" by (simp add: mag_ok_def pmm_example_def)
  ultimately show "pmm_ok (pmm_example\<lparr>ref_counts := [255, 0, 0, 1, 1]\<rparr>)" by (simp add: pmm_ok_def) (simp add: pmm_example_def)
qed (simp_all add: pmm_example_def)



text \<open>
  \<^bold>\<open>C33.\<close> \<open>pmm_free_frame\<close> does not look at the reference count while the processor's magazine has room: a frame that is
  shared (two references) or reserved is put into the magazine with its count unchanged, and the next allocation on that
  processor hands it out although its other owner still uses it.
\<close>

theorem pmm_free_shared_frame:
  assumes "cpu < MAX_CPUS" and "cpu < length (magazines s)" and "length (magazines s ! cpu) < MAGAZINE_SIZE" and "0 < f"
  shows "\<exists>s'. pmm_free_frame s cpu (f * PAGE_SIZE) = Some s' \<and> ref_counts s' = ref_counts s
    \<and> (\<exists>s''. pmm_alloc_frame s' cpu = Some (s'', f * PAGE_SIZE) \<and> ref_counts s'' = ref_counts s)"
  using assms by (simp add: pmm_free_frame_def pmm_alloc_frame_def magazine_pop_def Let_def)

theorem pmm_free_shared_frame_witness:
  "pmm_get_ref pmm_example (4 * PAGE_SIZE) = Some 2 \<and>
   (\<exists>s'. pmm_free_frame pmm_example 0 (4 * PAGE_SIZE) = Some s' \<and> ref_counts s' = ref_counts pmm_example
    \<and> (\<exists>s''. pmm_alloc_frame s' 0 = Some (s'', 4 * PAGE_SIZE) \<and> ref_counts s'' = ref_counts pmm_example))"
  using pmm_free_shared_frame[of 0 pmm_example 4] by (simp add: pmm_example_sel pmm_get_ref_def load_def)

end
