(* ===== verification/Vm_Arena.thy ===== *)
theory Vm_Arena
  imports Kernel_Prelude
begin

text \<open>
  The allocator of kernel virtual addresses, the class \<open>VmArena\<close> of \<open>src/archs/memory/kheap.h\<close> and
  \<open>src/archs/memory/kheap_slab.cpp\<close>: a sorted array of at most 512 free ranges below a watermark, and the untouched
  addresses from the watermark to the limit. The array is the list of its first \<open>count_\<close> entries; writing an entry
  behind the array is \<open>None\<close>. An address 0 means that the allocation failed.
\<close>

section \<open>The arena\<close>

abbreviation (input) VM_ARENA_MAX_REGIONS :: nat where "VM_ARENA_MAX_REGIONS \<equiv> 512"
abbreviation (input) VM_PAGE :: u64 where "VM_PAGE \<equiv> 4096"

record vm_range =
  base :: u64
  pages :: u32

record vm_arena =
  regions :: "vm_range list"
  watermark :: u64
  limit :: u64

definition arena_init :: "u64 \<Rightarrow> u64 \<Rightarrow> vm_arena" where
  "arena_init start lim = \<lparr>regions = [], watermark = start, limit = lim\<rparr>"

function lower_bound_loop :: "vm_range list \<Rightarrow> u64 \<Rightarrow> nat \<Rightarrow> nat \<Rightarrow> nat" where
  "lower_bound_loop rs addr lo hi =
     (if lo < hi
      then let mid = (lo + hi) div 2
           in if base (rs ! mid) < addr then lower_bound_loop rs addr (mid + 1) hi else lower_bound_loop rs addr lo mid
      else lo)"
  by pat_completeness auto

termination
  by (relation "measure (\<lambda>(rs, addr, lo, hi). hi - lo)") auto

declare lower_bound_loop.simps [simp del]

definition lower_bound :: "vm_range list \<Rightarrow> u64 \<Rightarrow> nat" where
  "lower_bound rs addr = lower_bound_loop rs addr 0 (length rs)"

definition insert_at :: "nat \<Rightarrow> u64 \<Rightarrow> u32 \<Rightarrow> vm_range list \<Rightarrow> vm_range list option" where
  "insert_at idx b pg rs =
     (if length rs < VM_ARENA_MAX_REGIONS then Some (take idx rs @ \<lparr>base = b, pages = pg\<rparr> # drop idx rs) else None)"

definition remove_at :: "nat \<Rightarrow> vm_range list \<Rightarrow> vm_range list" where
  "remove_at idx rs = take idx rs @ drop (Suc idx) rs"

definition range_end :: "vm_range \<Rightarrow> u64" where
  "range_end r = base r + ucast (pages r) * VM_PAGE"

definition coalesce_up :: "nat \<Rightarrow> vm_range list \<Rightarrow> vm_range list" where
  "coalesce_up idx rs =
     (if idx + 1 < length rs \<and> range_end (rs ! idx) = base (rs ! (idx + 1))
      then remove_at (idx + 1) (rs[idx := (rs ! idx)\<lparr>pages := pages (rs ! idx) + pages (rs ! (idx + 1))\<rparr>])
      else rs)"

definition coalesce_around :: "nat \<Rightarrow> vm_range list \<Rightarrow> vm_range list" where
  "coalesce_around idx rs =
     (let rs1 = coalesce_up idx rs
      in if idx > 0 \<and> range_end (rs1 ! (idx - 1)) = base (rs1 ! idx)
         then remove_at idx (rs1[idx - 1 := (rs1 ! (idx - 1))\<lparr>pages := pages (rs1 ! (idx - 1)) + pages (rs1 ! idx)\<rparr>])
         else rs1)"

fun region_scan :: "vm_range list \<Rightarrow> u64 \<Rightarrow> (u64 \<times> vm_range list) option" where
  "region_scan [] pgs = None"
| "region_scan (r # rs) pgs =
     (if pages r \<ge> ucast pgs
      then Some (base r, if pages r = ucast pgs then rs
                         else r\<lparr>base := base r + pgs * VM_PAGE, pages := pages r - ucast pgs\<rparr> # rs)
      else map_option (\<lambda>(b, rs1). (b, r # rs1)) (region_scan rs pgs))"

definition arena_alloc :: "u64 \<Rightarrow> vm_arena \<Rightarrow> vm_arena \<times> u64" where
  "arena_alloc pgs a =
     (if pgs = 0 then (a, 0)
      else case region_scan (regions a) pgs of
        Some (b, rs) \<Rightarrow> (a\<lparr>regions := rs\<rparr>, b)
      | None \<Rightarrow>
          (let b = watermark a
           in if b + pgs * VM_PAGE > limit a \<or> b + pgs * VM_PAGE < b then (a, 0)
              else (a\<lparr>watermark := b + pgs * VM_PAGE\<rparr>, b)))"

definition vm_align_up :: "u64 \<Rightarrow> u64 \<Rightarrow> u64" where
  "vm_align_up x al = (x + (al - 1)) AND NOT (al - 1)"

text \<open>The first region that can hold an aligned block, from index \<open>i\<close> on; the regions already passed are \<open>seen\<close>.\<close>

fun aligned_scan :: "vm_range list \<Rightarrow> vm_range list \<Rightarrow> u64 \<Rightarrow> u64 \<Rightarrow> (u64 \<times> vm_range list) option option" where
  "aligned_scan seen [] pgs ab = Some None"
| "aligned_scan seen (r # rs) pgs ab =
     (let aligned = vm_align_up (base r) ab;
          gap = (aligned - base r) div VM_PAGE;
          need = gap + pgs
      in if pages r < ucast need then aligned_scan (seen @ [r]) rs pgs ab
         else let rem = pages r - ucast need
              in if gap > 0
                 then let all = seen @ r\<lparr>pages := ucast gap\<rparr> # rs
                      in if rem > 0
                         then (let tb = aligned + pgs * VM_PAGE; ins = lower_bound all tb
                               in if length all < VM_ARENA_MAX_REGIONS
                                  then map_option (\<lambda>x. Some (aligned, x)) (insert_at ins tb rem all)
                                  else Some (Some (aligned, all)))
                         else Some (Some (aligned, all))
                 else if rem = 0 then Some (Some (aligned, seen @ rs))
                 else Some (Some (aligned, seen @ r\<lparr>base := aligned + pgs * VM_PAGE, pages := rem\<rparr> # rs)))"

definition arena_alloc_aligned :: "u64 \<Rightarrow> u64 \<Rightarrow> vm_arena \<Rightarrow> (vm_arena \<times> u64) option" where
  "arena_alloc_aligned pgs align_pages a =
     (if pgs = 0 \<or> align_pages = 0 then Some (a, 0)
      else do {
        let ab = align_pages * VM_PAGE;
        found \<leftarrow> aligned_scan [] (regions a) pgs ab;
        case found of
          Some (b, rs) \<Rightarrow> Some (a\<lparr>regions := rs\<rparr>, b)
        | None \<Rightarrow> do {
            let aligned = vm_align_up (watermark a) ab;
            if aligned + pgs * VM_PAGE > limit a then Some (a, 0)
            else do {
              rs \<leftarrow> (if aligned > watermark a \<and> length (regions a) < VM_ARENA_MAX_REGIONS
                      then do { let gap_pages = ucast ((aligned - watermark a) div VM_PAGE);
                                let ins = lower_bound (regions a) (watermark a);
                                rs \<leftarrow> insert_at ins (watermark a) gap_pages (regions a);
                                Some (coalesce_around ins rs) }
                      else Some (regions a));
              Some (a\<lparr>regions := rs, watermark := aligned + pgs * VM_PAGE\<rparr>, aligned) } } })"

definition arena_free :: "u64 \<Rightarrow> u64 \<Rightarrow> vm_arena \<Rightarrow> vm_arena option" where
  "arena_free b pgs a =
     (if b = 0 \<or> pgs = 0 then Some a
      else do {
        let rs = (if length (regions a) \<ge> VM_ARENA_MAX_REGIONS - 2
                  then coalesce_around (length (regions a) - 1) (regions a) else regions a);
        let pg = (if pgs > 0xFFFFFFFF then 0xFFFFFFFF else ucast pgs);
        let idx = lower_bound rs b;
        rs1 \<leftarrow> insert_at idx b pg rs;
        Some (a\<lparr>regions := coalesce_around idx rs1\<rparr>) })"

section \<open>Ranges as sets of addresses\<close>

definition r_end :: "vm_range \<Rightarrow> nat" where
  "r_end r = unat (base r) + unat (pages r) * 4096"

definition range_bytes :: "vm_range \<Rightarrow> nat set" where
  "range_bytes r = {unat (base r) ..< r_end r}"

definition list_bytes :: "vm_range list \<Rightarrow> nat set" where
  "list_bytes rs = (\<Union>r\<in>set rs. range_bytes r)"

text \<open>The ranges are not empty, lie between \<open>lo\<close> and \<open>hi\<close>, and are sorted and apart.\<close>

definition regions_ok :: "nat \<Rightarrow> nat \<Rightarrow> vm_range list \<Rightarrow> bool" where
  "regions_ok lo hi rs \<longleftrightarrow> (\<forall>r\<in>set rs. lo \<le> unat (base r) \<and> 0 < unat (pages r) \<and> r_end r \<le> hi)
     \<and> sorted_wrt (\<lambda>r s. r_end r \<le> unat (base s)) rs"

text \<open>The arena spans fewer than \<open>2 ^ 32\<close> pages and does not contain the address 0.\<close>

definition arena_ok :: "nat \<Rightarrow> vm_arena \<Rightarrow> bool" where
  "arena_ok lo a \<longleftrightarrow> regions_ok lo (unat (watermark a)) (regions a) \<and> 0 < lo \<and> lo \<le> unat (watermark a)
     \<and> unat (watermark a) \<le> unat (limit a) \<and> unat (limit a) - lo < 2 ^ 44"

definition free_bytes :: "vm_arena \<Rightarrow> nat set" where
  "free_bytes a = list_bytes (regions a) \<union> {unat (watermark a) ..< unat (limit a)}"

definition block_bytes :: "u64 \<Rightarrow> u64 \<Rightarrow> nat set" where
  "block_bytes b pgs = {unat b ..< unat b + unat pgs * 4096}"

lemma list_bytes_simps [simp]:
  "list_bytes [] = {}" "list_bytes (r # rs) = range_bytes r \<union> list_bytes rs" "list_bytes (xs @ ys) = list_bytes xs \<union> list_bytes ys"
  by (auto simp: list_bytes_def)

lemma regions_ok_append:
  "regions_ok lo hi (xs @ ys) \<longleftrightarrow> regions_ok lo hi xs \<and> regions_ok lo hi ys \<and> (\<forall>r\<in>set xs. \<forall>s\<in>set ys. r_end r \<le> unat (base s))"
  by (auto simp: regions_ok_def sorted_wrt_append)

lemma regions_ok_Cons:
  "regions_ok lo hi (r # rs) \<longleftrightarrow> lo \<le> unat (base r) \<and> 0 < unat (pages r) \<and> r_end r \<le> hi
     \<and> (\<forall>s\<in>set rs. r_end r \<le> unat (base s)) \<and> regions_ok lo hi rs"
  by (auto simp: regions_ok_def)

lemma base_less_end: "0 < unat (pages r) \<Longrightarrow> unat (base r) < r_end r"
  by (simp add: r_end_def)

lemma bytes_before:
  assumes "\<forall>r\<in>set xs. r_end r \<le> n"
  shows "list_bytes xs \<subseteq> {..<n}"
  using assms by (fastforce simp: list_bytes_def range_bytes_def)

lemma bytes_after:
  assumes "\<forall>r\<in>set xs. n \<le> unat (base r)"
  shows "list_bytes xs \<subseteq> {n..}"
  using assms by (fastforce simp: list_bytes_def range_bytes_def)

section \<open>Insertion and merging\<close>

lemma range_end_eq:
  assumes "r_end r < 2 ^ 64"
  shows "unat (range_end r) = r_end r"
proof -
  have p: "unat (ucast (pages r) :: u64) = unat (pages r)"
    using unsigned_less[of "pages r", where 'a = nat] by (simp add: unsigned_ucast_eq take_bit_nat_eq_self)
  have "unat (pages r) < 2 ^ 32" using unsigned_less[of "pages r", where 'a = nat] by simp
  then have "unat (ucast (pages r) * VM_PAGE :: u64) = unat (pages r) * 4096"
    using p by (simp add: unat_word_ariths)
  then show ?thesis using assms by (simp add: range_end_def r_end_def unat_plus_no_overflow)
qed

text \<open>Merging a range with its successor keeps the addresses.\<close>

lemma coalesce_up_split:
  "range_end r = base s \<Longrightarrow> coalesce_up (length xs) (xs @ r # s # ys) = xs @ r\<lparr>pages := pages r + pages s\<rparr> # ys"
  by (simp add: coalesce_up_def remove_at_def nth_append list_update_append)

lemma coalesce_up_ok:
  assumes "regions_ok lo hi rs" and "hi < 2 ^ 64" and "hi - lo < 2 ^ 44" and "idx < length rs"
  shows "regions_ok lo hi (coalesce_up idx rs)" and "list_bytes (coalesce_up idx rs) = list_bytes rs"
    and "idx < length (coalesce_up idx rs)" and "length (coalesce_up idx rs) \<le> length rs"
proof -
  have "regions_ok lo hi (coalesce_up idx rs) \<and> list_bytes (coalesce_up idx rs) = list_bytes rs
    \<and> idx < length (coalesce_up idx rs) \<and> length (coalesce_up idx rs) \<le> length rs"
  proof (cases "idx + 1 < length rs \<and> range_end (rs ! idx) = base (rs ! (idx + 1))")
    case False
    then show ?thesis using assms by (auto simp: coalesce_up_def)
  next
    case True
    let ?r = "rs ! idx" and ?s = "rs ! (idx + 1)" and ?xs = "take idx rs" and ?ys = "drop (idx + 2) rs"
    have rs: "rs = ?xs @ ?r # ?s # ?ys"
      using True by (metis Cons_nth_drop_Suc Suc_eq_plus1 add_2_eq_Suc' append_take_drop_id assms(4))
    let ?m = "?r\<lparr>pages := pages ?r + pages ?s\<rparr>"
    have "length ?xs = idx" using assms(4) by simp
    then have e: "coalesce_up idx rs = ?xs @ ?m # ?ys"
      using True coalesce_up_split[of ?r ?s ?xs ?ys] rs by metis
    have ok: "regions_ok lo hi (?xs @ ?r # ?s # ?ys)" using assms(1) rs by simp
    have b: "r_end ?r \<le> hi" "r_end ?s \<le> hi" "lo \<le> unat (base ?r)" "0 < unat (pages ?s)"
      using ok by (simp_all add: regions_ok_append regions_ok_Cons)
    have adj: "r_end ?r = unat (base ?s)" using True range_end_eq[of ?r] b(1) assms(2) by simp
    then have "(unat (pages ?r) + unat (pages ?s)) * 4096 = r_end ?s - unat (base ?r)"
      by (simp add: r_end_def algebra_simps)
    also have "\<dots> < 2 ^ 44" using b assms(3) by simp
    finally have "unat (pages ?r + pages ?s) = unat (pages ?r) + unat (pages ?s)"
      by (intro unat_plus_no_overflow) simp
    then have m: "r_end ?m = r_end ?s" "0 < unat (pages ?m)" "unat (base ?m) = unat (base ?r)"
      using adj b(4) by (simp_all add: r_end_def algebra_simps)
    have "range_bytes ?m = range_bytes ?r \<union> range_bytes ?s"
      using m adj base_less_end[OF b(4)] by (auto simp: range_bytes_def) (simp add: r_end_def)
    then have "list_bytes (?xs @ ?m # ?ys) = list_bytes (?xs @ ?r # ?s # ?ys)" by auto
    then have "list_bytes (?xs @ ?m # ?ys) = list_bytes rs" by (simp only: rs[symmetric])
    moreover have "regions_ok lo hi (?xs @ ?m # ?ys)" using ok m by (auto simp: regions_ok_append regions_ok_Cons)
    moreover have "length (?xs @ ?m # ?ys) = length rs - 1" using True by auto
    ultimately show ?thesis using True unfolding e by auto
  qed
  then show "regions_ok lo hi (coalesce_up idx rs)" "list_bytes (coalesce_up idx rs) = list_bytes rs"
    "idx < length (coalesce_up idx rs)" "length (coalesce_up idx rs) \<le> length rs" by blast+
qed

lemma coalesce_around_ok:
  assumes "regions_ok lo hi rs" and "hi < 2 ^ 64" and "hi - lo < 2 ^ 44" and "idx < length rs"
  shows "regions_ok lo hi (coalesce_around idx rs)" and "list_bytes (coalesce_around idx rs) = list_bytes rs"
    and "length (coalesce_around idx rs) \<le> length rs"
proof -
  note up = coalesce_up_ok[OF assms]
  have e: "coalesce_around idx rs = (if idx > 0 then coalesce_up (idx - 1) (coalesce_up idx rs) else coalesce_up idx rs)"
    using up(3) by (cases "idx > 0") (simp_all add: coalesce_around_def coalesce_up_def[of "idx - Suc 0" "coalesce_up idx rs"] Let_def)
  have "idx - 1 < length (coalesce_up idx rs)" using up(3) by simp
  note dn = coalesce_up_ok[OF up(1) assms(2,3) this]
  show "regions_ok lo hi (coalesce_around idx rs)" "list_bytes (coalesce_around idx rs) = list_bytes rs"
    "length (coalesce_around idx rs) \<le> length rs"
    using up dn by (auto simp: e)
qed

text \<open>Binary search finds the first range that does not start below the address.\<close>

lemma lower_bound_loop_ok:
  assumes "sorted (map (\<lambda>r. unat (base r)) rs)"
  shows "lo \<le> hi \<Longrightarrow> hi \<le> length rs \<Longrightarrow> (\<And>i. i < lo \<Longrightarrow> base (rs ! i) < addr) \<Longrightarrow>
    (\<And>i. hi \<le> i \<Longrightarrow> i < length rs \<Longrightarrow> \<not> base (rs ! i) < addr) \<Longrightarrow>
    (let k = lower_bound_loop rs addr lo hi in k \<le> length rs \<and> (\<forall>i<k. base (rs ! i) < addr)
      \<and> (\<forall>i. k \<le> i \<and> i < length rs \<longrightarrow> \<not> base (rs ! i) < addr))"
  using assms
proof (induction rs addr lo hi rule: lower_bound_loop.induct)
  case (1 rs addr lo hi)
  have mono: "base (rs ! i) \<le> base (rs ! j)" if "i \<le> j" "j < length rs" for i j
    using sorted_nth_mono[OF 1(7), of i j] that by (simp add: word_le_nat_alt)
  show ?case
  proof (cases "lo < hi")
    case False
    then show ?thesis using 1(3-6) by (subst lower_bound_loop.simps) (auto simp: Let_def)
  next
    case True
    let ?mid = "(lo + hi) div 2"
    have mid: "lo \<le> ?mid" "?mid < hi" "?mid < length rs" using True 1(4) by auto
    show ?thesis
    proof (cases "base (rs ! ?mid) < addr")
      case t: True
      have "base (rs ! i) < addr" if "i < ?mid + 1" for i using mono[of i ?mid] that mid t by force
      then show ?thesis using 1(1)[OF True refl t] 1(4-7) True t mid by (subst lower_bound_loop.simps) (simp add: Let_def)
    next
      case f: False
      have "\<not> base (rs ! i) < addr" if "?mid \<le> i" "i < length rs" for i using mono[of ?mid i] that f by force
      then show ?thesis using 1(2)[OF True refl f] 1(3-7) True f mid by (subst lower_bound_loop.simps) (simp add: Let_def)
    qed
  qed
qed

lemma regions_ok_sorted: "regions_ok lo hi rs \<Longrightarrow> sorted (map (\<lambda>r. unat (base r)) rs)"
proof (induction rs)
  case (Cons r rs)
  then have "0 < unat (pages r)" "\<forall>s\<in>set rs. r_end r \<le> unat (base s)" by (simp_all add: regions_ok_Cons)
  then have "\<forall>s\<in>set rs. unat (base r) \<le> unat (base s)" using base_less_end[of r] by fastforce
  then show ?case using Cons by (simp add: regions_ok_Cons)
qed simp

lemma lower_bound_ok:
  assumes "regions_ok lo hi rs"
  shows "lower_bound rs addr \<le> length rs" and "r \<in> set (take (lower_bound rs addr) rs) \<Longrightarrow> unat (base r) < unat addr"
    and "r \<in> set (drop (lower_bound rs addr) rs) \<Longrightarrow> unat addr \<le> unat (base r)"
proof -
  let ?k = "lower_bound rs addr"
  have k: "?k \<le> length rs" "\<forall>i<?k. base (rs ! i) < addr" "\<forall>i. ?k \<le> i \<and> i < length rs \<longrightarrow> \<not> base (rs ! i) < addr"
    using lower_bound_loop_ok[OF regions_ok_sorted[OF assms], of 0 "length rs" addr]
    by (simp_all add: lower_bound_def Let_def)
  show "?k \<le> length rs" by (rule k(1))
  show "unat (base r) < unat addr" if "r \<in> set (take ?k rs)"
    using that k by (auto simp: in_set_conv_nth word_less_nat_alt)
  show "unat addr \<le> unat (base r)" if "r \<in> set (drop ?k rs)"
    using that k by (auto simp: in_set_conv_nth word_less_nat_alt not_less)
qed

text \<open>A new range that overlaps none of the others keeps its place in the order.\<close>

lemma insert_ok:
  assumes ok: "regions_ok lo hi rs" and new: "lo \<le> unat (base n)" "0 < unat (pages n)" "r_end n \<le> hi"
    and disj: "range_bytes n \<inter> list_bytes rs = {}"
  shows "regions_ok lo hi (take (lower_bound rs (base n)) rs @ n # drop (lower_bound rs (base n)) rs)"
proof -
  let ?k = "lower_bound rs (base n)"
  let ?xs = "take ?k rs" and ?ys = "drop ?k rs"
  have split: "regions_ok lo hi (?xs @ ?ys)" using ok by simp
  have nb: "unat (base n) \<in> range_bytes n" using base_less_end[OF new(2)] by (simp add: range_bytes_def)
  have l: "r_end r \<le> unat (base n)" if "r \<in> set ?xs" for r
  proof -
    have "unat (base r) < unat (base n)" using lower_bound_ok(2)[OF ok that] .
    moreover have "unat (base n) \<notin> range_bytes r" using disj nb that by (auto simp: list_bytes_def dest: in_set_takeD)
    ultimately show ?thesis by (simp add: range_bytes_def)
  qed
  have g: "r_end n \<le> unat (base r)" if "r \<in> set ?ys" for r
  proof -
    have "0 < unat (pages r)" using ok that by (auto simp: regions_ok_def dest: in_set_dropD)
    then have "unat (base r) \<in> range_bytes r" using base_less_end by (simp add: range_bytes_def)
    then have "unat (base r) \<notin> range_bytes n" using disj that by (auto simp: list_bytes_def dest: in_set_dropD)
    moreover have "unat (base n) \<le> unat (base r)" using lower_bound_ok(3)[OF ok that] .
    ultimately show ?thesis by (simp add: range_bytes_def)
  qed
  have "regions_ok lo hi ?xs" "regions_ok lo hi ?ys" "\<forall>r\<in>set ?xs. \<forall>s\<in>set ?ys. r_end r \<le> unat (base s)"
    using split unfolding regions_ok_append by blast+
  then show ?thesis unfolding regions_ok_append regions_ok_Cons using new l g by auto
qed

section \<open>Allocation\<close>

lemma unat_block:
  assumes "unat pgs < 2 ^ 32"
  shows "unat (ucast pgs :: u32) = unat pgs" and "unat (pgs * VM_PAGE) = unat pgs * 4096"
  using assms by (simp_all add: unsigned_ucast_eq take_bit_nat_eq_self unat_word_ariths)

text \<open>The scan takes the front of the first range that is large enough.\<close>

lemma region_scan_Some:
  assumes "unat pgs < 2 ^ 32"
  shows "region_scan rs pgs = Some (b, rs1) \<Longrightarrow> \<exists>xs r ys. rs = xs @ r # ys \<and> b = base r \<and> unat pgs \<le> unat (pages r)
    \<and> rs1 = xs @ (if unat (pages r) = unat pgs then ys
        else r\<lparr>base := base r + pgs * VM_PAGE, pages := pages r - ucast pgs\<rparr> # ys)"
proof (induction rs arbitrary: b rs1)
  case (Cons r rs)
  note u = unat_block(1)[OF assms]
  show ?case
  proof (cases "pages r \<ge> ucast pgs")
    case True
    then show ?thesis using Cons.prems u
      by (intro exI[of _ "[]"] exI[of _ r] exI[of _ rs]) (auto simp: word_le_nat_alt word_unat_eq_iff)
  next
    case False
    then obtain rs2 where "region_scan rs pgs = Some (b, rs2)" "rs1 = r # rs2" using Cons.prems by auto
    then obtain xs q ys where "rs = xs @ q # ys" "b = base q" "unat pgs \<le> unat (pages q)"
      "rs2 = xs @ (if unat (pages q) = unat pgs then ys
        else q\<lparr>base := base q + pgs * VM_PAGE, pages := pages q - ucast pgs\<rparr> # ys)" using Cons.IH by blast
    then show ?thesis using \<open>rs1 = r # rs2\<close> by (intro exI[of _ "r # xs"] exI[of _ q] exI[of _ ys]) simp
  qed
qed simp

lemma region_scan_None:
  "unat pgs < 2 ^ 32 \<Longrightarrow> region_scan rs pgs = None \<Longrightarrow> r \<in> set rs \<Longrightarrow> unat (pages r) < unat pgs"
  by (induction rs) (auto simp: unat_block word_le_nat_alt not_le split: if_splits)

lemma take_front:
  assumes ok: "regions_ok lo hi (xs @ r # ys)" and hi: "hi < 2 ^ 64" and p: "0 < unat pgs" "unat pgs \<le> unat (pages r)" "unat pgs < 2 ^ 32"
  defines "rs1 \<equiv> xs @ (if unat (pages r) = unat pgs then ys
    else r\<lparr>base := base r + pgs * VM_PAGE, pages := pages r - ucast pgs\<rparr> # ys)"
  shows "regions_ok lo hi rs1" and "list_bytes rs1 = list_bytes (xs @ r # ys) - block_bytes (base r) pgs"
    and "block_bytes (base r) pgs \<subseteq> range_bytes r"
proof -
  let ?q = "r\<lparr>base := base r + pgs * VM_PAGE, pages := pages r - ucast pgs\<rparr>"
  have e: "r_end r \<le> hi" and bl: "lo \<le> unat (base r)" using ok by (auto simp: regions_ok_append regions_ok_Cons)
  have le: "unat (base r) + unat pgs * 4096 \<le> r_end r" using p(2) by (simp add: r_end_def)
  then have qb: "unat (base ?q) = unat (base r) + unat pgs * 4096"
    using e hi p(3) by (simp add: unat_block unat_plus_no_overflow)
  have qp: "unat (pages ?q) = unat (pages r) - unat pgs"
    using p(2,3) by (simp add: unat_sub word_le_nat_alt unat_block)
  have qe: "r_end ?q = r_end r" using mult_le_mono1[OF p(2), of 4096] unfolding r_end_def qb qp by (simp add: diff_mult_distrib)
  show sub: "block_bytes (base r) pgs \<subseteq> range_bytes r" using le by (auto simp: block_bytes_def range_bytes_def)
  have x: "list_bytes xs \<subseteq> {..<unat (base r)}"
    using ok by (intro bytes_before) (auto simp: regions_ok_append)
  have y: "list_bytes ys \<subseteq> {r_end r..}"
    using ok by (intro bytes_after) (auto simp: regions_ok_append regions_ok_Cons)
  have out: "list_bytes xs \<inter> block_bytes (base r) pgs = {}" "list_bytes ys \<inter> block_bytes (base r) pgs = {}"
    using x y le by (auto simp: block_bytes_def)
  show "regions_ok lo hi rs1"
    using ok qb qp qe p bl by (auto simp: rs1_def regions_ok_append regions_ok_Cons)
  have "range_bytes r - block_bytes (base r) pgs = (if unat (pages r) = unat pgs then {} else range_bytes ?q)"
  proof (cases "unat (pages r) = unat pgs")
    case True
    then show ?thesis by (simp add: range_bytes_def block_bytes_def r_end_def)
  next
    case False
    have "range_bytes ?q = {unat (base r) + unat pgs * 4096 ..< r_end r}" by (simp only: range_bytes_def qb qe)
    then show ?thesis using False by (auto simp: range_bytes_def block_bytes_def)
  qed
  then show "list_bytes rs1 = list_bytes (xs @ r # ys) - block_bytes (base r) pgs"
    using out by (auto simp: rs1_def split: if_splits)
qed

lemma arena_alloc_step:
  assumes ok: "arena_ok lo a" and p: "0 < unat pgs" "unat pgs < 2 ^ 32" and r: "arena_alloc pgs a = (a', b)"
  shows "arena_ok lo a' \<and> (if b = 0 then a' = a
        \<and> (\<forall>r\<in>set (regions a). unat (pages r) < unat pgs) \<and> unat (limit a) < unat (watermark a) + unat pgs * 4096
      else block_bytes b pgs \<subseteq> free_bytes a \<and> free_bytes a' = free_bytes a - block_bytes b pgs)"
proof -
  let ?w = "unat (watermark a)" and ?l = "unat (limit a)"
  have p0: "pgs \<noteq> 0" using p(1) by auto
  have w: "?w < 2 ^ 64" using unsigned_less[of "watermark a", where 'a = nat] by simp
  have o: "regions_ok lo ?w (regions a)" "0 < lo" "lo \<le> ?w" "?w \<le> ?l" "?l - lo < 2 ^ 44" using ok by (simp_all add: arena_ok_def)
  show ?thesis
  proof (cases "region_scan (regions a) pgs")
    case (Some x)
    then obtain xs q ys where q: "regions a = xs @ q # ys" "b = base q" "unat pgs \<le> unat (pages q)"
      "a' = a\<lparr>regions := xs @ (if unat (pages q) = unat pgs then ys
        else q\<lparr>base := base q + pgs * VM_PAGE, pages := pages q - ucast pgs\<rparr> # ys)\<rparr>"
      using region_scan_Some[OF p(2), of "regions a" "fst x" "snd x"] r p0 by (auto simp: arena_alloc_def split: prod.splits)
    note front = take_front[OF o(1)[unfolded q(1)] w p(1) q(3) p(2)]
    define rs1 where "rs1 = xs @ (if unat (pages q) = unat pgs then ys
        else q\<lparr>base := base q + pgs * VM_PAGE, pages := pages q - ucast pgs\<rparr> # ys)"
    have a': "a' = a\<lparr>regions := rs1\<rparr>" using q(4) by (simp only: rs1_def)
    have rs1: "regions_ok lo ?w rs1" "list_bytes rs1 = list_bytes (regions a) - block_bytes b pgs"
      using front(1,2) q(1,2) by (simp_all only: rs1_def)
    have "list_bytes (regions a) \<subseteq> {..<?w}" using o(1) by (intro bytes_before) (simp add: regions_ok_def)
    moreover have sub: "block_bytes b pgs \<subseteq> list_bytes (regions a)" using front(3) q(1,2) by auto
    ultimately have "{?w ..< ?l} \<inter> block_bytes b pgs = {}" by fastforce
    then have "free_bytes a' = free_bytes a - block_bytes b pgs" using rs1(2) by (auto simp: free_bytes_def a')
    moreover have "b \<noteq> 0" using o(1,2) q(1,2) by (auto simp: regions_ok_append regions_ok_Cons)
    moreover have "arena_ok lo a'" using rs1(1) o by (simp add: arena_ok_def a')
    ultimately show ?thesis using sub by (auto simp: free_bytes_def)
  next
    case None
    let ?n = "watermark a + pgs * VM_PAGE"
    have "?n < watermark a \<longleftrightarrow> 2 ^ 64 \<le> ?w + unat pgs * 4096"
      using word_add_wraps_iff[of "watermark a" "pgs * VM_PAGE"] unat_block(2)[OF p(2)] by simp
    moreover have "unat ?n = ?w + unat pgs * 4096" if "?w + unat pgs * 4096 < 2 ^ 64"
      using that unat_block(2)[OF p(2)] by (simp add: unat_plus_no_overflow)
    moreover have "?l < 2 ^ 64" using unsigned_less[of "limit a", where 'a = nat] by simp
    moreover have "watermark a \<noteq> 0" using o(2,3) by auto
    moreover have "list_bytes (regions a) \<subseteq> {..<?w}" using o(1) by (intro bytes_before) (simp add: regions_ok_def)
    moreover have "regions_ok lo (?w + k) (regions a)" for k using o(1) by (auto simp: regions_ok_def)
    ultimately show ?thesis
      using r None p0 o region_scan_None[OF p(2) None]
      by (auto simp: arena_alloc_def Let_def word_less_nat_alt arena_ok_def free_bytes_def block_bytes_def split: if_splits)
  qed
qed

section \<open>Release\<close>

lemma arena_free_step:
  assumes ok: "arena_ok lo a" and p: "0 < unat pgs" "unat pgs < 2 ^ 32" and len: "length (regions a) < VM_ARENA_MAX_REGIONS - 2"
    and b: "lo \<le> unat b" "unat b + unat pgs * 4096 \<le> unat (watermark a)" and disj: "block_bytes b pgs \<inter> free_bytes a = {}"
  shows "\<exists>a'. arena_free b pgs a = Some a' \<and> arena_ok lo a' \<and> free_bytes a' = free_bytes a \<union> block_bytes b pgs"
proof -
  let ?w = "unat (watermark a)" and ?rs = "regions a" and ?n = "\<lparr>base = b, pages = ucast pgs\<rparr>"
  let ?k = "lower_bound ?rs b"
  let ?ins = "take ?k ?rs @ ?n # drop ?k ?rs"
  have o: "regions_ok lo ?w ?rs" "0 < lo" "?w - lo < 2 ^ 44" using ok by (auto simp: arena_ok_def)
  have w: "?w < 2 ^ 64" using unsigned_less[of "watermark a", where 'a = nat] by simp
  have n: "range_bytes ?n = block_bytes b pgs" "r_end ?n \<le> ?w" "0 < unat (pages ?n)"
    using unat_block(1)[OF p(2)] b p(1) by (simp_all add: range_bytes_def r_end_def block_bytes_def)
  have i: "regions_ok lo ?w ?ins"
    using insert_ok[OF o(1), of ?n] b(1) n disj by (simp add: free_bytes_def Int_Un_distrib)
  have "?k < length ?ins" using lower_bound_ok(1)[OF o(1), of b] by (simp add: less_Suc_eq_le)
  note co = coalesce_around_ok[OF i w o(3) this]
  have "list_bytes ?rs = list_bytes (take ?k ?rs) \<union> list_bytes (drop ?k ?rs)"
    by (metis append_take_drop_id list_bytes_simps(3))
  then have lb: "list_bytes ?ins = list_bytes ?rs \<union> block_bytes b pgs" using n(1) by auto
  have "b \<noteq> 0" "pgs \<noteq> 0" "\<not> pgs > 0xFFFFFFFF" using b(1) o(2) p by (auto simp: word_less_nat_alt)
  then have "arena_free b pgs a = Some (a\<lparr>regions := coalesce_around ?k ?ins\<rparr>)"
    using len by (simp add: arena_free_def insert_at_def Let_def)
  then show ?thesis using co lb ok by (auto simp: arena_ok_def free_bytes_def)
qed

text \<open>
  \<^bold>\<open>C12.\<close> The arena implements a set of free addresses: an allocation of fewer than \<open>2 ^ 32\<close> pages returns a block of free
  addresses and removes exactly it from the free set, and fails only when neither a free range nor the space above the
  watermark is large enough; giving a block back that is in use adds exactly it. Sortedness, disjointness and the
  limit are kept.
\<close>

theorem arena_refines_set:
  assumes "arena_ok lo a" and "0 < unat pgs" and "unat pgs < 2 ^ 32"
  shows "(case arena_alloc pgs a of (a', b) \<Rightarrow> arena_ok lo a' \<and> (if b = 0 then a' = a
        \<and> (\<forall>r\<in>set (regions a). unat (pages r) < unat pgs) \<and> unat (limit a) < unat (watermark a) + unat pgs * 4096
      else block_bytes b pgs \<subseteq> free_bytes a \<and> free_bytes a' = free_bytes a - block_bytes b pgs))
    \<and> (\<forall>b. length (regions a) < VM_ARENA_MAX_REGIONS - 2 \<and> lo \<le> unat b \<and> unat b + unat pgs * 4096 \<le> unat (watermark a)
        \<and> block_bytes b pgs \<inter> free_bytes a = {}
      \<longrightarrow> (\<exists>a'. arena_free b pgs a = Some a' \<and> arena_ok lo a' \<and> free_bytes a' = free_bytes a \<union> block_bytes b pgs))"
  using arena_alloc_step[OF assms] arena_free_step[OF assms] by (auto split: prod.split)

text \<open>An arena of two pages, both given out; the first is given back.\<close>

definition example_arena :: vm_arena where
  "example_arena = \<lparr>regions = [], watermark = 0x3000, limit = 0x3000\<rparr>"

theorem arena_refines_set_witness:
  "\<exists>a'. arena_free 0x1000 1 example_arena = Some a' \<and> arena_ok 4096 a' \<and> free_bytes a' = {4096..<8192}"
proof -
  have ok: "arena_ok 4096 example_arena" by (simp add: arena_ok_def regions_ok_def example_arena_def)
  have one: "0 < unat (1 :: u64)" "unat (1 :: u64) < 2 ^ 32" by simp_all
  have f: "free_bytes example_arena = {}" "block_bytes 0x1000 1 = {4096..<8192}"
    by (simp_all add: free_bytes_def example_arena_def block_bytes_def)
  have "length (regions example_arena) < 512 - 2 \<and> 4096 \<le> unat (0x1000 :: u64)
      \<and> unat (0x1000 :: u64) + unat (1 :: u64) * 4096 \<le> unat (watermark example_arena)
      \<and> block_bytes 0x1000 1 \<inter> free_bytes example_arena = {}"
    using f by (simp add: example_arena_def)
  then obtain a' where "arena_free 0x1000 1 example_arena = Some a'" "arena_ok 4096 a'"
    "free_bytes a' = free_bytes example_arena \<union> block_bytes 0x1000 1"
    using conjunct2[OF arena_refines_set[OF ok one]] by blast
  then show ?thesis using f by auto
qed

end
