(* ===== verification/Spinlock.thy ===== *)
theory Spinlock
  imports Kernel_Prelude
begin

text \<open>
  The ticket spinlock of \<open>src/archs/cpu/x86_64/sync/spinlock.h\<close> under an arbitrary interleaving of processors.
  Every atomic access of \<open>spinlock_acquire\<close>, \<open>spinlock_try_acquire\<close> and \<open>spinlock_release\<close> is one step of one
  processor; the tickets are 32-bit words that wrap around. The lock pointer is not null. \<open>None\<close> is the trap that
  \<open>spinlock_acquire\<close> executes when it has spun for too long with interrupts enabled before. The counters \<open>issued\<close>,
  \<open>served\<close> and \<open>seen\<close> are not in the code: they count tickets without wrapping around and are only written.
\<close>

section \<open>State and steps\<close>

text \<open>
  Where a processor is: outside, spinning with its ticket, inside, or in \<open>spinlock_try_acquire\<close> after it has read the
  serving ticket, or both tickets. Each remembers whether interrupts were enabled.
\<close>

datatype spin_pc =
    Outside
  | Spinning u32 bool
  | Inside bool
  | Read_Serving u32 bool
  | Read_Both u32 bool

record spinlock =
  next_ticket :: u32
  serving_ticket :: u32
  pcs :: "nat \<Rightarrow> spin_pc"
  irqs :: "nat \<Rightarrow> bool"
  issued :: nat
  served :: nat
  seen :: "nat \<Rightarrow> nat"

definition spinlock_init :: "(nat \<Rightarrow> bool) \<Rightarrow> spinlock" where
  "spinlock_init irq =
     \<lparr>next_ticket = 0, serving_ticket = 0, pcs = (\<lambda>_. Outside), irqs = irq, issued = 0, served = 0, seen = (\<lambda>_. 0)\<rparr>"

text \<open>The first step of \<open>spinlock_acquire\<close>: interrupts off, fetch-and-add on the next ticket.\<close>

definition spin_draw :: "spinlock \<Rightarrow> nat \<Rightarrow> spinlock" where
  "spin_draw s c =
     s\<lparr>next_ticket := next_ticket s + 1, pcs := (pcs s)(c := Spinning (next_ticket s) (irqs s c)),
       irqs := (irqs s)(c := False), issued := Suc (issued s)\<rparr>"

text \<open>One turn of the waiting loop; \<open>late\<close> says that the deadlock limit has passed.\<close>

definition spin_turn :: "spinlock \<Rightarrow> nat \<Rightarrow> u32 \<Rightarrow> bool \<Rightarrow> bool \<Rightarrow> spinlock option" where
  "spin_turn s c my_ticket fl late =
     (if serving_ticket s = my_ticket then Some (s\<lparr>pcs := (pcs s)(c := Inside fl)\<rparr>)
      else if fl \<and> late then None
      else Some s)"

definition restore_irq :: "spinlock \<Rightarrow> nat \<Rightarrow> bool \<Rightarrow> spinlock" where
  "restore_irq s c fl = s\<lparr>irqs := (irqs s)(c := (if fl then True else irqs s c)), pcs := (pcs s)(c := Outside)\<rparr>"

text \<open>The three accesses of \<open>spinlock_try_acquire\<close>.\<close>

definition try_serving :: "spinlock \<Rightarrow> nat \<Rightarrow> spinlock" where
  "try_serving s c =
     s\<lparr>pcs := (pcs s)(c := Read_Serving (serving_ticket s) (irqs s c)), irqs := (irqs s)(c := False),
       seen := (seen s)(c := served s)\<rparr>"

definition try_next :: "spinlock \<Rightarrow> nat \<Rightarrow> u32 \<Rightarrow> bool \<Rightarrow> spinlock" where
  "try_next s c serving fl =
     (if serving = next_ticket s then s\<lparr>pcs := (pcs s)(c := Read_Both (next_ticket s) fl)\<rparr>
      else restore_irq s c fl)"

definition try_exchange :: "spinlock \<Rightarrow> nat \<Rightarrow> u32 \<Rightarrow> bool \<Rightarrow> spinlock" where
  "try_exchange s c nxt fl =
     (if next_ticket s = nxt
      then s\<lparr>next_ticket := nxt + 1, pcs := (pcs s)(c := Inside fl), issued := Suc (issued s)\<rparr>
      else restore_irq s c fl)"

definition spinlock_release :: "spinlock \<Rightarrow> nat \<Rightarrow> bool \<Rightarrow> spinlock" where
  "spinlock_release s c fl = restore_irq (s\<lparr>serving_ticket := serving_ticket s + 1, served := Suc (served s)\<rparr>) c fl"

text \<open>A step of processor \<open>c\<close>. From outside it may start either operation.\<close>

inductive spin_step :: "spinlock \<Rightarrow> nat \<Rightarrow> spinlock \<Rightarrow> bool" where
  draw: "pcs s c = Outside \<Longrightarrow> spin_step s c (spin_draw s c)"
| turn: "pcs s c = Spinning t fl \<Longrightarrow> spin_turn s c t fl late = Some s' \<Longrightarrow> spin_step s c s'"
| try1: "pcs s c = Outside \<Longrightarrow> spin_step s c (try_serving s c)"
| try2: "pcs s c = Read_Serving v fl \<Longrightarrow> spin_step s c (try_next s c v fl)"
| try3: "pcs s c = Read_Both v fl \<Longrightarrow> spin_step s c (try_exchange s c v fl)"
| release: "pcs s c = Inside fl \<Longrightarrow> spin_step s c (spinlock_release s c fl)"

inductive_cases spin_stepE: "spin_step s c s'"

text \<open>While one \<open>spinlock_try_acquire\<close> runs, fewer than \<open>2\<^sup>3\<^sup>2\<close> tickets are drawn.\<close>

definition trying :: "spin_pc \<Rightarrow> bool" where
  "trying p = (case p of Read_Serving _ _ \<Rightarrow> True | Read_Both _ _ \<Rightarrow> True | _ \<Rightarrow> False)"

definition window :: "spinlock \<Rightarrow> bool" where
  "window s \<longleftrightarrow> (\<forall>c. trying (pcs s c) \<longrightarrow> issued s < seen s c + 2 ^ 32)"

inductive spin_reach :: "nat \<Rightarrow> spinlock \<Rightarrow> bool" for n :: nat where
  start: "spin_reach n (spinlock_init irq)"
| move: "spin_reach n s \<Longrightarrow> c < n \<Longrightarrow> spin_step s c s' \<Longrightarrow> window s' \<Longrightarrow> spin_reach n s'"

section \<open>The invariant\<close>

text \<open>
  The processors between drawing a ticket and giving it back form a queue \<open>qs\<close>: the \<open>i\<close>-th holds the ticket \<open>i\<close> places
  after the one being served, and only the first may be inside.
\<close>

definition in_queue :: "spinlock \<Rightarrow> nat \<Rightarrow> nat \<Rightarrow> bool" where
  "in_queue s i c \<longleftrightarrow> (\<exists>fl. pcs s c = Spinning (of_nat (served s + i)) fl) \<or> i = 0 \<and> (\<exists>fl. pcs s c = Inside fl)"

definition queued :: "spin_pc \<Rightarrow> bool" where
  "queued p = (case p of Spinning _ _ \<Rightarrow> True | Inside _ \<Rightarrow> True | _ \<Rightarrow> False)"

definition spin_inv :: "nat \<Rightarrow> spinlock \<Rightarrow> nat list \<Rightarrow> bool" where
  "spin_inv n s qs \<longleftrightarrow>
     distinct qs \<and> set qs \<subseteq> {..<n} \<and> issued s = served s + length qs
     \<and> next_ticket s = of_nat (issued s) \<and> serving_ticket s = of_nat (served s)
     \<and> (\<forall>i < length qs. in_queue s i (qs ! i)) \<and> (\<forall>c. queued (pcs s c) \<longrightarrow> c \<in> set qs)
     \<and> (\<forall>c. trying (pcs s c) \<longrightarrow> seen s c \<le> served s \<and> issued s < seen s c + 2 ^ 32)
     \<and> (\<forall>c v fl. pcs s c = Read_Serving v fl \<or> pcs s c = Read_Both v fl \<longrightarrow> v = of_nat (seen s c))
     \<and> (\<forall>c. pcs s c \<noteq> Outside \<longrightarrow> \<not> irqs s c)"

lemmas spin_defs = spin_draw_def spin_turn_def restore_irq_def try_serving_def try_next_def try_exchange_def spinlock_release_def

lemma of_nat_eq_window: "(of_nat a :: u32) = of_nat b \<Longrightarrow> a \<le> b \<Longrightarrow> b < a + 2 ^ 32 \<Longrightarrow> a = b"
proof -
  assume "(of_nat a :: u32) = of_nat b" and w: "a \<le> b" "b < a + 2 ^ 32"
  then have "unat (of_nat a :: u32) = unat (of_nat b :: u32)" by simp
  then have "a mod 2 ^ 32 = b mod 2 ^ 32" by (simp add: unat_of_nat)
  then have "(b - a) mod 2 ^ 32 = 0" using w(1) by (metis mod_eq_dvd_iff_nat dvd_imp_mod_0)
  then show "a = b" using w by simp
qed

lemma spin_invD:
  assumes "spin_inv n s qs"
  shows "distinct qs" "set qs \<subseteq> {..<n}" "issued s = served s + length qs" "next_ticket s = of_nat (issued s)"
    "serving_ticket s = of_nat (served s)" "\<And>i. i < length qs \<Longrightarrow> in_queue s i (qs ! i)"
    "\<And>c. queued (pcs s c) \<Longrightarrow> c \<in> set qs" "\<And>c. trying (pcs s c) \<Longrightarrow> seen s c \<le> served s \<and> issued s < seen s c + 2 ^ 32"
    "\<And>c v fl. pcs s c = Read_Serving v fl \<Longrightarrow> v = of_nat (seen s c)" "\<And>c v fl. pcs s c = Read_Both v fl \<Longrightarrow> v = of_nat (seen s c)"
    "\<And>c. pcs s c \<noteq> Outside \<Longrightarrow> \<not> irqs s c"
  using assms unfolding spin_inv_def by blast+

lemma in_queue_queued: "in_queue s i c \<Longrightarrow> queued (pcs s c)"
  by (auto simp: in_queue_def queued_def)

lemma not_queued: "spin_inv n s qs \<Longrightarrow> \<not> queued (pcs s c) \<Longrightarrow> c \<notin> set qs"
  by (metis spin_invD(6) in_queue_queued in_set_conv_nth)

text \<open>A processor that does not change the queue.\<close>

lemma spin_inv_local:
  assumes inv: "spin_inv n s qs" and c: "\<not> queued (pcs s c)" and p: "\<not> queued p"
    and t: "next_ticket t = next_ticket s" "serving_ticket t = serving_ticket s" "issued t = issued s" "served t = served s"
      "pcs t = (pcs s)(c := p)" "irqs t = (irqs s)(c := b)" "\<And>d. d \<noteq> c \<Longrightarrow> seen t d = seen s d"
    and tr: "trying p \<Longrightarrow> seen t c \<le> served s \<and> issued s < seen t c + 2 ^ 32"
    and v: "\<And>v fl. p = Read_Serving v fl \<or> p = Read_Both v fl \<Longrightarrow> v = of_nat (seen t c)" and o: "p \<noteq> Outside \<Longrightarrow> \<not> b"
  shows "spin_inv n t qs"
proof -
  note D = spin_invD[OF inv]
  have nc: "c \<notin> set qs" using not_queued[OF inv c] .
  have "in_queue t i (qs ! i)" if "i < length qs" for i
  proof -
    have "qs ! i \<noteq> c" using nc that by auto
    then show ?thesis using D(6)[OF that] by (simp add: in_queue_def t)
  qed
  moreover have "d \<in> set qs" if "queued (pcs t d)" for d using D(7)[of d] that p by (cases "d = c") (simp_all add: t)
  moreover have "seen t d \<le> served t \<and> issued t < seen t d + 2 ^ 32" if "trying (pcs t d)" for d
    using D(8)[of d] that tr by (cases "d = c") (simp_all add: t)
  moreover have "w = of_nat (seen t d)" if "pcs t d = Read_Serving w fl \<or> pcs t d = Read_Both w fl" for d w fl
    using D(9,10)[of d w fl] that v[of w fl] by (cases "d = c") (auto simp: t)
  moreover have "\<not> irqs t d" if "pcs t d \<noteq> Outside" for d using D(11)[of d] that o by (cases "d = c") (simp_all add: t)
  ultimately show ?thesis unfolding spin_inv_def using D(1-5) by (simp add: t)
qed

text \<open>A processor joins at the end of the queue: with a ticket, or inside when the queue is empty.\<close>

lemma spin_inv_join:
  assumes inv: "spin_inv n s qs" and c: "\<not> queued (pcs s c)" "c < n"
    and p: "(\<exists>fl. p = Spinning (next_ticket s) fl) \<or> qs = [] \<and> (\<exists>fl. p = Inside fl)"
    and t: "next_ticket t = next_ticket s + 1" "serving_ticket t = serving_ticket s" "issued t = Suc (issued s)" "served t = served s"
      "pcs t = (pcs s)(c := p)" "irqs t = (irqs s)(c := False)" "seen t = seen s"
    and w: "window t"
  shows "spin_inv n t (qs @ [c])"
proof -
  note D = spin_invD[OF inv]
  have nc: "c \<notin> set qs" using not_queued[OF inv c(1)] .
  have ntr: "\<not> trying p" "queued p" "\<not> (\<exists>v fl. p = Read_Serving v fl \<or> p = Read_Both v fl)" using p by (auto simp: trying_def queued_def)
  have "in_queue t i ((qs @ [c]) ! i)" if "i < length (qs @ [c])" for i
  proof (cases "i < length qs")
    case True
    have "qs ! i \<noteq> c" using nc True by auto
    then show ?thesis using D(6)[OF True] True by (simp add: in_queue_def t nth_append)
  next
    case False
    then have "i = length qs" using that by simp
    then show ?thesis using p D(3,4) by (auto simp: in_queue_def t nth_append)
  qed
  moreover have "d \<in> set (qs @ [c])" if "queued (pcs t d)" for d using D(7)[of d] that by (cases "d = c") (simp_all add: t)
  moreover have "seen t d \<le> served t \<and> issued t < seen t d + 2 ^ 32" if "trying (pcs t d)" for d
    using D(8)[of d] that ntr(1) w by (cases "d = c") (simp_all add: t window_def)
  moreover have "v = of_nat (seen t d)" if "pcs t d = Read_Serving v fl \<or> pcs t d = Read_Both v fl" for d v fl
    using D(9,10)[of d v fl] that ntr(3) by (cases "d = c") (auto simp: t)
  moreover have "\<not> irqs t d" if "pcs t d \<noteq> Outside" for d using D(11)[of d] that by (cases "d = c") (simp_all add: t)
  moreover have "distinct (qs @ [c])" "set (qs @ [c]) \<subseteq> {..<n}" using D(1,2) nc c(2) by auto
  ultimately show ?thesis unfolding spin_inv_def using D(3-5) by (simp add: t)
qed

lemma inside_first:
  assumes inv: "spin_inv n s qs" and "pcs s c = Inside fl"
  shows "\<exists>r. qs = c # r"
proof -
  have "c \<in> set qs" using spin_invD(7)[OF inv, of c] assms(2) by (simp add: queued_def)
  then obtain i where i: "i < length qs" "qs ! i = c" by (auto simp: in_set_conv_nth)
  then have "i = 0" using spin_invD(6)[OF inv i(1)] assms(2) by (auto simp: in_queue_def)
  then show ?thesis using i by (cases qs) auto
qed

text \<open>The first processor leaves.\<close>

lemma spin_inv_leave:
  assumes inv: "spin_inv n s (c # r)" and i: "pcs s c = Inside fl"
  shows "spin_inv n (spinlock_release s c fl) r"
proof -
  note D = spin_invD[OF inv]
  let ?t = "spinlock_release s c fl"
  have t: "next_ticket ?t = next_ticket s" "serving_ticket ?t = serving_ticket s + 1" "issued ?t = issued s" "served ?t = Suc (served s)"
    "pcs ?t = (pcs s)(c := Outside)" "seen ?t = seen s" "\<And>d. d \<noteq> c \<Longrightarrow> irqs ?t d = irqs s d"
    by (simp_all add: spin_defs)
  have "in_queue ?t j (r ! j)" if j: "j < length r" for j
  proof -
    have "in_queue s (Suc j) (r ! j)" using D(6)[of "Suc j"] j by simp
    moreover have "r ! j \<noteq> c" using D(1) j by auto
    ultimately show ?thesis by (auto simp: in_queue_def t add.commute)
  qed
  moreover have "d \<in> set r" if "queued (pcs ?t d)" for d
    using D(7)[of d] that by (cases "d = c") (auto simp: t queued_def)
  moreover have "seen ?t d \<le> served ?t \<and> issued ?t < seen ?t d + 2 ^ 32" if "trying (pcs ?t d)" for d
    using D(8)[of d] that by (cases "d = c") (auto simp: t trying_def)
  moreover have "v = of_nat (seen ?t d)" if "pcs ?t d = Read_Serving v gl \<or> pcs ?t d = Read_Both v gl" for d v gl
    using D(9,10)[of d v gl] that by (cases "d = c") (auto simp: t)
  moreover have "\<not> irqs ?t d" if "pcs ?t d \<noteq> Outside" for d using D(11)[of d] that by (cases "d = c") (simp_all add: t)
  ultimately show ?thesis unfolding spin_inv_def using D(1-5) by (simp add: t)
qed

lemma queue_bound: "spin_inv n s qs \<Longrightarrow> length qs \<le> n"
  using spin_invD(1,2)[of n s qs] by (metis card_lessThan card_mono distinct_card finite_lessThan)

lemma spinning_place:
  assumes inv: "spin_inv n s qs" and nw: "n < 2 ^ 32" and sp: "pcs s c = Spinning (serving_ticket s) fl"
  shows "\<exists>r. qs = c # r"
proof -
  have "c \<in> set qs" using spin_invD(7)[OF inv, of c] sp by (simp add: queued_def)
  then obtain i where i: "i < length qs" "qs ! i = c" by (auto simp: in_set_conv_nth)
  then have "(of_nat (served s) :: u32) = of_nat (served s + i)"
    using spin_invD(6)[OF inv i(1)] sp spin_invD(5)[OF inv] by (auto simp: in_queue_def)
  moreover have "i < 2 ^ 32" using i(1) queue_bound[OF inv] nw by linarith
  ultimately have "served s = served s + i" using of_nat_eq_window[of "served s" "served s + i"] by simp
  then show ?thesis using i by (cases qs) auto
qed

lemma spin_inv_enter:
  assumes inv: "spin_inv n s (c # r)" and sp: "pcs s c = Spinning t fl"
  shows "spin_inv n (s\<lparr>pcs := (pcs s)(c := Inside fl)\<rparr>) (c # r)"
proof -
  note D = spin_invD[OF inv]
  let ?t = "s\<lparr>pcs := (pcs s)(c := Inside fl)\<rparr>"
  have "in_queue ?t j ((c # r) ! j)" if "j < length (c # r)" for j
  proof (cases j)
    case (Suc k)
    then have "(c # r) ! j \<noteq> c" using D(1) that by auto
    then show ?thesis using D(6)[OF that] by (simp add: in_queue_def)
  qed (simp add: in_queue_def)
  moreover have "d \<in> set (c # r)" if "queued (pcs ?t d)" for d using D(7)[of d] that by (cases "d = c") simp_all
  moreover have "seen ?t d \<le> served ?t \<and> issued ?t < seen ?t d + 2 ^ 32" if "trying (pcs ?t d)" for d
    using D(8)[of d] that by (cases "d = c") (simp_all add: trying_def)
  moreover have "v = of_nat (seen ?t d)" if "pcs ?t d = Read_Serving v gl \<or> pcs ?t d = Read_Both v gl" for d v gl
    using D(9,10)[of d v gl] that by (cases "d = c") auto
  moreover have "\<not> irqs ?t d" if "pcs ?t d \<noteq> Outside" for d using D(11)[of d] D(11)[of c] that sp by (cases "d = c") simp_all
  ultimately show ?thesis unfolding spin_inv_def using D(1-5) by simp
qed

text \<open>The lock is free when the exchange of \<open>spinlock_try_acquire\<close> succeeds.\<close>

lemma exchange_free:
  assumes inv: "spin_inv n s qs" and p: "pcs s c = Read_Both v fl" "next_ticket s = v"
  shows "qs = []"
proof -
  have "(of_nat (seen s c) :: u32) = of_nat (issued s)" using spin_invD(4,10)[OF inv] p by simp
  moreover have "seen s c \<le> served s" "issued s < seen s c + 2 ^ 32" using spin_invD(8)[OF inv, of c] p by (simp_all add: trying_def)
  ultimately show ?thesis using of_nat_eq_window[of "seen s c" "issued s"] spin_invD(3)[OF inv] by simp
qed

lemma spin_step_inv:
  assumes inv: "spin_inv n s qs" and nw: "n < 2 ^ 32" and st: "spin_step s c s'" and c: "c < n" and w: "window s'"
  shows "\<exists>qs'. spin_inv n s' qs'"
  using st
proof (rule spin_stepE)
  assume s': "s' = spin_draw s c" and p: "pcs s c = Outside"
  have "spin_inv n s' (qs @ [c])"
    by (rule spin_inv_join[OF inv]) (use p c w in \<open>simp_all add: s' spin_defs queued_def\<close>)
  then show ?thesis by blast
next
  fix t fl late assume p: "pcs s c = Spinning t fl" and s': "spin_turn s c t fl late = Some s'"
  show ?thesis
  proof (cases "serving_ticket s = t")
    case True
    then obtain r where "qs = c # r" using spinning_place[OF inv nw, of c fl] p by auto
    then show ?thesis using spin_inv_enter[of n s c r t fl] inv p s' True by (auto simp: spin_turn_def)
  next
    case False
    then have "s' = s" using s' by (auto simp: spin_turn_def split: if_splits)
    then show ?thesis using inv by blast
  qed
next
  assume s': "s' = try_serving s c" and p: "pcs s c = Outside"
  have "issued s < served s + 2 ^ 32" using queue_bound[OF inv] nw spin_invD(3)[OF inv] by linarith
  then have "spin_inv n s' qs"
    by (intro spin_inv_local[OF inv, of c "Read_Serving (serving_ticket s) (irqs s c)" _ False])
      (use p spin_invD(5)[OF inv] in \<open>simp_all add: s' spin_defs queued_def trying_def\<close>)
  then show ?thesis by blast
next
  fix v fl assume s': "s' = try_next s c v fl" and p: "pcs s c = Read_Serving v fl"
  have tr: "seen s c \<le> served s \<and> issued s < seen s c + 2 ^ 32" "v = of_nat (seen s c)" "\<not> irqs s c"
    using spin_invD(8)[OF inv, of c] spin_invD(9)[OF inv p] spin_invD(11)[OF inv, of c] p by (simp_all add: trying_def)
  have "spin_inv n s' qs"
  proof (cases "v = next_ticket s")
    case True
    then show ?thesis by (intro spin_inv_local[OF inv, of c "Read_Both v fl" _ False])
      (use p tr in \<open>auto simp: s' spin_defs queued_def trying_def fun_upd_idem\<close>)
  next
    case False
    then show ?thesis by (intro spin_inv_local[OF inv, of c Outside _ "if fl then True else irqs s c"])
      (use p in \<open>auto simp: s' spin_defs queued_def trying_def\<close>)
  qed
  then show ?thesis by blast
next
  fix v fl assume s': "s' = try_exchange s c v fl" and p: "pcs s c = Read_Both v fl"
  have irq: "\<not> irqs s c" using spin_invD(11)[OF inv, of c] p by simp
  show ?thesis
  proof (cases "next_ticket s = v")
    case True
    have "spin_inv n s' (qs @ [c])"
      by (rule spin_inv_join[OF inv, of c "Inside fl"])
        (use p c w True irq exchange_free[OF inv p True] in \<open>simp_all add: s' spin_defs queued_def fun_upd_idem\<close>)
    then show ?thesis by blast
  next
    case False
    then have "spin_inv n s' qs" by (intro spin_inv_local[OF inv, of c Outside _ "if fl then True else irqs s c"])
      (use p in \<open>auto simp: s' spin_defs queued_def trying_def\<close>)
    then show ?thesis by blast
  qed
next
  fix fl assume s': "s' = spinlock_release s c fl" and p: "pcs s c = Inside fl"
  obtain r where "qs = c # r" using inside_first[OF inv p] by blast
  then show ?thesis using spin_inv_leave[of n s c r fl] inv p s' by blast
qed

lemma spin_reach_inv: "spin_reach n s \<Longrightarrow> n < 2 ^ 32 \<Longrightarrow> \<exists>qs. spin_inv n s qs"
proof (induction rule: spin_reach.induct)
  case (start irq)
  have "spin_inv n (spinlock_init irq) []" by (simp add: spin_inv_def spinlock_init_def queued_def trying_def)
  then show ?case by blast
next
  case (move s c s')
  then show ?case using spin_step_inv by blast
qed

section \<open>Properties\<close>

text \<open>
  \<^bold>\<open>C3.\<close> Under every interleaving of fewer than \<open>2\<^sup>3\<^sup>2\<close> processors, with tickets that wrap around, at most one
  processor is inside the ticket spinlock, with its interrupts disabled; and while any processor waits, there is one
  that is inside or whose next look at the lock lets it in, so the lock is never lost.
\<close>

theorem spinlock_exclusive:
  assumes "spin_reach n s" and "n < 2 ^ 32"
  shows "(\<forall>c d fl gl. pcs s c = Inside fl \<and> pcs s d = Inside gl \<longrightarrow> c = d) \<and> (\<forall>c fl. pcs s c = Inside fl \<longrightarrow> \<not> irqs s c)
    \<and> ((\<exists>c t fl. pcs s c = Spinning t fl) \<longrightarrow>
        (\<exists>c fl. pcs s c = Inside fl \<or>
          (\<exists>t s'. pcs s c = Spinning t fl \<and> spin_turn s c t fl False = Some s' \<and> pcs s' c = Inside fl)))"
proof -
  obtain qs where inv: "spin_inv n s qs" using spin_reach_inv[OF assms] by blast
  note D = spin_invD[OF inv]
  have "c = d" if "pcs s c = Inside fl" "pcs s d = Inside gl" for c d fl gl
    using inside_first[OF inv that(1)] inside_first[OF inv that(2)] by auto
  moreover have "\<exists>c fl. pcs s c = Inside fl \<or>
      (\<exists>t s'. pcs s c = Spinning t fl \<and> spin_turn s c t fl False = Some s' \<and> pcs s' c = Inside fl)" if "pcs s c = Spinning t fl" for c t fl
  proof -
    have "qs \<noteq> []" using D(7)[of c] that by (auto simp: queued_def)
    then have "in_queue s 0 (hd qs)" using D(6)[of 0] by (simp add: hd_conv_nth)
    then consider gl where "pcs s (hd qs) = Inside gl" | gl where "pcs s (hd qs) = Spinning (serving_ticket s) gl"
      using D(5) by (auto simp: in_queue_def)
    then show ?thesis
    proof cases
      case (2 gl)
      then show ?thesis
        by (intro exI[of _ "hd qs"] exI[of _ gl] disjI2 exI[of _ "serving_ticket s"]
            exI[of _ "s\<lparr>pcs := (pcs s)(hd qs := Inside gl)\<rparr>"]) (simp add: spin_turn_def)
    qed blast
  qed
  ultimately show ?thesis using D(11) by (metis spin_pc.distinct(3))
qed

theorem spinlock_exclusive_witness:
  "\<exists>s. spin_reach 2 s \<and> pcs s 0 = Inside True \<and> pcs s 1 = Spinning 1 True \<and> (\<forall>c d fl gl. pcs s c = Inside fl \<and> pcs s d = Inside gl \<longrightarrow> c = d)"
proof -
  let ?p = "(\<lambda>_. Outside)(0 := Spinning 0 True)" let ?i = "(\<lambda>_. True)(0 := False)"
  define s0 where "s0 = spinlock_init (\<lambda>_. True)"
  define s1 where "s1 = s0\<lparr>next_ticket := 1, pcs := ?p, irqs := ?i, issued := 1\<rparr>"
  define s2 where "s2 = s0\<lparr>next_ticket := 2, pcs := ?p(1 := Spinning 1 True), irqs := ?i(1 := False), issued := 2\<rparr>"
  define s3 where "s3 = s2\<lparr>pcs := (pcs s2)(0 := Inside True)\<rparr>"
  have f0: "pcs s0 = (\<lambda>_. Outside)" "next_ticket s0 = 0" "serving_ticket s0 = 0" "irqs s0 = (\<lambda>_. True)" "issued s0 = 0"
    by (simp_all add: s0_def spinlock_init_def)
  have w: "window s1" "window s2" "window s3" by (simp_all add: window_def s1_def s2_def s3_def trying_def)
  have "spin_step s0 0 s1" using draw[of s0 0] by (simp add: f0 spin_draw_def s1_def)
  then have r1: "spin_reach 2 s1" using move[OF start _ _ w(1), where c = 0] unfolding s0_def by simp
  have "spin_step s1 1 s2" using draw[of s1 1] by (simp add: f0 spin_draw_def s1_def s2_def numeral_2_eq_2)
  then have r2: "spin_reach 2 s2" using move[OF r1 _ _ w(2), where c = 1] by simp
  have "spin_turn s2 0 0 True False = Some s3" by (simp add: spin_turn_def s2_def s3_def f0)
  then have "spin_step s2 0 s3" by (intro turn[of s2 0 0 True]) (simp_all add: s2_def)
  then have r: "spin_reach 2 s3" using move[OF r2 _ _ w(3), where c = 0] by simp
  have p: "pcs s3 0 = Inside True" "pcs s3 1 = Spinning 1 True" by (simp_all add: s2_def s3_def)
  have "\<forall>c d fl gl. pcs s3 c = Inside fl \<and> pcs s3 d = Inside gl \<longrightarrow> c = d" using spinlock_exclusive[OF r] by simp
  then show ?thesis using r p by blast
qed

end
