(* ===== verification/Sleep_Lock.thy ===== *)
theory Sleep_Lock
  imports Wait_Queue
begin

text \<open>
  The sleeping locks of \<open>src/system/sync/mutex.cpp\<close>: mutexes and counting semaphores. Each operation runs under the
  lock's spinlock and is one atomic step. A waiting operation is one turn of its loop: it acquires the lock, or the
  thread is appended to the wait queue and blocked until a release wakes it for its next turn.
\<close>

section \<open>Mutexes\<close>

record native_mutex =
  locked :: int
  m_wait_q :: "tid list"

definition mutex_create :: "bool \<Rightarrow> native_mutex option" where
  "mutex_create mem = (if mem then Some \<lparr>locked = 0, m_wait_q = []\<rparr> else None)"

definition mutex_lock :: "native_mutex \<Rightarrow> tid \<Rightarrow> native_mutex \<times> bool" where
  "mutex_lock m proc =
     (if locked m = 0 then (m\<lparr>locked := 1\<rparr>, True) else (m\<lparr>m_wait_q := wq_push (m_wait_q m) proc\<rparr>, False))"

text \<open>The second component is the thread that \<open>sched_wake_task\<close> is called with.\<close>

definition mutex_unlock :: "(tid \<Rightarrow> bool) \<Rightarrow> native_mutex \<Rightarrow> native_mutex \<times> tid option" where
  "mutex_unlock dead m =
     (let (nxt, _, q) = wq_pop dead (m_wait_q m) in (m\<lparr>locked := 0, m_wait_q := q\<rparr>, nxt))"

section \<open>Semaphores\<close>

record native_semaphore =
  sem_count :: int
  s_wait_q :: "tid list"

definition sem_create :: "bool \<Rightarrow> int \<Rightarrow> native_semaphore option" where
  "sem_create mem initial = (if mem then Some \<lparr>sem_count = initial, s_wait_q = []\<rparr> else None)"

definition sem_wait :: "native_semaphore \<Rightarrow> tid \<Rightarrow> native_semaphore \<times> bool" where
  "sem_wait s proc =
     (if sem_count s > 0 then (s\<lparr>sem_count := sem_count s - 1\<rparr>, True) else (s\<lparr>s_wait_q := wq_push (s_wait_q s) proc\<rparr>, False))"

text \<open>\<open>None\<close> is the overflow of the signed counter.\<close>

definition sem_signal :: "(tid \<Rightarrow> bool) \<Rightarrow> native_semaphore \<Rightarrow> (native_semaphore \<times> tid option) option" where
  "sem_signal dead s =
     (if sem_count s = 2 ^ 31 - 1 then None
      else let (nxt, _, q) = wq_pop dead (s_wait_q s) in Some (s\<lparr>sem_count := sem_count s + 1, s_wait_q := q\<rparr>, nxt))"

section \<open>Threads that use a lock\<close>

text \<open>
  The threads around one lock: a thread is free, blocked in the queue, woken and about to take its next turn, holding,
  or terminated. Only a holder releases. A thread may be terminated while it is free or blocked.
\<close>

datatype thread_pc = Free | Blocked | Woken | Holding | Gone

record 'l lock_sys =
  lk :: 'l
  thr :: "tid \<Rightarrow> thread_pc"

definition wake_thread :: "(tid \<Rightarrow> thread_pc) \<Rightarrow> tid option \<Rightarrow> tid \<Rightarrow> thread_pc" where
  "wake_thread p r = (case r of None \<Rightarrow> p | Some u \<Rightarrow> p(u := Woken))"

inductive lock_step ::
  "('l \<Rightarrow> tid \<Rightarrow> 'l \<times> bool) \<Rightarrow> ((tid \<Rightarrow> bool) \<Rightarrow> 'l \<Rightarrow> ('l \<times> tid option) option) \<Rightarrow> 'l lock_sys \<Rightarrow> 'l lock_sys \<Rightarrow> bool"
  for acquire release where
  turn: "thr s t = Free \<or> thr s t = Woken \<Longrightarrow> acquire (lk s) t = (l', ok) \<Longrightarrow>
    lock_step acquire release s \<lparr>lk = l', thr = (thr s)(t := if ok then Holding else Blocked)\<rparr>"
| give: "thr s t = Holding \<Longrightarrow> release (\<lambda>u. thr s u = Gone) (lk s) = Some (l', r) \<Longrightarrow>
    lock_step acquire release s \<lparr>lk = l', thr = wake_thread ((thr s)(t := Free)) r\<rparr>"
| kill: "thr s t = Free \<or> thr s t = Blocked \<Longrightarrow> lock_step acquire release s (s\<lparr>thr := (thr s)(t := Gone)\<rparr>)"

inductive_cases lock_stepE: "lock_step acquire release s s'"

definition lock_start :: "'l \<Rightarrow> 'l lock_sys" where
  "lock_start l = \<lparr>lk = l, thr = (\<lambda>_. Free)\<rparr>"

definition threads_at :: "(tid \<Rightarrow> 'p) \<Rightarrow> 'p \<Rightarrow> nat" where
  "threads_at p x = card {t. p t = x}"

lemma threads_at_upd:
  assumes "finite {t. p t \<noteq> b}" and "y \<noteq> b"
  shows "threads_at (p(t := x)) y + (if p t = y then 1 else 0) = threads_at p y + (if x = y then 1 else 0)"
proof -
  have fin: "finite {u. p u = y}" by (rule finite_subset[OF _ assms(1)]) (use assms(2) in auto)
  show ?thesis
  proof (cases "x = y")
    case True
    then have "{u. (p(t := x)) u = y} = insert t {u. p u = y}" by auto
    then show ?thesis using True fin by (simp add: threads_at_def card_insert_if)
  next
    case False
    then have "{u. (p(t := x)) u = y} = {u. p u = y} - {t}" by auto
    then have "threads_at (p(t := x)) y = card ({u. p u = y} - {t})" by (simp add: threads_at_def)
    moreover have "card ({u. p u = y} - {t}) + (if p t = y then 1 else 0) = card {u. p u = y}"
    proof (cases "p t = y")
      case True
      then show ?thesis using card_Suc_Diff1[OF fin, of t] by simp
    qed simp
    ultimately show ?thesis using False by (simp add: threads_at_def)
  qed
qed

lemma finite_threads_upd: "finite {t. p t \<noteq> b} \<Longrightarrow> finite {u. (p(t := x)) u \<noteq> b}"
  by (rule finite_subset[of _ "insert t {t. p t \<noteq> b}"]) auto

section \<open>The contract of a sleeping lock\<close>

text \<open>
  A lock with \<open>total\<close> permits: a turn takes a permit if there is one and queues the thread otherwise; a release gives
  one back and pops the first live thread.
\<close>

locale sleep_lock =
  fixes acquire :: "'l \<Rightarrow> tid \<Rightarrow> 'l \<times> bool"
    and release :: "(tid \<Rightarrow> bool) \<Rightarrow> 'l \<Rightarrow> ('l \<times> tid option) option"
    and permits :: "'l \<Rightarrow> int"
    and waiters :: "'l \<Rightarrow> tid list"
    and total :: int
  assumes acquire_free: "0 < permits l \<Longrightarrow> acquire l t = (l', ok) \<Longrightarrow> ok \<and> permits l' = permits l - 1 \<and> waiters l' = waiters l"
    and acquire_busy: "permits l = 0 \<Longrightarrow> acquire l t = (l', ok) \<Longrightarrow> \<not> ok \<and> permits l' = 0 \<and> waiters l' = waiters l @ [t]"
    and release_one: "0 \<le> permits l \<Longrightarrow> permits l < total \<Longrightarrow> release dead l = Some (l', r) \<Longrightarrow>
      permits l' = permits l + 1 \<and> (\<exists>k. wq_pop dead (waiters l) = (r, k, waiters l'))"
    and release_total: "0 \<le> permits l \<Longrightarrow> permits l < total \<Longrightarrow> release dead l \<noteq> None"
    and total_pos: "0 < total"
begin

text \<open>
  Permits and holders add up; the queue holds the blocked threads and perhaps terminated ones; and if a thread is
  blocked, every free permit has a woken thread on its way to it.
\<close>

definition lock_inv :: "'l lock_sys \<Rightarrow> bool" where
  "lock_inv s \<longleftrightarrow> finite {t. thr s t \<noteq> Free} \<and> 0 \<le> permits (lk s)
     \<and> permits (lk s) + int (threads_at (thr s) Holding) = total
     \<and> distinct (waiters (lk s)) \<and> (\<forall>t. thr s t = Blocked \<longrightarrow> t \<in> set (waiters (lk s)))
     \<and> (\<forall>t \<in> set (waiters (lk s)). thr s t = Blocked \<or> thr s t = Gone)
     \<and> ((\<exists>t. thr s t = Blocked) \<longrightarrow> permits (lk s) \<le> int (threads_at (thr s) Woken))"

lemma lock_invD:
  assumes "lock_inv s"
  shows "finite {t. thr s t \<noteq> Free}" "0 \<le> permits (lk s)" "permits (lk s) + int (threads_at (thr s) Holding) = total"
    "distinct (waiters (lk s))" "\<And>t. thr s t = Blocked \<Longrightarrow> t \<in> set (waiters (lk s))"
    "\<And>t. t \<in> set (waiters (lk s)) \<Longrightarrow> thr s t = Blocked \<or> thr s t = Gone"
    "\<And>t. thr s t = Blocked \<Longrightarrow> permits (lk s) \<le> int (threads_at (thr s) Woken)"
  using assms unfolding lock_inv_def by blast+

lemma lock_invI:
  assumes "finite {t. p t \<noteq> Free}" "0 \<le> permits l" "permits l + int (threads_at p Holding) = total" "distinct (waiters l)"
    "\<And>t. p t = Blocked \<Longrightarrow> t \<in> set (waiters l)" "\<And>t. t \<in> set (waiters l) \<Longrightarrow> p t = Blocked \<or> p t = Gone"
    "\<And>t. p t = Blocked \<Longrightarrow> permits l \<le> int (threads_at p Woken)"
  shows "lock_inv \<lparr>lk = l, thr = p\<rparr>"
  unfolding lock_inv_def lock_sys.simps using assms by blast

lemma turn_inv:
  assumes inv: "lock_inv s" and p: "thr s t = Free \<or> thr s t = Woken" and a: "acquire (lk s) t = (l', ok)"
  shows "lock_inv \<lparr>lk = l', thr = (thr s)(t := if ok then Holding else Blocked)\<rparr>"
proof (cases "0 < permits (lk s)")
  case True
  note D = lock_invD[OF inv]
  have e: "ok" "permits l' = permits (lk s) - 1" "waiters l' = waiters (lk s)" using acquire_free[OF True a] by simp_all
  let ?p = "(thr s)(t := Holding)"
  have h: "threads_at ?p Holding = threads_at (thr s) Holding + 1" using threads_at_upd[OF D(1), of Holding t Holding] p by auto
  have w: "threads_at ?p Woken + 1 \<ge> threads_at (thr s) Woken" using threads_at_upd[OF D(1), of Woken t Holding] by (auto split: if_splits)
  have q: "u \<noteq> t" if "u \<in> set (waiters (lk s))" for u using D(6)[OF that] p by auto
  have "permits (lk s) - 1 \<le> int (threads_at ?p Woken)" if "?p u = Blocked" for u
    using D(7)[of u] that w by (auto split: if_splits)
  moreover have "u \<in> set (waiters (lk s))" if "?p u = Blocked" for u using D(5)[of u] that by (auto split: if_splits)
  moreover have "?p u = Blocked \<or> ?p u = Gone" if "u \<in> set (waiters (lk s))" for u using D(6)[OF that] q[OF that] by simp
  ultimately have "lock_inv \<lparr>lk = l', thr = ?p\<rparr>"
    by (intro lock_invI finite_threads_upd[OF D(1)]) (use D(2-4) e h True in auto)
  then show ?thesis using e(1) by simp
next
  case False
  note D = lock_invD[OF inv]
  have z: "permits (lk s) = 0" using False D(2) by simp
  have e: "\<not> ok" "permits l' = 0" "waiters l' = waiters (lk s) @ [t]" using acquire_busy[OF z a] by simp_all
  let ?p = "(thr s)(t := Blocked)"
  have h: "threads_at ?p Holding = threads_at (thr s) Holding"
    using threads_at_upd[OF D(1), of Holding t Blocked] p by auto
  have q: "t \<notin> set (waiters (lk s))" using D(6)[of t] p by auto
  have "u \<in> set (waiters (lk s) @ [t])" if "?p u = Blocked" for u using D(5)[of u] that by (cases "u = t") simp_all
  moreover have "?p u = Blocked \<or> ?p u = Gone" if "u \<in> set (waiters (lk s) @ [t])" for u
    using D(6)[of u] that by (cases "u = t") simp_all
  ultimately have "lock_inv \<lparr>lk = l', thr = ?p\<rparr>"
    by (intro lock_invI finite_threads_upd[OF D(1)]) (use D(3,4) e h q z in simp_all)
  then show ?thesis using e(1) by simp
qed

lemma give_inv:
  assumes inv: "lock_inv s" and p: "thr s t = Holding" and a: "release (\<lambda>u. thr s u = Gone) (lk s) = Some (l', r)"
  shows "lock_inv \<lparr>lk = l', thr = wake_thread ((thr s)(t := Free)) r\<rparr>"
proof -
  note D = lock_invD[OF inv]
  let ?p = "(thr s)(t := Free)"
  have h: "threads_at ?p Holding + 1 = threads_at (thr s) Holding" "threads_at ?p Woken = threads_at (thr s) Woken"
    using threads_at_upd[OF D(1), of Holding t Free] threads_at_upd[OF D(1), of Woken t Free] p by simp_all
  then have lt: "permits (lk s) < total" using D(3) by simp
  obtain k where k: "permits l' = permits (lk s) + 1" "wq_pop (\<lambda>u. thr s u = Gone) (waiters (lk s)) = (r, k, waiters l')"
    using release_one[OF D(2) lt a] by blast
  have fin: "finite {u. ?p u \<noteq> Free}" using finite_threads_upd[OF D(1)] by blast
  have q: "u \<noteq> t" if "u \<in> set (waiters (lk s))" for u using D(6)[OF that] p by auto
  have sub: "set (waiters l') \<subseteq> set (waiters (lk s))" using wq.pop_subset[OF k(2)] .
  have dis: "distinct (waiters l')" "\<And>u. r = Some u \<Longrightarrow> u \<notin> set (waiters l')" using wq.pop_distinct[OF k(2) D(4)] by blast+
  have live: "r = Some u \<or> u \<in> set (waiters l')" if "thr s u = Blocked" for u
    using wq.pop_live[OF k(2) D(5)[OF that]] that by simp
  show ?thesis
  proof (cases r)
    case None
    have no: "thr s u \<noteq> Blocked" for u
      using wq.pop_None[OF k(2)[unfolded None]] D(5)[of u] live[of u] None by auto
    have q': "?p u = Blocked \<or> ?p u = Gone" if "u \<in> set (waiters l')" for u
      using D(6)[of u] q[of u] sub that by auto
    have nb: "?p u \<noteq> Blocked" for u using no[of u] by simp
    have "lock_inv \<lparr>lk = l', thr = ?p\<rparr>"
      by (intro lock_invI[where p = ?p, OF fin _ _ dis(1) _ q']) (use h k(1) D(2,3) nb in simp_all)
    then show ?thesis using None by (simp add: wake_thread_def)
  next
    case (Some u)
    have u: "u \<in> set (waiters (lk s))" "thr s u = Blocked" "u \<noteq> t"
    proof -
      obtain us where us: "waiters (lk s) = us @ u # waiters l'" "thr s u \<noteq> Gone" using wq.pop_Some[OF k(2)[unfolded Some]] by blast
      then show "u \<in> set (waiters (lk s))" by simp
      then show "thr s u = Blocked" "u \<noteq> t" using D(6)[of u] us(2) q by auto
    qed
    let ?w = "?p(u := Woken)"
    have hw: "threads_at ?w Holding = threads_at ?p Holding" "threads_at ?w Woken = threads_at ?p Woken + 1"
      using threads_at_upd[where p = ?p and y = Holding and t = u and x = Woken, OF fin] threads_at_upd[where p = ?p and y = Woken and t = u and x = Woken, OF fin] u(2,3) by simp_all
    have bl: "v \<in> set (waiters l')" if "?w v = Blocked" for v using live[of v] that Some by (auto split: if_splits)
    have q': "?w v = Blocked \<or> ?w v = Gone" if "v \<in> set (waiters l')" for v
      using D(6)[of v] q[of v] sub dis(2)[OF Some] that by auto
    have "permits (lk s) + 1 \<le> int (threads_at ?w Woken)" using D(7)[OF u(2)] hw h by simp
    moreover have fw: "finite {v. ?w v \<noteq> Free}" using finite_threads_upd[where p = ?p, OF fin] by blast
    ultimately have "lock_inv \<lparr>lk = l', thr = ?w\<rparr>"
      by (intro lock_invI[where p = ?w, OF fw _ _ dis(1) bl q']) (use h hw k(1) D(2,3) in simp_all)
    then show ?thesis using Some by (simp add: wake_thread_def)
  qed
qed

lemma kill_inv:
  assumes inv: "lock_inv s" and p: "thr s t = Free \<or> thr s t = Blocked"
  shows "lock_inv (s\<lparr>thr := (thr s)(t := Gone)\<rparr>)"
proof -
  note D = lock_invD[OF inv]
  let ?p = "(thr s)(t := Gone)"
  have h: "threads_at ?p Holding = threads_at (thr s) Holding" "threads_at ?p Woken = threads_at (thr s) Woken"
    using threads_at_upd[OF D(1), of Holding t Gone] threads_at_upd[OF D(1), of Woken t Gone] p by auto
  have "lock_inv \<lparr>lk = lk s, thr = ?p\<rparr>"
    by (intro lock_invI finite_threads_upd[OF D(1)]) (use D(2-7) h in \<open>auto split: if_splits\<close>)
  then show ?thesis by (cases s) simp
qed

lemma reach_inv:
  assumes "(lock_step acquire release)\<^sup>*\<^sup>* (lock_start l) s" and "permits l = total" and "waiters l = []"
  shows "lock_inv s"
  using assms(1)
proof (induction rule: rtranclp_induct)
  case base
  then show ?case using assms(2,3) total_pos by (simp add: lock_inv_def lock_start_def threads_at_def)
next
  case (step s s')
  from step.hyps(2) show ?case
    by (rule lock_stepE) (use step.IH turn_inv give_inv kill_inv in blast)+
qed

text \<open>
  At most \<open>total\<close> holders; a release returns; and while a thread is blocked some thread holds the lock or has been woken.
\<close>

lemma lock_safe:
  assumes "(lock_step acquire release)\<^sup>*\<^sup>* (lock_start l) s" and "permits l = total" and "waiters l = []"
  shows "int (card {t. thr s t = Holding}) \<le> total" "thr s t = Holding \<Longrightarrow> release dead (lk s) \<noteq> None"
    "thr s u = Blocked \<Longrightarrow> \<exists>v. thr s v = Holding \<or> thr s v = Woken"
proof -
  note D = lock_invD[OF reach_inv[OF assms]]
  show "int (card {t. thr s t = Holding}) \<le> total" using D(2,3) by (simp add: threads_at_def)
  show "release dead (lk s) \<noteq> None" if "thr s t = Holding"
  proof (rule release_total[OF D(2)])
    have "finite {t. thr s t = Holding}" by (rule finite_subset[OF _ D(1)]) auto
    then have "0 < threads_at (thr s) Holding" using that by (auto simp: threads_at_def card_gt_0_iff)
    then show "permits (lk s) < total" using D(3) by simp
  qed
  show "\<exists>v. thr s v = Holding \<or> thr s v = Woken" if "thr s u = Blocked"
  proof (rule ccontr)
    assume "\<not> ?thesis"
    then have "threads_at (thr s) Holding = 0" "threads_at (thr s) Woken = 0" by (simp_all add: threads_at_def)
    then show False using D(3) D(7)[OF that] total_pos by simp
  qed
qed

end

interpretation mx: sleep_lock mutex_lock "\<lambda>dead m. Some (mutex_unlock dead m)" "\<lambda>m. if locked m = 0 then 1 else 0" m_wait_q 1
  by unfold_locales (auto simp: mutex_lock_def mutex_unlock_def wq_push_def split: if_splits prod.splits)

interpretation sm: sleep_lock sem_wait sem_signal sem_count s_wait_q "min (max 1 initial) (2 ^ 31 - 1)" for initial :: int
  by unfold_locales (auto simp: sem_wait_def sem_signal_def wq_push_def split: if_splits prod.splits)

section \<open>Properties\<close>





end
