(* ===== verification/Rwlock.thy ===== *)
theory Rwlock
  imports Sleep_Lock
begin

text \<open>
  The reader-writer lock of \<open>src/system/sync/rwlock.cpp\<close>. As for the mutexes, each operation runs under the lock's
  spinlock and a waiting operation is one turn of its loop. \<open>None\<close> is a panic: memory exhausted, or a read release
  without a reader. Lock pointers are not null.
\<close>

section \<open>The lock\<close>

record native_rwlock =
  readers :: int
  writer_active :: bool
  write_waiters :: int
  read_q :: "tid list"
  write_q :: "tid list"

abbreviation (input) RWLOCK_MAX_READERS :: int where "RWLOCK_MAX_READERS \<equiv> 1024"

definition rwlock_create :: "bool \<Rightarrow> native_rwlock option" where
  "rwlock_create mem =
     (if mem then Some \<lparr>readers = 0, writer_active = False, write_waiters = 0, read_q = [], write_q = []\<rparr> else None)"

text \<open>Without a current thread (\<open>proc\<close> is null) the turn only relaxes the processor.\<close>

definition rwlock_acquire_read :: "native_rwlock \<Rightarrow> tid option \<Rightarrow> native_rwlock \<times> bool" where
  "rwlock_acquire_read l proc =
     (if \<not> writer_active l \<and> write_waiters l = 0 \<and> readers l < RWLOCK_MAX_READERS
      then (l\<lparr>readers := readers l + 1\<rparr>, True)
      else case proc of
        Some t \<Rightarrow> (l\<lparr>read_q := wq_push (read_q l) t\<rparr>, False)
      | None \<Rightarrow> (l, False))"

definition rwlock_acquire_write :: "native_rwlock \<Rightarrow> tid option \<Rightarrow> native_rwlock \<times> bool" where
  "rwlock_acquire_write l proc =
     (if \<not> writer_active l \<and> readers l = 0 then (l\<lparr>writer_active := True\<rparr>, True)
      else let l1 = l\<lparr>write_waiters := write_waiters l + 1\<rparr>
           in case proc of
                Some t \<Rightarrow> (l1\<lparr>write_q := wq_push (write_q l1) t\<rparr>, False)
              | None \<Rightarrow> (l1\<lparr>write_waiters := write_waiters l1 - 1\<rparr>, False))"

text \<open>Popping the next writer, with the correction of the counter.\<close>

definition next_writer :: "(tid \<Rightarrow> bool) \<Rightarrow> native_rwlock \<Rightarrow> native_rwlock \<times> tid option" where
  "next_writer dead l =
     (let (w, skipped, q) = wq_pop dead (write_q l);
          total_removed = (if w \<noteq> None then 1 else 0) + int skipped;
          ww = (if write_waiters l \<ge> total_removed then write_waiters l - total_removed else 0)
      in (l\<lparr>write_q := q, write_waiters := ww\<rparr>, w))"

definition rwlock_release_read :: "(tid \<Rightarrow> bool) \<Rightarrow> native_rwlock \<Rightarrow> (native_rwlock \<times> tid list) option" where
  "rwlock_release_read dead l =
     (if readers l > 0
      then let l1 = l\<lparr>readers := readers l - 1\<rparr>
           in if readers l1 = 0 \<and> write_waiters l1 > 0
              then let (l2, w) = next_writer dead l1 in Some (l2, case w of Some t \<Rightarrow> [t] | None \<Rightarrow> [])
              else Some (l1, [])
      else None)"

text \<open>The loop that wakes all readers.\<close>

function wake_readers :: "(tid \<Rightarrow> bool) \<Rightarrow> native_rwlock \<Rightarrow> native_rwlock \<times> tid list" where
  "wake_readers dead l =
     (case wq_pop dead (read_q l) of
        (None, _, q) \<Rightarrow> (l\<lparr>read_q := q\<rparr>, [])
      | (Some r, _, q) \<Rightarrow> let (l1, ws) = wake_readers dead (l\<lparr>read_q := q\<rparr>) in (l1, r # ws))"
  by pat_completeness auto

termination
  by (relation "measure (\<lambda>(dead, l). length (read_q l))") (auto dest!: wq.pop_length[OF sym])

declare wake_readers.simps [simp del]

definition rwlock_release_write :: "(tid \<Rightarrow> bool) \<Rightarrow> native_rwlock \<Rightarrow> native_rwlock \<times> tid list" where
  "rwlock_release_write dead l =
     (let l1 = l\<lparr>writer_active := False\<rparr>
      in if write_waiters l1 > 0
         then let (l2, w) = next_writer dead l1 in (l2, case w of Some t \<Rightarrow> [t] | None \<Rightarrow> [])
         else wake_readers dead l1)"

section \<open>Threads around the lock\<close>

datatype rw_pc = RW_Free | Blocked_R | Blocked_W | Woken_R | Woken_W | Reading | Writing | RW_Gone

record rw_sys =
  rl :: native_rwlock
  rthr :: "tid \<Rightarrow> rw_pc"

text \<open>A woken thread continues the operation it was blocked in.\<close>

definition rw_wake :: "(tid \<Rightarrow> rw_pc) \<Rightarrow> tid list \<Rightarrow> tid \<Rightarrow> rw_pc" where
  "rw_wake p ws = (\<lambda>t. if t \<in> set ws then if p t = Blocked_W then Woken_W else Woken_R else p t)"

inductive rw_step :: "rw_sys \<Rightarrow> rw_sys \<Rightarrow> bool" where
  read_turn: "rthr s t = RW_Free \<or> rthr s t = Woken_R \<Longrightarrow> rwlock_acquire_read (rl s) (Some t) = (l', ok) \<Longrightarrow>
    rw_step s \<lparr>rl = l', rthr = (rthr s)(t := if ok then Reading else Blocked_R)\<rparr>"
| write_turn: "rthr s t = RW_Free \<or> rthr s t = Woken_W \<Longrightarrow> rwlock_acquire_write (rl s) (Some t) = (l', ok) \<Longrightarrow>
    rw_step s \<lparr>rl = l', rthr = (rthr s)(t := if ok then Writing else Blocked_W)\<rparr>"
| read_give: "rthr s t = Reading \<Longrightarrow> rwlock_release_read (\<lambda>u. rthr s u = RW_Gone) (rl s) = Some (l', ws) \<Longrightarrow>
    rw_step s \<lparr>rl = l', rthr = rw_wake ((rthr s)(t := RW_Free)) ws\<rparr>"
| write_give: "rthr s t = Writing \<Longrightarrow> rwlock_release_write (\<lambda>u. rthr s u = RW_Gone) (rl s) = (l', ws) \<Longrightarrow>
    rw_step s \<lparr>rl = l', rthr = rw_wake ((rthr s)(t := RW_Free)) ws\<rparr>"
| rw_kill: "rthr s t = RW_Free \<or> rthr s t = Blocked_R \<or> rthr s t = Blocked_W \<Longrightarrow>
    rw_step s (s\<lparr>rthr := (rthr s)(t := RW_Gone)\<rparr>)"

inductive_cases rw_stepE: "rw_step s s'"

definition rw_start :: "native_rwlock \<Rightarrow> rw_sys" where
  "rw_start l = \<lparr>rl = l, rthr = (\<lambda>_. RW_Free)\<rparr>"

section \<open>The invariant\<close>

text \<open>The counters agree with the threads and the queue of writers.\<close>

definition rw_base :: "native_rwlock \<Rightarrow> (tid \<Rightarrow> rw_pc) \<Rightarrow> bool" where
  "rw_base l p \<longleftrightarrow> finite {t. p t \<noteq> RW_Free} \<and> readers l = int (threads_at p Reading) \<and> readers l \<le> RWLOCK_MAX_READERS
     \<and> threads_at p Writing = (if writer_active l then 1 else 0) \<and> (writer_active l \<longrightarrow> readers l = 0)
     \<and> write_waiters l = int (length (write_q l)) \<and> distinct (read_q l) \<and> distinct (write_q l)
     \<and> (\<forall>t. p t = Blocked_R \<longrightarrow> t \<in> set (read_q l)) \<and> (\<forall>t. p t = Blocked_W \<longrightarrow> t \<in> set (write_q l))
     \<and> (\<forall>t. t \<in> set (read_q l) \<longrightarrow> p t = Blocked_R \<or> p t = RW_Gone) \<and> (\<forall>t. t \<in> set (write_q l) \<longrightarrow> p t = Blocked_W \<or> p t = RW_Gone)"

text \<open>While a writer is blocked, the lock is held or a writer has been woken.\<close>

definition rw_inv :: "native_rwlock \<Rightarrow> (tid \<Rightarrow> rw_pc) \<Rightarrow> bool" where
  "rw_inv l p \<longleftrightarrow> rw_base l p \<and> (\<forall>t. p t = Blocked_W \<longrightarrow> 0 < readers l \<or> writer_active l \<or> 0 < threads_at p Woken_W)"

lemma rw_baseD:
  assumes "rw_base l p"
  shows "finite {t. p t \<noteq> RW_Free}" "readers l = int (threads_at p Reading)" "readers l \<le> RWLOCK_MAX_READERS"
    "threads_at p Writing = (if writer_active l then 1 else 0)" "writer_active l \<Longrightarrow> readers l = 0"
    "write_waiters l = int (length (write_q l))" "distinct (read_q l)" "distinct (write_q l)"
    "\<And>t. p t = Blocked_R \<Longrightarrow> t \<in> set (read_q l)" "\<And>t. p t = Blocked_W \<Longrightarrow> t \<in> set (write_q l)"
    "\<And>t. t \<in> set (read_q l) \<Longrightarrow> p t = Blocked_R \<or> p t = RW_Gone" "\<And>t. t \<in> set (write_q l) \<Longrightarrow> p t = Blocked_W \<or> p t = RW_Gone"
  using assms unfolding rw_base_def by - (elim conjE; (assumption | (erule allE, erule (1) mp) | erule (1) mp))+

lemma rw_baseI:
  assumes "finite {t. p t \<noteq> RW_Free}" "readers l = int (threads_at p Reading)" "readers l \<le> RWLOCK_MAX_READERS"
    "threads_at p Writing = (if writer_active l then 1 else 0)" "writer_active l \<Longrightarrow> readers l = 0"
    "write_waiters l = int (length (write_q l))" "distinct (read_q l)" "distinct (write_q l)"
    "\<And>t. p t = Blocked_R \<Longrightarrow> t \<in> set (read_q l)" "\<And>t. p t = Blocked_W \<Longrightarrow> t \<in> set (write_q l)"
    "\<And>t. t \<in> set (read_q l) \<Longrightarrow> p t = Blocked_R \<or> p t = RW_Gone" "\<And>t. t \<in> set (write_q l) \<Longrightarrow> p t = Blocked_W \<or> p t = RW_Gone"
  shows "rw_base l p"
  unfolding rw_base_def by (intro conjI allI impI; (rule assms; assumption))

lemma rw_wake_Nil: "rw_wake p [] = p"
  by (simp add: rw_wake_def)

lemma rw_queue_apart: "rw_base l p \<Longrightarrow> p t = x \<Longrightarrow> x \<notin> {Blocked_R, Blocked_W, RW_Gone} \<Longrightarrow> t \<notin> set (read_q l) \<and> t \<notin> set (write_q l)"
  using rw_baseD(11,12)[of l p t] by auto

text \<open>A thread that is in no queue moves to another place that is in none.\<close>

lemma rw_base_move:
  assumes b: "rw_base l p" and x: "p t \<notin> {Blocked_R, Blocked_W, RW_Gone}" and y: "y \<notin> {Blocked_R, Blocked_W, RW_Gone}"
    and q: "read_q l' = read_q l" "write_q l' = write_q l" "write_waiters l' = write_waiters l"
    and r: "readers l' = int (threads_at (p(t := y)) Reading)" "readers l' \<le> RWLOCK_MAX_READERS"
      "threads_at (p(t := y)) Writing = (if writer_active l' then 1 else 0)" "writer_active l' \<Longrightarrow> readers l' = 0"
  shows "rw_base l' (p(t := y))"
proof -
  note D = rw_baseD[OF b]
  have n: "u \<noteq> t" if "u \<in> set (read_q l) \<or> u \<in> set (write_q l)" for u using D(11,12)[of u] that x by auto
  show ?thesis
  proof (rule rw_baseI[OF finite_threads_upd[OF D(1)] r])
    show "u \<in> set (read_q l')" if "(p(t := y)) u = Blocked_R" for u using D(9)[of u] that y q by (cases "u = t") simp_all
    show "u \<in> set (write_q l')" if "(p(t := y)) u = Blocked_W" for u using D(10)[of u] that y q by (cases "u = t") simp_all
    show "(p(t := y)) u = Blocked_R \<or> (p(t := y)) u = RW_Gone" if "u \<in> set (read_q l')" for u using D(11)[of u] n[of u] that q by simp
    show "(p(t := y)) u = Blocked_W \<or> (p(t := y)) u = RW_Gone" if "u \<in> set (write_q l')" for u using D(12)[of u] n[of u] that q by simp
  qed (simp_all add: q D(6-8))
qed

lemma no_writer_queued: "rw_base l p \<Longrightarrow> write_waiters l = 0 \<Longrightarrow> p t \<noteq> Blocked_W"
  using rw_baseD(6,10)[of l p] by fastforce

lemma read_turn_inv:
  assumes inv: "rw_inv l p" and t: "p t = RW_Free \<or> p t = Woken_R" and a: "rwlock_acquire_read l (Some t) = (l', ok)"
  shows "rw_inv l' (p(t := if ok then Reading else Blocked_R))"
proof -
  have b: "rw_base l p" and w: "\<And>u. p u = Blocked_W \<Longrightarrow> 0 < readers l \<or> writer_active l \<or> 0 < threads_at p Woken_W"
    using inv by (auto simp: rw_inv_def)
  note D = rw_baseD[OF b]
  note upd = threads_at_upd[OF D(1), of _ t]
  show ?thesis
  proof (cases "\<not> writer_active l \<and> write_waiters l = 0 \<and> readers l < RWLOCK_MAX_READERS")
    case True
    then have l': "l' = l\<lparr>readers := readers l + 1\<rparr>" "ok" using a by (auto simp: rwlock_acquire_read_def)
    have "rw_base l' (p(t := Reading))"
      by (rule rw_base_move[OF b]) (use t True l'(1) D(2,4) upd[of Reading Reading] upd[of Writing Reading] in auto)
    moreover have "(p(t := Reading)) u \<noteq> Blocked_W" for u using no_writer_queued[OF b, of u] True by simp
    ultimately show ?thesis using l'(2) by (simp add: rw_inv_def)
  next
    case False
    then have l': "l' = l\<lparr>read_q := read_q l @ [t]\<rparr>" "\<not> ok" using a by (auto simp: rwlock_acquire_read_def wq_push_def)
    let ?p = "p(t := Blocked_R)"
    have c: "threads_at ?p Reading = threads_at p Reading" "threads_at ?p Writing = threads_at p Writing"
      "threads_at ?p Woken_W = threads_at p Woken_W" using t upd[of Reading Blocked_R] upd[of Writing Blocked_R] upd[of Woken_W Blocked_R] by auto
    have n: "t \<notin> set (read_q l)" "t \<notin> set (write_q l)" using rw_queue_apart[OF b] t by blast+
    have "rw_base l' ?p"
    proof (rule rw_baseI[where p = ?p, OF finite_threads_upd[OF D(1)]])
      show "u \<in> set (read_q l')" if "?p u = Blocked_R" for u using D(9)[of u] that l' by (cases "u = t") simp_all
      show "u \<in> set (write_q l')" if "?p u = Blocked_W" for u using D(10)[of u] that l' by (cases "u = t") simp_all
      show "?p u = Blocked_R \<or> ?p u = RW_Gone" if "u \<in> set (read_q l')" for u using D(11)[of u] that l' by (cases "u = t") simp_all
      show "?p u = Blocked_W \<or> ?p u = RW_Gone" if "u \<in> set (write_q l')" for u using D(12)[of u] that l' n by (cases "u = t") simp_all
    qed (use D(2-8) l' c n in simp_all)
    moreover have "0 < readers l' \<or> writer_active l' \<or> 0 < threads_at ?p Woken_W" if "?p u = Blocked_W" for u
      using w[of u] that l' c by (cases "u = t") simp_all
    ultimately show ?thesis using l'(2) by (simp add: rw_inv_def)
  qed
qed

lemma write_turn_inv:
  assumes inv: "rw_inv l p" and t: "p t = RW_Free \<or> p t = Woken_W" and a: "rwlock_acquire_write l (Some t) = (l', ok)"
  shows "rw_inv l' (p(t := if ok then Writing else Blocked_W))"
proof -
  have b: "rw_base l p" using inv by (auto simp: rw_inv_def)
  note D = rw_baseD[OF b]
  note upd = threads_at_upd[OF D(1), of _ t]
  show ?thesis
  proof (cases "\<not> writer_active l \<and> readers l = 0")
    case True
    then have l': "l' = l\<lparr>writer_active := True\<rparr>" "ok" using a by (auto simp: rwlock_acquire_write_def)
    have "rw_base l' (p(t := Writing))"
      by (rule rw_base_move[OF b]) (use t True l'(1) D(2,4) upd[of Reading Writing] upd[of Writing Writing] in auto)
    then show ?thesis using l' by (simp add: rw_inv_def)
  next
    case False
    then have l': "l' = l\<lparr>write_waiters := write_waiters l + 1, write_q := write_q l @ [t]\<rparr>" "\<not> ok"
      using a by (auto simp: rwlock_acquire_write_def wq_push_def Let_def)
    let ?p = "p(t := Blocked_W)"
    have c: "threads_at ?p Reading = threads_at p Reading" "threads_at ?p Writing = threads_at p Writing"
      using t upd[of Reading Blocked_W] upd[of Writing Blocked_W] by auto
    have n: "t \<notin> set (read_q l)" "t \<notin> set (write_q l)" using rw_queue_apart[OF b] t by blast+
    have "rw_base l' ?p"
    proof (rule rw_baseI[where p = ?p, OF finite_threads_upd[OF D(1)]])
      show "u \<in> set (read_q l')" if "?p u = Blocked_R" for u using D(9)[of u] that l' by (cases "u = t") simp_all
      show "u \<in> set (write_q l')" if "?p u = Blocked_W" for u using D(10)[of u] that l' by (cases "u = t") simp_all
      show "?p u = Blocked_R \<or> ?p u = RW_Gone" if "u \<in> set (read_q l')" for u using D(11)[of u] that l' n by (cases "u = t") simp_all
      show "?p u = Blocked_W \<or> ?p u = RW_Gone" if "u \<in> set (write_q l')" for u using D(12)[of u] that l' by (cases "u = t") simp_all
    qed (use D(2-8) l' c n in simp_all)
    moreover have "0 < readers l' \<or> writer_active l'" using False D(2) l' by auto
    ultimately show ?thesis using l'(2) by (auto simp: rw_inv_def)
  qed
qed

text \<open>Popping a writer: the correction of the counter never has to clamp.\<close>

lemma next_writer_inv:
  assumes b: "rw_base l p" and d: "\<And>u. dead u \<longleftrightarrow> p u = RW_Gone" and a: "next_writer dead l = (l', w)"
  shows "rw_inv l' (rw_wake p (case w of Some t \<Rightarrow> [t] | None \<Rightarrow> []))"
proof -
  note D = rw_baseD[OF b]
  obtain k q where pop: "wq_pop dead (write_q l) = (w, k, q)"
    using a by (auto simp: next_writer_def Let_def split: prod.splits)
  have len: "length (write_q l) = length q + k + (case w of None \<Rightarrow> 0 | Some _ \<Rightarrow> 1)" using wq.pop_length[OF pop] .
  have l': "l' = l\<lparr>write_q := q, write_waiters := int (length q)\<rparr>"
    using a pop len D(6) by (auto simp: next_writer_def split: option.splits)
  have sub: "set q \<subseteq> set (write_q l)" using wq.pop_subset[OF pop] .
  have dq: "distinct q" "\<And>u. w = Some u \<Longrightarrow> u \<notin> set q" using wq.pop_distinct[OF pop D(8)] by blast+
  have live: "w = Some u \<or> u \<in> set q" if "p u = Blocked_W" for u using wq.pop_live[OF pop D(10)[OF that]] that d by simp
  show ?thesis
  proof (cases w)
    case None
    then have q: "q = []" using wq.pop_None pop by blast
    have nb: "p u \<noteq> Blocked_W" for u using live[of u] None q by auto
    have "rw_base l' p" by (rule rw_baseI) (use D l' q nb in simp_all)
    then show ?thesis using nb None by (simp add: rw_inv_def rw_wake_def)
  next
    case (Some t)
    obtain us where us: "write_q l = us @ t # q" "\<not> dead t" using wq.pop_Some[OF pop[unfolded Some]] by blast
    have pt: "p t = Blocked_W" using D(12)[of t] us d by auto
    let ?p = "p(t := Woken_W)"
    have wake: "rw_wake p [t] = ?p" using pt by (auto simp: rw_wake_def)
    note upd = threads_at_upd[OF D(1), of _ t Woken_W]
    have c: "threads_at ?p Reading = threads_at p Reading" "threads_at ?p Writing = threads_at p Writing" "0 < threads_at ?p Woken_W"
      using pt upd[of Reading] upd[of Writing] upd[of Woken_W] by auto
    have nr: "t \<notin> set (read_q l)" using D(11)[of t] pt by auto
    have "rw_base l' ?p"
    proof (rule rw_baseI[where p = ?p, OF finite_threads_upd[OF D(1)]])
      show "u \<in> set (read_q l')" if "?p u = Blocked_R" for u using D(9)[of u] that l' by (cases "u = t") simp_all
      show "u \<in> set (write_q l')" if "?p u = Blocked_W" for u using live[of u] that l' Some by (cases "u = t") simp_all
      show "?p u = Blocked_R \<or> ?p u = RW_Gone" if "u \<in> set (read_q l')" for u using D(11)[of u] that l' nr by (cases "u = t") simp_all
      show "?p u = Blocked_W \<or> ?p u = RW_Gone" if "u \<in> set (write_q l')" for u
        using D(12)[of u] that l' dq(2)[OF Some] sub by (cases "u = t") auto
    qed (use D(2-7) l' c dq(1) in simp_all)
    then show ?thesis using Some wake c(3) by (simp add: rw_inv_def)
  qed
qed

lemma wake_readers_eq:
  "wake_readers dead l = (l\<lparr>read_q := []\<rparr>, filter (\<lambda>t. \<not> dead t) (read_q l))"
proof (induction dead l rule: wake_readers.induct)
  case (1 dead l)
  obtain r k q where pop: "wq_pop dead (read_q l) = (r, k, q)" by (metis prod_cases3)
  show ?case
  proof (cases r)
    case None
    then have "q = []" "\<forall>t \<in> set (read_q l). dead t" using wq.pop_None pop by blast+
    then show ?thesis using pop None by (subst wake_readers.simps) (simp add: filter_empty_conv)
  next
    case (Some t)
    obtain us where us: "read_q l = us @ t # q" "\<forall>u \<in> set us. dead u" "\<not> dead t" using wq.pop_Some[OF pop[unfolded Some]] by blast
    have e: "filter (\<lambda>t. \<not> dead t) us = []" using us(2) by (simp add: filter_empty_conv)
    have "wake_readers dead (l\<lparr>read_q := q\<rparr>) = (l\<lparr>read_q := []\<rparr>, filter (\<lambda>t. \<not> dead t) q)"
      using 1[OF pop[symmetric] Some refl] by simp
    then show ?thesis using pop Some us(1,3) e by (subst wake_readers.simps) simp
  qed
qed

lemma wake_readers_inv:
  assumes b: "rw_base l p" and d: "\<And>u. dead u \<longleftrightarrow> p u = RW_Gone" and z: "write_waiters l = 0"
    and a: "wake_readers dead l = (l', ws)"
  shows "rw_inv l' (rw_wake p ws)"
proof -
  note D = rw_baseD[OF b]
  have l': "l' = l\<lparr>read_q := []\<rparr>" "ws = filter (\<lambda>t. \<not> dead t) (read_q l)" using a by (simp_all add: wake_readers_eq)
  have ws: "t \<in> set ws \<longleftrightarrow> p t = Blocked_R" for t using D(9,11)[of t] d l'(2) by auto
  have e: "rw_wake p ws = (\<lambda>t. if p t = Blocked_R then Woken_R else p t)" by (auto simp: rw_wake_def ws)
  let ?p = "\<lambda>t. if p t = Blocked_R then Woken_R else p t"
  have c: "threads_at ?p Reading = threads_at p Reading" "threads_at ?p Writing = threads_at p Writing"
    unfolding threads_at_def by (rule arg_cong[where f = card]; auto)+
  have fin: "finite {t. ?p t \<noteq> RW_Free}" by (rule finite_subset[OF _ D(1)]) (auto split: if_splits)
  have nb: "?p u \<noteq> Blocked_W" for u using no_writer_queued[OF b z, of u] by simp
  have wq: "write_q l = []" using D(6) z by simp
  have "rw_base l' ?p" by (rule rw_baseI[OF fin]) (use D(2-6) l'(1) c nb wq in \<open>auto split: if_splits\<close>)
  then show ?thesis unfolding e using nb by (simp add: rw_inv_def)
qed

lemma read_give_inv:
  assumes inv: "rw_inv l p" and t: "p t = Reading" and a: "rwlock_release_read (\<lambda>u. p u = RW_Gone) l = Some (l', ws)"
  shows "rw_inv l' (rw_wake (p(t := RW_Free)) ws)"
proof -
  have b: "rw_base l p" using inv by (simp add: rw_inv_def)
  note D = rw_baseD[OF b]
  note upd = threads_at_upd[OF D(1), of _ t RW_Free]
  let ?l = "l\<lparr>readers := readers l - 1\<rparr>" and ?p = "p(t := RW_Free)"
  have c: "threads_at ?p Reading + 1 = threads_at p Reading" "threads_at ?p Writing = threads_at p Writing"
    using t upd[of Reading] upd[of Writing] by simp_all
  have pos: "0 < readers l" using c(1) D(2) by simp
  have b1: "rw_base ?l ?p" by (rule rw_base_move[OF b]) (use t c D(2-5) pos in auto)
  have dead: "p u = RW_Gone \<longleftrightarrow> ?p u = RW_Gone" for u using t by simp
  show ?thesis
  proof (cases "readers ?l = 0 \<and> write_waiters ?l > 0")
    case True
    obtain l2 w where nw: "next_writer (\<lambda>u. p u = RW_Gone) ?l = (l2, w)" by fastforce
    then have "l' = l2" "ws = (case w of Some t \<Rightarrow> [t] | None \<Rightarrow> [])"
      using a True pos by (simp_all add: rwlock_release_read_def Let_def)
    then show ?thesis using next_writer_inv[where p = ?p, OF b1 dead nw] by simp
  next
    case False
    then have e: "l' = ?l" "ws = []" using a pos by (auto simp: rwlock_release_read_def Let_def split: if_splits)
    have "0 < readers ?l" if "?p u = Blocked_W" for u
      using no_writer_queued[OF b1, of u] that False pos rw_baseD(6)[OF b1] by auto
    then show ?thesis using b1 e unfolding rw_inv_def by (auto simp: rw_wake_Nil)
  qed
qed

lemma write_give_inv:
  assumes inv: "rw_inv l p" and t: "p t = Writing" and a: "rwlock_release_write (\<lambda>u. p u = RW_Gone) l = (l', ws)"
  shows "rw_inv l' (rw_wake (p(t := RW_Free)) ws)"
proof -
  have b: "rw_base l p" using inv by (simp add: rw_inv_def)
  note D = rw_baseD[OF b]
  note upd = threads_at_upd[OF D(1), of _ t RW_Free]
  let ?l = "l\<lparr>writer_active := False\<rparr>" and ?p = "p(t := RW_Free)"
  have c: "threads_at ?p Reading = threads_at p Reading" "threads_at ?p Writing = 0"
    using t upd[of Reading] upd[of Writing] D(4) by (auto split: if_splits)
  have b1: "rw_base ?l ?p" by (rule rw_base_move[OF b]) (use t c D(2,3) in auto)
  have dead: "p u = RW_Gone \<longleftrightarrow> ?p u = RW_Gone" for u using t by simp
  show ?thesis
  proof (cases "write_waiters ?l > 0")
    case True
    obtain l2 w where nw: "next_writer (\<lambda>u. p u = RW_Gone) ?l = (l2, w)" by fastforce
    then have "l' = l2" "ws = (case w of Some t \<Rightarrow> [t] | None \<Rightarrow> [])"
      using a True by (simp_all add: rwlock_release_write_def Let_def)
    then show ?thesis using next_writer_inv[where p = ?p, OF b1 dead nw] by simp
  next
    case False
    then have z: "write_waiters ?l = 0" and w: "wake_readers (\<lambda>u. p u = RW_Gone) ?l = (l', ws)"
      using a rw_baseD(6)[OF b1] by (auto simp: rwlock_release_write_def Let_def)
    show ?thesis by (rule wake_readers_inv[where p = ?p, OF b1 dead z w])
  qed
qed

lemma rw_kill_inv:
  assumes inv: "rw_inv l p" and t: "p t = RW_Free \<or> p t = Blocked_R \<or> p t = Blocked_W"
  shows "rw_inv l (p(t := RW_Gone))"
proof -
  have b: "rw_base l p" and w: "\<And>u. p u = Blocked_W \<Longrightarrow> 0 < readers l \<or> writer_active l \<or> 0 < threads_at p Woken_W"
    using inv by (auto simp: rw_inv_def)
  note D = rw_baseD[OF b]
  note upd = threads_at_upd[OF D(1), of _ t RW_Gone]
  let ?p = "p(t := RW_Gone)"
  have c: "threads_at ?p Reading = threads_at p Reading" "threads_at ?p Writing = threads_at p Writing"
    "threads_at ?p Woken_W = threads_at p Woken_W" using t upd[of Reading] upd[of Writing] upd[of Woken_W] by auto
  have "rw_base l ?p"
  proof (rule rw_baseI[where p = ?p, OF finite_threads_upd[OF D(1)]])
    show "u \<in> set (read_q l)" if "?p u = Blocked_R" for u using D(9)[of u] that by (cases "u = t") simp_all
    show "u \<in> set (write_q l)" if "?p u = Blocked_W" for u using D(10)[of u] that by (cases "u = t") simp_all
    show "?p u = Blocked_R \<or> ?p u = RW_Gone" if "u \<in> set (read_q l)" for u using D(11)[of u] that by (cases "u = t") simp_all
    show "?p u = Blocked_W \<or> ?p u = RW_Gone" if "u \<in> set (write_q l)" for u using D(12)[of u] that by (cases "u = t") simp_all
  qed (use D(2-8) c in simp_all)
  moreover have "0 < readers l \<or> writer_active l \<or> 0 < threads_at ?p Woken_W" if "?p u = Blocked_W" for u
    using w[of u] that c by (cases "u = t") simp_all
  ultimately show ?thesis by (simp add: rw_inv_def)
qed

lemma rw_reach_inv:
  assumes "rwlock_create True = Some l" and "rw_step\<^sup>*\<^sup>* (rw_start l) s"
  shows "rw_inv (rl s) (rthr s)"
  using assms(2)
proof (induction rule: rtranclp_induct)
  case base
  have "l = \<lparr>readers = 0, writer_active = False, write_waiters = 0, read_q = [], write_q = []\<rparr>"
    using assms(1) by (simp add: rwlock_create_def)
  then show ?case by (simp add: rw_inv_def rw_base_def rw_start_def threads_at_def)
next
  case (step s s')
  from step.hyps(2) show ?case
  proof (rule rw_stepE)
    fix t l' ok assume "s' = \<lparr>rl = l', rthr = (rthr s)(t := if ok then Reading else Blocked_R)\<rparr>"
      "rthr s t = RW_Free \<or> rthr s t = Woken_R" "rwlock_acquire_read (rl s) (Some t) = (l', ok)"
    then show ?thesis using read_turn_inv[OF step.IH] by (simp del: fun_upd_apply)
  next
    fix t l' ok assume "s' = \<lparr>rl = l', rthr = (rthr s)(t := if ok then Writing else Blocked_W)\<rparr>"
      "rthr s t = RW_Free \<or> rthr s t = Woken_W" "rwlock_acquire_write (rl s) (Some t) = (l', ok)"
    then show ?thesis using write_turn_inv[OF step.IH] by (simp del: fun_upd_apply)
  next
    fix t l' ws assume "s' = \<lparr>rl = l', rthr = rw_wake ((rthr s)(t := RW_Free)) ws\<rparr>"
      "rthr s t = Reading" "rwlock_release_read (\<lambda>u. rthr s u = RW_Gone) (rl s) = Some (l', ws)"
    then show ?thesis using read_give_inv[OF step.IH] by (simp del: fun_upd_apply)
  next
    fix t l' ws assume "s' = \<lparr>rl = l', rthr = rw_wake ((rthr s)(t := RW_Free)) ws\<rparr>"
      "rthr s t = Writing" "rwlock_release_write (\<lambda>u. rthr s u = RW_Gone) (rl s) = (l', ws)"
    then show ?thesis using write_give_inv[OF step.IH] by (simp del: fun_upd_apply)
  next
    fix t assume "s' = s\<lparr>rthr := (rthr s)(t := RW_Gone)\<rparr>" "rthr s t = RW_Free \<or> rthr s t = Blocked_R \<or> rthr s t = Blocked_W"
    then show ?thesis using rw_kill_inv[OF step.IH] by (simp del: fun_upd_apply)
  qed
qed

section \<open>Properties\<close>




end
