(* ===== verification/Block_Device.thy ===== *)
theory Block_Device
  imports Kernel_Prelude
begin

text \<open>
  The class \<open>Device\<close> of \<open>src/system/device/device.cpp\<close> and its subclass \<open>PartitionDevice\<close> of
  \<open>src/system/device/partition.cpp\<close>. Devices are objects in a heap; a partition refers to its parent by pointer and
  calls it through virtual dispatch. The block transfers of the storage drivers, which talk to hardware, are two
  functions \<open>rd\<close> and \<open>wr\<close> on a hardware state. \<open>None\<close> is a null or dangling pointer, or a chain of parents that never
  ends; a transfer that the code refuses with 0 is an ordinary result.
\<close>

section \<open>Devices\<close>

datatype device_type =
  DEV_UNKNOWN | DEV_KEYBOARD | DEV_MOUSE | DEV_DISPLAY | DEV_BLOCK | DEV_PARTITION | DEV_SERIAL | DEV_CHAR

text \<open>The dynamic class: a plain device, a storage driver with its block size, or a partition.\<close>

datatype device_class =
    Plain
  | Driver u32
  | Partition (parent: "nat option") (start_lba: u64) (sectors: u64) (gpt_type: string)

record device =
  d_name :: string
  d_model :: string
  mount_point :: string
  d_type :: device_type
  capacity_bytes :: u64
  write_protected :: bool
  d_class :: device_class

record 'h io =
  hw :: 'h
  devs :: "nat \<Rightarrow> device option"

type_synonym 'h block_read = "'h \<Rightarrow> nat \<Rightarrow> u64 \<Rightarrow> u32 \<Rightarrow> 'h \<times> u8 list option"
type_synonym 'h block_write = "'h \<Rightarrow> nat \<Rightarrow> u64 \<Rightarrow> u32 \<Rightarrow> u8 list \<Rightarrow> 'h \<times> bool"

definition device_set_name :: "device \<Rightarrow> string \<Rightarrow> device" where
  "device_set_name d n = d\<lparr>d_name := take 31 n\<rparr>"

definition device_set_model :: "device \<Rightarrow> string \<Rightarrow> device" where
  "device_set_model d m = d\<lparr>d_model := take 63 m\<rparr>"

definition device_set_mount_point :: "device \<Rightarrow> string \<Rightarrow> device" where
  "device_set_mount_point d mp = d\<lparr>mount_point := take 63 mp\<rparr>"

definition device_new :: "string \<Rightarrow> device_type \<Rightarrow> device_class \<Rightarrow> device" where
  "device_new n t c =
     device_set_model (device_set_name
       \<lparr>d_name = [], d_model = [], mount_point = [], d_type = t, capacity_bytes = 0,
        write_protected = (t = DEV_BLOCK \<or> t = DEV_PARTITION), d_class = c\<rparr> n) ''Generic Device''"

definition partition_new :: "string \<Rightarrow> nat option \<Rightarrow> u64 \<Rightarrow> u64 \<Rightarrow> device" where
  "partition_new n par start fin =
     (let cnt = (if fin \<ge> start then fin - start + 1 else 0)
      in (device_new n DEV_PARTITION (Partition par start cnt []))\<lparr>capacity_bytes := cnt * 512\<rparr>)"

definition set_gpt_type :: "device \<Rightarrow> string \<Rightarrow> device" where
  "set_gpt_type d g =
     (case d_class d of Partition p a n _ \<Rightarrow> d\<lparr>d_class := Partition p a n (take 15 g)\<rparr> | _ \<Rightarrow> d)"

partial_function (option) get_block_size :: "(nat \<Rightarrow> device option) \<Rightarrow> nat \<Rightarrow> u32 option" where
  "get_block_size ds p =
     do { d \<leftarrow> ds p;
          case d_class d of
            Driver bs \<Rightarrow> Some bs
          | Partition (Some q) _ _ _ \<Rightarrow> get_block_size ds q
          | _ \<Rightarrow> Some 512 }"

definition device_get_start_lba :: "device \<Rightarrow> u64" where
  "device_get_start_lba d = (case d_class d of Partition _ a _ _ \<Rightarrow> a | _ \<Rightarrow> 0)"

datatype query_id =
    KDQ_BLOCK_COUNT | KDQ_BLOCK_SIZE | KDQ_SECTOR_SIZE | KDQ_MEDIA_TYPE | KDQ_CHAR_BAUD | KDQ_CHAR_MODE
  | KDQ_GPU_VRAM_SIZE | KDQ_GPU_MAX_RES | KDQ_NET_MAC | KDQ_NET_MTU

text \<open>The answer is the error code and the value written to the output, which is \<open>out_len\<close> bytes long.\<close>

definition device_query :: "(nat \<Rightarrow> device option) \<Rightarrow> nat \<Rightarrow> query_id \<Rightarrow> bool \<Rightarrow> nat \<Rightarrow> (u32 \<times> u64 option) option" where
  "device_query ds p i out out_len =
     (if \<not> out then Some (3, None)
      else do {
        d \<leftarrow> ds p;
        bs \<leftarrow> get_block_size ds p;
        (case i of
           KDQ_BLOCK_COUNT \<Rightarrow>
             if out_len = 8 then if bs = 0 then None else Some (0, Some (capacity_bytes d div ucast bs)) else Some (2, None)
         | KDQ_BLOCK_SIZE \<Rightarrow> if out_len = 4 then Some (0, Some (ucast bs)) else Some (2, None)
         | KDQ_SECTOR_SIZE \<Rightarrow> if out_len = 4 then Some (0, Some (ucast bs)) else Some (2, None)
         | _ \<Rightarrow> Some (2, None)) })"

section \<open>Write protection\<close>

abbreviation (input) DEVICE_MAGIC_UNLOCK :: u32 where "DEVICE_MAGIC_UNLOCK \<equiv> 0x1337BEEF"

definition device_unlock_write :: "bool \<Rightarrow> device \<Rightarrow> u32 \<Rightarrow> device" where
  "device_unlock_write lockdown d magic =
     (if lockdown then d else if magic = DEVICE_MAGIC_UNLOCK then d\<lparr>write_protected := False\<rparr> else d)"

definition device_lock_write :: "device \<Rightarrow> device" where
  "device_lock_write d = d\<lparr>write_protected := True\<rparr>"

definition update_dev :: "'h io \<Rightarrow> nat \<Rightarrow> (device \<Rightarrow> device) \<Rightarrow> 'h io option" where
  "update_dev s p f = do { d \<leftarrow> devs s p; Some (s\<lparr>devs := (devs s)(p \<mapsto> f d)\<rparr>) }"

definition partition_unlock_write :: "bool \<Rightarrow> 'h io \<Rightarrow> nat \<Rightarrow> u32 \<Rightarrow> 'h io option" where
  "partition_unlock_write lockdown s p magic =
     do { d \<leftarrow> devs s p;
          s1 \<leftarrow> update_dev s p (\<lambda>d. device_unlock_write lockdown d magic);
          case d_class d of
            Partition (Some q) _ _ _ \<Rightarrow> update_dev s1 q (\<lambda>d. device_unlock_write lockdown d magic)
          | _ \<Rightarrow> Some s1 }"

definition partition_lock_write :: "'h io \<Rightarrow> nat \<Rightarrow> 'h io option" where
  "partition_lock_write s p =
     do { d \<leftarrow> devs s p;
          s1 \<leftarrow> update_dev s p device_lock_write;
          case d_class d of
            Partition (Some q) _ _ _ \<Rightarrow> update_dev s1 q device_lock_write
          | _ \<Rightarrow> Some s1 }"

section \<open>Block transfers\<close>

text \<open>The result of a read is the data, of a write whether it succeeded.\<close>

partial_function (option) read_block ::
  "'h block_read \<Rightarrow> 'h io \<Rightarrow> nat \<Rightarrow> u64 \<Rightarrow> u32 \<Rightarrow> ('h io \<times> u8 list option) option" where
  "read_block rd s p lba cnt =
     do { d \<leftarrow> devs s p;
          case d_class d of
            Plain \<Rightarrow> Some (s, None)
          | Driver _ \<Rightarrow> (let (h, r) = rd (hw s) p lba cnt in Some (s\<lparr>hw := h\<rparr>, r))
          | Partition par start n _ \<Rightarrow>
              if lba + ucast cnt < lba then Some (s, None)
              else if lba + ucast cnt > n then Some (s, None)
              else do { q \<leftarrow> par; read_block rd s q (start + lba) cnt } }"

partial_function (option) write_block ::
  "'h block_write \<Rightarrow> 'h io \<Rightarrow> nat \<Rightarrow> u64 \<Rightarrow> u32 \<Rightarrow> u8 list \<Rightarrow> ('h io \<times> bool) option" where
  "write_block wr s p lba cnt data =
     do { d \<leftarrow> devs s p;
          case d_class d of
            Plain \<Rightarrow> Some (s, False)
          | Driver _ \<Rightarrow> (let (h, ok) = wr (hw s) p lba cnt data in Some (s\<lparr>hw := h\<rparr>, ok))
          | Partition par start n _ \<Rightarrow>
              if write_protected d then Some (s, False)
              else if lba + ucast cnt < lba then Some (s, False)
              else if lba + ucast cnt > n then Some (s, False)
              else do { q \<leftarrow> par; write_block wr s q (start + lba) cnt data } }"

text \<open>
  The vectored transfers of the base class, one block transfer per vector. A vector of a read is its size in bytes,
  of a write its contents. The result is the number of blocks, 0 for a failure, and the data read so far.
\<close>

fun device_read_loop ::
  "'h block_read \<Rightarrow> 'h io \<Rightarrow> nat \<Rightarrow> u32 \<Rightarrow> u64 \<Rightarrow> nat \<Rightarrow> nat list \<Rightarrow> ('h io \<times> nat \<times> u8 list list) option" where
  "device_read_loop rd s p bs lba tot [] = Some (s, tot, [])"
| "device_read_loop rd s p bs lba tot (sz # vs) =
     (if sz = 0 \<or> sz mod unat bs \<noteq> 0 then Some (s, 0, [])
      else do {
        let cnt = of_nat (sz div unat bs);
        (s1, r) \<leftarrow> read_block rd s p lba cnt;
        case r of
          None \<Rightarrow> Some (s1, 0, [])
        | Some data \<Rightarrow> do {
            (s2, t, ds) \<leftarrow> device_read_loop rd s1 p bs (lba + ucast cnt) (tot + unat cnt) vs;
            Some (s2, t, data # ds) } })"

definition device_read_vector ::
  "'h block_read \<Rightarrow> 'h io \<Rightarrow> nat \<Rightarrow> u64 \<Rightarrow> nat list \<Rightarrow> ('h io \<times> nat \<times> u8 list list) option" where
  "device_read_vector rd s p lba vs =
     do { bs \<leftarrow> get_block_size (devs s) p;
          if bs = 0 then Some (s, 0, []) else device_read_loop rd s p bs lba 0 vs }"

fun device_write_loop ::
  "'h block_write \<Rightarrow> 'h io \<Rightarrow> nat \<Rightarrow> u32 \<Rightarrow> u64 \<Rightarrow> nat \<Rightarrow> u8 list list \<Rightarrow> ('h io \<times> nat) option" where
  "device_write_loop wr s p bs lba tot [] = Some (s, tot)"
| "device_write_loop wr s p bs lba tot (v # vs) =
     (if v = [] \<or> length v mod unat bs \<noteq> 0 then Some (s, 0)
      else do {
        let cnt = of_nat (length v div unat bs);
        (s1, ok) \<leftarrow> write_block wr s p lba cnt v;
        if \<not> ok then Some (s1, 0)
        else device_write_loop wr s1 p bs (lba + ucast cnt) (tot + unat cnt) vs })"

definition device_write_vector ::
  "'h block_write \<Rightarrow> 'h io \<Rightarrow> nat \<Rightarrow> u64 \<Rightarrow> u8 list list \<Rightarrow> ('h io \<times> nat) option" where
  "device_write_vector wr s p lba vs =
     do { d \<leftarrow> devs s p;
          if write_protected d then Some (s, 0)
          else do {
            bs \<leftarrow> get_block_size (devs s) p;
            if bs = 0 then Some (s, 0) else device_write_loop wr s p bs lba 0 vs } }"

text \<open>
  The vectored transfers of a partition check the range and pass the vectors on to the parent, whose own version
  (\<open>prv\<close>, \<open>pwv\<close>) a driver may have overridden.
\<close>

definition total_blocks :: "u32 \<Rightarrow> nat list \<Rightarrow> u32" where
  "total_blocks bs sizes = foldl (\<lambda>t sz. t + of_nat (sz div unat bs)) 0 sizes"

definition partition_read_vector ::
  "('h io \<Rightarrow> nat \<Rightarrow> u64 \<Rightarrow> nat list \<Rightarrow> ('h io \<times> nat \<times> u8 list list) option) \<Rightarrow>
   'h io \<Rightarrow> nat \<Rightarrow> u64 \<Rightarrow> nat list \<Rightarrow> ('h io \<times> nat \<times> u8 list list) option" where
  "partition_read_vector prv s p lba vs =
     do { d \<leftarrow> devs s p;
          bs \<leftarrow> get_block_size (devs s) p;
          case d_class d of
            Partition par start n _ \<Rightarrow>
              (let tot = ucast (total_blocks bs vs)
               in if bs = 0 then Some (s, 0, [])
                  else if lba + tot < lba then Some (s, 0, [])
                  else if lba + tot > n then Some (s, 0, [])
                  else do { q \<leftarrow> par; prv s q (start + lba) vs })
          | _ \<Rightarrow> None }"

definition partition_write_vector ::
  "('h io \<Rightarrow> nat \<Rightarrow> u64 \<Rightarrow> u8 list list \<Rightarrow> ('h io \<times> nat) option) \<Rightarrow>
   'h io \<Rightarrow> nat \<Rightarrow> u64 \<Rightarrow> u8 list list \<Rightarrow> ('h io \<times> nat) option" where
  "partition_write_vector pwv s p lba vs =
     do { d \<leftarrow> devs s p;
          if write_protected d then Some (s, 0)
          else do {
            bs \<leftarrow> get_block_size (devs s) p;
            case d_class d of
              Partition par start n _ \<Rightarrow>
                (let tot = ucast (total_blocks bs (map length vs))
                 in if bs = 0 then Some (s, 0)
                    else if lba + tot < lba then Some (s, 0)
                    else if lba + tot > n then Some (s, 0)
                    else do { q \<leftarrow> par; pwv s q (start + lba) vs })
            | _ \<Rightarrow> None } }"

section \<open>What the drivers promise\<close>

text \<open>
  The contents of the disks are a function of the hardware state, sector by sector. A read does not change them and,
  when it succeeds, returns the sectors; a write that succeeds changes exactly its sectors, one that fails changes
  nothing.
\<close>

definition driver_contract ::
  "('h \<Rightarrow> nat \<Rightarrow> u64 \<Rightarrow> u8 list) \<Rightarrow> 'h block_read \<Rightarrow> 'h block_write \<Rightarrow> bool" where
  "driver_contract content rd wr \<longleftrightarrow>
     (\<forall>h p lba n h' r. rd h p lba n = (h', r) \<longrightarrow> content h' = content h
        \<and> (\<forall>data. r = Some data \<longrightarrow> data = concat (map (\<lambda>i. content h p (lba + of_nat i)) [0..<unat n])))
   \<and> (\<forall>h p lba n data h' ok. wr h p lba n data = (h', ok) \<longrightarrow>
        (if ok then length data = 512 * unat n \<longrightarrow>
                (\<forall>q x. content h' q x = (if q = p \<and> unat (x - lba) < unat n
                                         then take 512 (drop (512 * unat (x - lba)) data) else content h q x))
         else content h' = content h))"

text \<open>Where the sectors of a device are: the disk, the first sector and the number of sectors.\<close>

definition on_disk :: "(nat \<Rightarrow> device option) \<Rightarrow> nat \<Rightarrow> (nat \<times> u64 \<times> nat) option" where
  "on_disk ds p =
     (case ds p of
        None \<Rightarrow> None
      | Some d \<Rightarrow> (case d_class d of
          Plain \<Rightarrow> None
        | Driver bs \<Rightarrow> if bs = 512 then Some (p, 0, 2 ^ 64) else None
        | Partition None _ _ _ \<Rightarrow> None
        | Partition (Some q) a n _ \<Rightarrow>
            (case ds q of
               None \<Rightarrow> None
             | Some e \<Rightarrow> if d_class e = Driver 512 \<and> unat a + unat n \<le> 2 ^ 64 then Some (q, a, unat n) else None)))"

definition place :: "(nat \<Rightarrow> device option) \<Rightarrow> nat \<Rightarrow> u64 \<Rightarrow> (nat \<times> u64) option" where
  "place ds p x =
     (case on_disk ds p of None \<Rightarrow> None | Some (q, a, n) \<Rightarrow> if unat x < n then Some (q, a + x) else None)"

definition sector :: "('h \<Rightarrow> nat \<Rightarrow> u64 \<Rightarrow> u8 list) \<Rightarrow> 'h io \<Rightarrow> nat \<Rightarrow> u64 \<Rightarrow> u8 list" where
  "sector content s p x = (case place (devs s) p x of None \<Rightarrow> [] | Some (q, y) \<Rightarrow> content (hw s) q y)"

lemma unat_ucast_u64: "unat (ucast (x :: u32) :: u64) = unat x"
proof -
  have "unat x < 2 ^ 64" using unsigned_less[of x, where 'a = nat] by simp
  then show ?thesis by (simp add: unsigned_ucast_eq take_bit_nat_eq_self)
qed

lemma range_check:
  fixes lba n :: u64 and cnt :: u32
  shows "(lba + ucast cnt < lba \<or> lba + ucast cnt > n) \<longleftrightarrow> unat n < unat lba + unat cnt"
proof (cases "unat lba + unat cnt < 2 ^ 64")
  case True
  then have "unat (lba + ucast cnt) = unat lba + unat cnt" by (simp add: unat_plus_no_overflow unat_ucast_u64)
  then show ?thesis by (auto simp: word_less_nat_alt)
next
  case False
  have c: "unat (ucast cnt :: u64) = unat cnt" by (simp add: unat_ucast_u64)
  have "lba + ucast cnt < lba" using False word_add_wraps_iff[of lba "ucast cnt"] c by simp
  moreover have "unat n < unat lba + unat cnt" using False unsigned_less[of n, where 'a = nat] by simp
  ultimately show ?thesis by simp
qed

lemma on_disk_cases:
  assumes "on_disk (devs s) p = Some (q, a, n)"
  obtains d where "devs s p = Some d" "d_class d = Driver 512" "q = p" "a = 0" "n = 2 ^ 64"
  | d e m g where "devs s p = Some d" "d_class d = Partition (Some q) a m g" "n = unat m" "unat a + n \<le> 2 ^ 64"
      "devs s q = Some e" "d_class e = Driver 512"
  using assms by (auto simp: on_disk_def split: option.splits device_class.splits if_splits)

lemma place_within:
  assumes "on_disk ds p = Some (q, a, n)" and "n = 2 ^ 64 \<or> unat lba + k \<le> n \<and> n \<le> 2 ^ 64" and "i < k"
  shows "place ds p (lba + of_nat i) = Some (q, a + (lba + of_nat i))"
proof -
  have "unat (lba + of_nat i) < n"
  proof (cases "n = 2 ^ 64")
    case True
    then show ?thesis using unsigned_less[of "lba + of_nat i", where 'a = nat] by simp
  next
    case False
    then have b: "unat lba + i < 2 ^ 64" "unat lba + i < n" using assms(2,3) by linarith+
    then have "unat (lba + of_nat i) = unat lba + i" by (simp add: unat_plus_no_overflow unat_of_nat)
    then show ?thesis using b(2) by simp
  qed
  then show ?thesis using assms(1) by (simp add: place_def)
qed

lemma contractD:
  assumes "driver_contract content rd wr"
  shows "rd h p lba n = (h', r) \<Longrightarrow> content h' = content h"
    "rd h p lba n = (h', Some data) \<Longrightarrow> data = concat (map (\<lambda>i. content h p (lba + of_nat i)) [0..<unat n])"
    "wr h p lba n data = (h', False) \<Longrightarrow> content h' = content h"
    "wr h p lba n data = (h', True) \<Longrightarrow> length data = 512 * unat n \<Longrightarrow> content h' q x =
      (if q = p \<and> unat (x - lba) < unat n then take 512 (drop (512 * unat (x - lba)) data) else content h q x)"
  using assms unfolding driver_contract_def by (blast, blast, metis, metis)

lemma read_block_spec:
  assumes c: "driver_contract content rd wr" and p: "on_disk (devs s) p = Some (q, a, n)"
  shows "\<exists>h r. read_block rd s p lba cnt = Some (s\<lparr>hw := h\<rparr>, r) \<and> content h = content (hw s)
    \<and> (\<forall>data. r = Some data \<longrightarrow> data = concat (map (\<lambda>i. sector content s p (lba + of_nat i)) [0..<unat cnt])
          \<and> (\<forall>i < unat cnt. place (devs s) p (lba + of_nat i) = Some (q, a + (lba + of_nat i))))"
proof -
  have fin: ?thesis if r: "rd (hw s) q (a + lba) cnt = (h, r)" "read_block rd s p lba cnt = Some (s\<lparr>hw := h\<rparr>, r)"
    and b: "n = 2 ^ 64 \<or> unat lba + unat cnt \<le> n \<and> n \<le> 2 ^ 64" for h r
  proof -
    have pl: "\<forall>i < unat cnt. place (devs s) p (lba + of_nat i) = Some (q, a + (lba + of_nat i))" using place_within[OF p b] by blast
    have e: "map (\<lambda>i. content (hw s) q (a + lba + of_nat i)) [0..<unat cnt] = map (\<lambda>i. sector content s p (lba + of_nat i)) [0..<unat cnt]"
      using pl by (auto simp: sector_def add.assoc)
    have "data = concat (map (\<lambda>i. sector content s p (lba + of_nat i)) [0..<unat cnt])" if "r = Some data" for data
      using contractD(2)[OF c, of "hw s" q "a + lba" cnt h data] r(1) that unfolding e by simp
    then show ?thesis using r(2) contractD(1)[OF c r(1)] pl by blast
  qed
  from p show ?thesis
  proof (cases rule: on_disk_cases)
    case (1 d)
    obtain h r where r: "rd (hw s) p lba cnt = (h, r)" by fastforce
    have "read_block rd s p lba cnt = Some (s\<lparr>hw := h\<rparr>, r)" using 1 r by (subst read_block.simps) simp
    then show ?thesis using fin[of h r] r 1 by simp
  next
    case (2 d e m g)
    show ?thesis
    proof (cases "lba + ucast cnt < lba \<or> lba + ucast cnt > m")
      case True
      have "read_block rd s p lba cnt = Some (s\<lparr>hw := hw s\<rparr>, None)" using 2(1,2) True by (subst read_block.simps) auto
      then show ?thesis by blast
    next
      case False
      then have b: "unat lba + unat cnt \<le> n" "n \<le> 2 ^ 64" using range_check[of lba cnt m] 2(3) unsigned_less[of m, where 'a = nat] by simp_all
      obtain h r where r: "rd (hw s) q (a + lba) cnt = (h, r)" by fastforce
      have q: "read_block rd s q (a + lba) cnt = Some (s\<lparr>hw := h\<rparr>, r)" using 2(5,6) r by (subst read_block.simps) simp
      have "read_block rd s p lba cnt = Some (s\<lparr>hw := h\<rparr>, r)" using 2(1,2) False q by (subst read_block.simps) simp
      then show ?thesis using fin[of h r] r b by blast
    qed
  qed
qed

lemma write_block_spec:
  assumes c: "driver_contract content rd wr" and p: "on_disk (devs s) p = Some (q, a, n)" and len: "length data = 512 * unat cnt"
  shows "\<exists>h ok. write_block wr s p lba cnt data = Some (s\<lparr>hw := h\<rparr>, ok)
    \<and> (if ok then (\<forall>i < unat cnt. place (devs s) p (lba + of_nat i) = Some (q, a + (lba + of_nat i)))
          \<and> (\<forall>r y. content h r y = (if r = q \<and> unat (y - (a + lba)) < unat cnt
                then take 512 (drop (512 * unat (y - (a + lba))) data) else content (hw s) r y))
       else content h = content (hw s))"
  using p
proof (cases rule: on_disk_cases)
  case (1 d)
  obtain h ok where r: "wr (hw s) p lba cnt data = (h, ok)" by fastforce
  have w: "write_block wr s p lba cnt data = Some (s\<lparr>hw := h\<rparr>, ok)" using 1 r by (subst write_block.simps) simp
  have "place (devs s) p (lba + of_nat i) = Some (q, a + (lba + of_nat i))" if "i < unat cnt" for i
    using place_within[OF p _ that] 1(5) by blast
  then show ?thesis using w r contractD(3)[OF c, of "hw s" p lba cnt data h] contractD(4)[OF c, of "hw s" p lba cnt data h] len 1(3,4)
    by (intro exI[of _ h] exI[of _ ok] conjI w) (cases ok; simp)
next
  case (2 d e m g)
  show ?thesis
  proof (cases "write_protected d \<or> lba + ucast cnt < lba \<or> lba + ucast cnt > m")
    case True
    then show ?thesis using 2 by (subst write_block.simps) (auto intro!: exI[of _ "hw s"])
  next
    case False
    then have b: "unat lba + unat cnt \<le> n" "n \<le> 2 ^ 64" using range_check[of lba cnt m] 2(3) unsigned_less[of m, where 'a = nat] by simp_all
    obtain h ok where r: "wr (hw s) q (a + lba) cnt data = (h, ok)" by fastforce
    have q: "write_block wr s q (a + lba) cnt data = Some (s\<lparr>hw := h\<rparr>, ok)" using 2(5,6) r by (subst write_block.simps) simp
    have w: "write_block wr s p lba cnt data = Some (s\<lparr>hw := h\<rparr>, ok)" using 2(1,2) False q by (subst write_block.simps) simp
    have "place (devs s) p (lba + of_nat i) = Some (q, a + (lba + of_nat i))" if "i < unat cnt" for i
      using place_within[OF p _ that] b by blast
    then show ?thesis using w r contractD(3)[OF c, of "hw s" q "a + lba" cnt data h] contractD(4)[OF c, of "hw s" q "a + lba" cnt data h] len
      by (intro exI[of _ h] exI[of _ ok] conjI w) (cases ok; simp)
  qed
qed

section \<open>Properties\<close>

text \<open>
  \<^bold>\<open>C11.\<close> A partition confines its transfers: given drivers that keep their contract, a transfer that leaves the partition's
  range is refused without effect, also when its end wraps around 64 bits, and so is a write to a protected partition;
  a read returns the sectors of the parent disk shifted by the partition's start; and whatever a write does, the only
  sectors it can change are those of the partition.
\<close>

theorem partition_confined:
  assumes "driver_contract content rd wr" and "devs s p = Some d" and "d_class d = Partition (Some q) a n g"
    and "devs s q = Some e" and "d_class e = Driver 512" and "unat a + unat n \<le> 2 ^ 64" and "length data = 512 * unat cnt"
  shows "(unat n < unat lba + unat cnt \<longrightarrow> read_block rd s p lba cnt = Some (s, None) \<and> write_block wr s p lba cnt data = Some (s, False))
    \<and> (write_protected d \<longrightarrow> write_block wr s p lba cnt data = Some (s, False))
    \<and> (\<exists>s' r. read_block rd s p lba cnt = Some (s', r) \<and> content (hw s') = content (hw s)
        \<and> (\<forall>bytes. r = Some bytes \<longrightarrow> bytes = concat (map (\<lambda>i. content (hw s) q (a + lba + of_nat i)) [0..<unat cnt])))
    \<and> (\<exists>s' ok. write_block wr s p lba cnt data = Some (s', ok)
        \<and> (\<forall>r y. content (hw s') r y \<noteq> content (hw s) r y \<longrightarrow> r = q \<and> unat a \<le> unat y \<and> unat y < unat a + unat n))"
proof -
  have p: "on_disk (devs s) p = Some (q, a, unat n)" using assms(2-6) by (simp add: on_disk_def)
  have out: "read_block rd s p lba cnt = Some (s, None) \<and> write_block wr s p lba cnt data = Some (s, False)"
    if "unat n < unat lba + unat cnt"
  proof -
    have o: "lba + ucast cnt < lba \<or> lba + ucast cnt > n" using that range_check by blast
    have "read_block rd s p lba cnt = Some (s, None)" using assms(2,3) o by (subst read_block.simps) auto
    moreover have "write_block wr s p lba cnt data = Some (s, False)" using assms(2,3) o by (subst write_block.simps) auto
    ultimately show ?thesis by simp
  qed
  have prot: "write_block wr s p lba cnt data = Some (s, False)" if "write_protected d"
    using assms(2,3) that by (subst write_block.simps) simp
  obtain h r where rd: "read_block rd s p lba cnt = Some (s\<lparr>hw := h\<rparr>, r)" "content h = content (hw s)"
    "\<forall>bytes. r = Some bytes \<longrightarrow> bytes = concat (map (\<lambda>i. sector content s p (lba + of_nat i)) [0..<unat cnt])"
    using read_block_spec[OF assms(1) p, of lba cnt] by blast
  have bytes: "bytes = concat (map (\<lambda>i. content (hw s) q (a + lba + of_nat i)) [0..<unat cnt])" if "r = Some bytes" for bytes
  proof -
    have "unat lba + unat cnt \<le> unat n" using out rd(1) that by (metis Pair_inject not_le option.distinct(1) option.inject)
    then have e: "map (\<lambda>i. sector content s p (lba + of_nat i)) [0..<unat cnt] = map (\<lambda>i. content (hw s) q (a + lba + of_nat i)) [0..<unat cnt]"
      using place_within[OF p, of lba "unat cnt"] assms(6) by (auto simp: sector_def add.assoc)
    show ?thesis using rd(3) that unfolding e by blast
  qed
  obtain h' ok where w: "write_block wr s p lba cnt data = Some (s\<lparr>hw := h'\<rparr>, ok)"
    "if ok then (\<forall>i < unat cnt. place (devs s) p (lba + of_nat i) = Some (q, a + (lba + of_nat i)))
          \<and> (\<forall>r y. content h' r y = (if r = q \<and> unat (y - (a + lba)) < unat cnt
                then take 512 (drop (512 * unat (y - (a + lba))) data) else content (hw s) r y))
       else content h' = content (hw s)" using write_block_spec[OF assms(1) p assms(7)] by blast
  have conf: "r = q \<and> unat a \<le> unat y \<and> unat y < unat a + unat n" if ch: "content h' r y \<noteq> content (hw s) r y" for r y
  proof -
    have ok: "ok" "r = q" "unat (y - (a + lba)) < unat cnt" using w(2) ch by (auto split: if_splits)
    let ?i = "unat (y - (a + lba))"
    have "place (devs s) p (lba + of_nat ?i) = Some (q, a + (lba + of_nat ?i))" using w(2) ok(1,3) by auto
    then have lt: "unat (lba + of_nat ?i) < unat n" using p by (simp add: place_def split: if_splits)
    have y: "y = a + (lba + of_nat ?i)" by simp
    have "unat y = unat a + unat (lba + of_nat ?i)"
      unfolding y[symmetric] using lt assms(6) by (subst y) (rule unat_plus_no_overflow, simp)
    then show ?thesis using ok(2) lt by simp
  qed
  show ?thesis using out prot rd(1,2) bytes w(1) conf
    by (intro conjI impI) (blast, blast, blast, (intro exI[of _ "s\<lparr>hw := h\<rparr>"] exI[of _ r], simp), (intro exI[of _ "s\<lparr>hw := h'\<rparr>"] exI[of _ ok], simp))
qed

text \<open>A hardware that holds the sectors of all disks and always succeeds, within their contract.\<close>

definition ideal_read :: "(nat \<Rightarrow> u64 \<Rightarrow> u8 list) block_read" where
  "ideal_read h p lba n = (h, Some (concat (map (\<lambda>i. h p (lba + of_nat i)) [0..<unat n])))"

definition ideal_write :: "(nat \<Rightarrow> u64 \<Rightarrow> u8 list) block_write" where
  "ideal_write h p lba n data =
     (h(p := \<lambda>x. if unat (x - lba) < unat n then take 512 (drop (512 * unat (x - lba)) data) else h p x), True)"

lemma ideal_contract: "driver_contract (\<lambda>h. h) ideal_read ideal_write"
  by (simp add: driver_contract_def ideal_read_def ideal_write_def)

definition example_io :: "(nat \<Rightarrow> u64 \<Rightarrow> u8 list) io" where
  "example_io = \<lparr>hw = (\<lambda>_ _. replicate 512 0),
     devs = [1 \<mapsto> device_new ''disk0'' DEV_BLOCK (Driver 512), 2 \<mapsto> (partition_new ''disk0p1'' (Some 1) 100 149)\<lparr>write_protected := False\<rparr>]\<rparr>"

theorem partition_confined_witness:
  "\<exists>s' ok. write_block ideal_write example_io 2 7 1 (replicate 512 1) = Some (s', ok)
    \<and> (\<forall>r y. hw s' r y \<noteq> hw example_io r y \<longrightarrow> r = 1 \<and> unat (100 :: u64) \<le> unat y \<and> unat y < unat (100 :: u64) + unat (50 :: u64))"
proof -
  obtain d where d: "devs example_io 2 = Some d" "d_class d = Partition (Some 1) 100 50 []"
    by (simp add: example_io_def partition_new_def device_new_def device_set_name_def device_set_model_def Let_def)
  obtain e where e: "devs example_io 1 = Some e" "d_class e = Driver 512"
    by (simp add: example_io_def device_new_def device_set_name_def device_set_model_def)
  show ?thesis using partition_confined[OF ideal_contract d e, where lba = 7 and cnt = 1 and data = "replicate 512 1"] by simp
qed

end
