(* ===== verification/Disk_Cache.thy ===== *)
theory Disk_Cache
  imports Block_Device
begin

text \<open>
  The disk cache of \<open>src/system/disk/cache.cpp\<close>: 256 sets of four lines, each a sector of a device. The sets are locked
  one at a time and each call is atomic here. The parameters of an operation are the driver functions, the page tables
  (\<open>phys\<close>), whether the bounce buffer can be allocated (\<open>mem\<close>) and the timer (\<open>now\<close>). The contents of the caller's
  buffer are lists of bytes, its address is \<open>buf\<close>.
\<close>

section \<open>Lines and sets\<close>

record cache_entry =
  ce_lba :: u64
  ce_dev :: nat
  ce_data :: "u8 list"
  ce_valid :: bool
  ce_last :: u64

type_synonym cache = "cache_entry list list"

abbreviation (input) CACHE_SETS :: nat where "CACHE_SETS \<equiv> 256"
abbreviation (input) CACHE_WAYS :: nat where "CACHE_WAYS \<equiv> 4"

fun hash_bytes :: "nat \<Rightarrow> u32 \<Rightarrow> u64 \<Rightarrow> u32" where
  "hash_bytes 0 h v = h"
| "hash_bytes (Suc n) h v = hash_bytes n ((h XOR ucast (v AND 0xFF)) * 16777619) (drop_bit 8 v)"

definition cache_hash :: "nat \<Rightarrow> u64 \<Rightarrow> nat" where
  "cache_hash dev lba = unat (hash_bytes 8 (hash_bytes 8 2166136261 (of_nat dev)) lba AND (of_nat CACHE_SETS - 1))"

definition cache_init :: "cache \<Rightarrow> cache" where
  "cache_init c = map (map (\<lambda>e. e\<lparr>ce_valid := False, ce_last := 0\<rparr>)) c"

definition line_for :: "nat \<Rightarrow> u64 \<Rightarrow> cache_entry \<Rightarrow> bool" where
  "line_for dev lba e = (ce_valid e \<and> ce_dev e = dev \<and> ce_lba e = lba)"

fun find_way :: "nat \<Rightarrow> u64 \<Rightarrow> nat \<Rightarrow> cache_entry list \<Rightarrow> nat option" where
  "find_way dev lba w [] = None"
| "find_way dev lba w (e # es) = (if line_for dev lba e then Some w else find_way dev lba (Suc w) es)"

text \<open>The first invalid line, otherwise the least recently used one.\<close>

fun victim_loop :: "cache_entry list \<Rightarrow> nat \<Rightarrow> nat \<Rightarrow> u64 \<Rightarrow> nat" where
  "victim_loop [] w victim oldest = victim"
| "victim_loop (e # es) w victim oldest =
     (if \<not> ce_valid e then w
      else if ce_last e < oldest then victim_loop es (Suc w) w (ce_last e)
      else victim_loop es (Suc w) victim oldest)"

definition victim_way :: "cache_entry list \<Rightarrow> nat" where
  "victim_way ways = victim_loop ways 0 0 0xFFFFFFFFFFFFFFFF"

definition fill_line :: "cache \<Rightarrow> nat \<Rightarrow> u64 \<Rightarrow> u8 list \<Rightarrow> u64 \<Rightarrow> cache" where
  "fill_line c dev lba data now =
     (let idx = cache_hash dev lba; ways = c ! idx
      in c[idx := ways[victim_way ways :=
            \<lparr>ce_lba = lba, ce_dev = dev, ce_data = data, ce_valid = True, ce_last = now\<rparr>]])"

text \<open>A sector's memory is unmapped: its first byte, or its last one when that is on another page.\<close>

definition unmapped :: "(u64 \<Rightarrow> u64) \<Rightarrow> u64 \<Rightarrow> bool" where
  "unmapped phys a =
     (phys a = 0 \<or> (a AND NOT 0xFFF) \<noteq> ((a + 511) AND NOT 0xFFF) \<and> phys (a + 511) = 0)"

definition bypass :: "u32 \<Rightarrow> u32 \<Rightarrow> u64 \<Rightarrow> bool" where
  "bypass bs cnt buf = (bs \<noteq> 512 \<or> cnt > 1 \<or> (buf AND 0x1FF) \<noteq> 0)"

section \<open>Reading and writing\<close>

fun cache_read_loop ::
  "'h block_read \<Rightarrow> (u64 \<Rightarrow> u64) \<Rightarrow> bool \<Rightarrow> u64 \<Rightarrow> 'h io \<Rightarrow> cache \<Rightarrow> nat \<Rightarrow> u64 \<Rightarrow> u64 \<Rightarrow> bool \<Rightarrow> nat \<Rightarrow> nat \<Rightarrow> u8 list \<Rightarrow>
   ('h io \<times> cache \<times> u8 list option) option" where
  "cache_read_loop rd phys mem now s c dev lba buf bounce i 0 acc = Some (s, c, Some acc)"
| "cache_read_loop rd phys mem now s c dev lba buf bounce i (Suc n) acc =
     (let cur = lba + of_nat i; idx = cache_hash dev cur; ways = c ! idx; addr = buf + of_nat i * 512
      in case find_way dev cur 0 ways of
           Some w \<Rightarrow>
             (let c1 = c[idx := ways[w := (ways ! w)\<lparr>ce_last := now\<rparr>]]
              in if unmapped phys addr then Some (s, c1, None)
                 else cache_read_loop rd phys mem now s c1 dev lba buf bounce (Suc i) n (acc @ ce_data (ways ! w)))
         | None \<Rightarrow>
             if \<not> bounce \<and> \<not> mem then Some (s, c, None)
             else do {
               (s1, r) \<leftarrow> read_block rd s dev cur 1;
               case r of
                 None \<Rightarrow> Some (s1, c, None)
               | Some data \<Rightarrow>
                   if unmapped phys addr then Some (s1, c, None)
                   else cache_read_loop rd phys mem now s1 (fill_line c dev cur data now) dev lba buf True (Suc i) n (acc @ data) })"

definition cache_read_block ::
  "'h block_read \<Rightarrow> (u64 \<Rightarrow> u64) \<Rightarrow> bool \<Rightarrow> u64 \<Rightarrow> 'h io \<Rightarrow> cache \<Rightarrow> nat \<Rightarrow> u64 \<Rightarrow> u32 \<Rightarrow> u64 \<Rightarrow>
   ('h io \<times> cache \<times> u8 list option) option" where
  "cache_read_block rd phys mem now s c dev lba cnt buf =
     do { bs \<leftarrow> get_block_size (devs s) dev;
          if bypass bs cnt buf
          then do { (s1, r) \<leftarrow> read_block rd s dev lba cnt; Some (s1, c, r) }
          else cache_read_loop rd phys mem now s c dev lba buf False 0 (unat cnt) [] }"

definition invalidate_line :: "cache \<Rightarrow> nat \<Rightarrow> u64 \<Rightarrow> cache" where
  "invalidate_line c dev lba =
     (let idx = cache_hash dev lba
      in c[idx := map (\<lambda>e. if line_for dev lba e then e\<lparr>ce_valid := False\<rparr> else e) (c ! idx)])"

fun invalidate_range :: "cache \<Rightarrow> nat \<Rightarrow> u64 \<Rightarrow> nat \<Rightarrow> nat \<Rightarrow> cache" where
  "invalidate_range c dev lba i 0 = c"
| "invalidate_range c dev lba i (Suc n) = invalidate_range (invalidate_line c dev (lba + of_nat i)) dev lba (Suc i) n"

fun cache_write_loop ::
  "'h block_write \<Rightarrow> (u64 \<Rightarrow> u64) \<Rightarrow> bool \<Rightarrow> u64 \<Rightarrow> 'h io \<Rightarrow> cache \<Rightarrow> nat \<Rightarrow> u64 \<Rightarrow> u64 \<Rightarrow> bool \<Rightarrow> u8 list \<Rightarrow> nat \<Rightarrow> nat \<Rightarrow>
   ('h io \<times> cache \<times> bool) option" where
  "cache_write_loop wr phys mem now s c dev lba buf bounce data i 0 = Some (s, c, True)"
| "cache_write_loop wr phys mem now s c dev lba buf bounce data i (Suc n) =
     (let cur = lba + of_nat i; idx = cache_hash dev cur; addr = buf + of_nat i * 512;
          chunk = take 512 (drop (512 * i) data)
      in if \<not> bounce \<and> \<not> mem then Some (s, c, False)
         else if unmapped phys addr then Some (s, c, False)
         else do {
           (s1, ok) \<leftarrow> write_block wr s dev cur 1 chunk;
           if \<not> ok then Some (s1, c, False)
           else let ways = c ! idx;
                    c1 = (case find_way dev cur 0 ways of
                            Some w \<Rightarrow> c[idx := ways[w := (ways ! w)\<lparr>ce_last := now, ce_data := chunk\<rparr>]]
                          | None \<Rightarrow> fill_line c dev cur chunk now)
                in cache_write_loop wr phys mem now s1 c1 dev lba buf True data (Suc i) n })"

definition cache_write_block ::
  "'h block_write \<Rightarrow> (u64 \<Rightarrow> u64) \<Rightarrow> bool \<Rightarrow> u64 \<Rightarrow> 'h io \<Rightarrow> cache \<Rightarrow> nat \<Rightarrow> u64 \<Rightarrow> u32 \<Rightarrow> u64 \<Rightarrow> u8 list \<Rightarrow>
   ('h io \<times> cache \<times> bool) option" where
  "cache_write_block wr phys mem now s c dev lba cnt buf data =
     do { bs \<leftarrow> get_block_size (devs s) dev;
          if bypass bs cnt buf
          then do { let c1 = invalidate_range c dev lba 0 (unat cnt);
                    (s1, ok) \<leftarrow> write_block wr s dev lba cnt data;
                    Some (s1, c1, ok) }
          else cache_write_loop wr phys mem now s c dev lba buf False data 0 (unat cnt) }"

text \<open>The vectored operations only check their arguments and call the device.\<close>

definition cache_read_vector ::
  "('h io \<Rightarrow> nat \<Rightarrow> u64 \<Rightarrow> nat list \<Rightarrow> ('h io \<times> nat \<times> u8 list list) option) \<Rightarrow> 'h io \<Rightarrow> nat option \<Rightarrow> u64 \<Rightarrow>
   nat list option \<Rightarrow> ('h io \<times> nat \<times> u8 list list) option" where
  "cache_read_vector rv s dev lba vs =
     (case (dev, vs) of (Some p, Some ss) \<Rightarrow> if ss = [] then Some (s, 0, []) else rv s p lba ss | _ \<Rightarrow> Some (s, 0, []))"

definition cache_write_vector ::
  "('h io \<Rightarrow> nat \<Rightarrow> u64 \<Rightarrow> u8 list list \<Rightarrow> ('h io \<times> nat) option) \<Rightarrow> 'h io \<Rightarrow> nat option \<Rightarrow> u64 \<Rightarrow>
   u8 list list option \<Rightarrow> ('h io \<times> nat) option" where
  "cache_write_vector wv s dev lba vs =
     (case (dev, vs) of (Some p, Some ds) \<Rightarrow> if ds = [] then Some (s, 0) else wv s p lba ds | _ \<Rightarrow> Some (s, 0))"

section \<open>Maintenance\<close>

definition invalidate_device :: "cache \<Rightarrow> nat \<Rightarrow> cache" where
  "invalidate_device c dev = map (map (\<lambda>e. if ce_valid e \<and> ce_dev e = dev then e\<lparr>ce_valid := False\<rparr> else e)) c"

definition flush_all :: "cache \<Rightarrow> cache \<times> nat" where
  "flush_all c =
     (map (map (\<lambda>e. if ce_valid e then e\<lparr>ce_valid := False\<rparr> else e)) c, length (filter ce_valid (concat c)))"

definition get_cache_size :: "cache \<Rightarrow> nat" where
  "get_cache_size c = 512 * length (filter ce_valid (concat c))"

section \<open>Coherence\<close>

text \<open>A set of devices no two of which share a sector.\<close>

definition no_alias :: "(nat \<Rightarrow> device option) \<Rightarrow> nat set \<Rightarrow> bool" where
  "no_alias ds D \<longleftrightarrow> (\<forall>p \<in> D. on_disk ds p \<noteq> None)
     \<and> (\<forall>p \<in> D. \<forall>q \<in> D. \<forall>x y. place ds p x \<noteq> None \<and> place ds p x = place ds q y \<longrightarrow> p = q \<and> x = y)"

text \<open>Every valid line of one of these devices sits in its set and holds what is on the disk.\<close>

definition line_ok :: "('h \<Rightarrow> nat \<Rightarrow> u64 \<Rightarrow> u8 list) \<Rightarrow> nat set \<Rightarrow> 'h io \<Rightarrow> nat \<Rightarrow> cache_entry \<Rightarrow> bool" where
  "line_ok content D s i e \<longleftrightarrow>
     (ce_valid e \<and> ce_dev e \<in> D \<longrightarrow> i = cache_hash (ce_dev e) (ce_lba e) \<and> place (devs s) (ce_dev e) (ce_lba e) \<noteq> None
        \<and> ce_data e = sector content s (ce_dev e) (ce_lba e))"

definition unique_lines :: "cache_entry list \<Rightarrow> bool" where
  "unique_lines ws \<longleftrightarrow> (\<forall>k < length ws. \<forall>l < length ws. \<forall>p x. line_for p x (ws ! k) \<and> line_for p x (ws ! l) \<longrightarrow> k = l)"

definition cache_ok :: "('h \<Rightarrow> nat \<Rightarrow> u64 \<Rightarrow> u8 list) \<Rightarrow> nat set \<Rightarrow> 'h io \<Rightarrow> cache \<Rightarrow> bool" where
  "cache_ok content D s c \<longleftrightarrow> length c = CACHE_SETS
     \<and> (\<forall>i < CACHE_SETS. length (c ! i) = CACHE_WAYS \<and> unique_lines (c ! i) \<and> (\<forall>e \<in> set (c ! i). line_ok content D s i e))"

lemma cache_hash_less: "cache_hash dev lba < CACHE_SETS"
proof -
  have "unat ((x :: u32) AND 255) \<le> 255" for x using word_and_le1[of x 255] by (simp add: word_le_nat_alt)
  from this[of "hash_bytes 8 (hash_bytes 8 2166136261 (of_nat dev)) lba"] show ?thesis unfolding cache_hash_def by simp
qed

lemma find_way_Some: "find_way dev lba w es = Some k \<Longrightarrow> w \<le> k \<and> k - w < length es \<and> line_for dev lba (es ! (k - w))"
proof (induction es arbitrary: w)
  case (Cons e es)
  show ?case
  proof (cases "line_for dev lba e")
    case False
    then have "find_way dev lba (Suc w) es = Some k" using Cons.prems by simp
    note ih = Cons.IH[OF this]
    then have "k - w = Suc (k - Suc w)" by linarith
    then show ?thesis using ih by auto
  qed (use Cons.prems in auto)
qed simp

lemma victim_loop_less: "victim < w + length es \<Longrightarrow> victim_loop es w victim oldest < w + length es"
proof (induction es arbitrary: w victim oldest)
  case (Cons e es)
  show ?case using Cons.IH[of w "Suc w"] Cons.IH[of victim "Suc w"] Cons.prems by simp
qed simp

lemma victim_way_less: "ways \<noteq> [] \<Longrightarrow> victim_way ways < length ways"
  using victim_loop_less[of 0 0 ways] by (simp add: victim_way_def)

lemma cache_okD:
  assumes "cache_ok content D s c"
  shows "length c = CACHE_SETS" "i < CACHE_SETS \<Longrightarrow> length (c ! i) = CACHE_WAYS"
    "i < CACHE_SETS \<Longrightarrow> e \<in> set (c ! i) \<Longrightarrow> line_ok content D s i e" "i < CACHE_SETS \<Longrightarrow> unique_lines (c ! i)"
  using assms unfolding cache_ok_def by blast+

lemma find_way_None: "find_way dev lba w es = None \<Longrightarrow> e \<in> set es \<Longrightarrow> \<not> line_for dev lba e"
  by (induction es arbitrary: w) (auto split: if_splits)

text \<open>Replacing the lines of one set.\<close>

lemma cache_ok_set:
  assumes c: "cache_ok content D s c" and i: "i < CACHE_SETS" and w: "length ws = CACHE_WAYS" "unique_lines ws"
    and e: "\<And>e. e \<in> set ws \<Longrightarrow> line_ok content D s i e"
  shows "cache_ok content D s (c[i := ws])"
  using cache_okD[OF c] i w e unfolding cache_ok_def by (auto simp: nth_list_update)

lemma unique_lines_update:
  assumes "unique_lines ws" and "\<And>l p x. l < length ws \<Longrightarrow> l \<noteq> k \<Longrightarrow> line_for p x e \<Longrightarrow> \<not> line_for p x (ws ! l)"
  shows "unique_lines (ws[k := e])"
  unfolding unique_lines_def
proof (intro allI impI, elim conjE)
  fix m l p x assume m: "m < length (ws[k := e])" and l: "l < length (ws[k := e])"
    and p: "line_for p x (ws[k := e] ! m)" "line_for p x (ws[k := e] ! l)"
  show "m = l"
  proof (cases "m = k \<or> l = k")
    case True
    then show ?thesis using assms(2)[of m p x] assms(2)[of l p x] m l p by (auto simp: nth_list_update split: if_splits)
  next
    case False
    then show ?thesis using assms(1) m l p unfolding unique_lines_def by auto
  qed
qed

lemma cache_ok_line:
  assumes c: "cache_ok content D s c" and i: "i < CACHE_SETS" and e: "line_ok content D s i e"
    and u: "\<And>l p x. l < length (c ! i) \<Longrightarrow> l \<noteq> k \<Longrightarrow> line_for p x e \<Longrightarrow> \<not> line_for p x (c ! i ! l)"
  shows "cache_ok content D s (c[i := (c ! i)[k := e]])"
proof (rule cache_ok_set[OF c i])
  show "length ((c ! i)[k := e]) = CACHE_WAYS" using cache_okD(2)[OF c i] by simp
  show "unique_lines ((c ! i)[k := e])" using unique_lines_update[OF cache_okD(4)[OF c i] u] .
  show "line_ok content D s i f" if "f \<in> set ((c ! i)[k := e])" for f
    using cache_okD(3)[OF c i] e that set_update_subset_insert[of "c ! i" k e] by blast
qed

lemma cache_ok_fill:
  assumes c: "cache_ok content D s c" and n: "find_way p x 0 (c ! cache_hash p x) = None"
    and "p \<in> D \<Longrightarrow> place (devs s) p x \<noteq> None \<and> data = sector content s p x"
  shows "cache_ok content D s (fill_line c p x data now)"
  unfolding fill_line_def Let_def
proof (rule cache_ok_line[OF c cache_hash_less])
  let ?e = "\<lparr>ce_lba = x, ce_dev = p, ce_data = data, ce_valid = True, ce_last = now\<rparr>"
  show "line_ok content D s (cache_hash p x) ?e" using assms(3) by (simp add: line_ok_def)
  fix l q y assume "l < length (c ! cache_hash p x)" and "line_for q y ?e"
  then show "\<not> line_for q y (c ! cache_hash p x ! l)" using find_way_None[OF n nth_mem] by (simp add: line_for_def)
qed

text \<open>Marking lines invalid.\<close>

lemma cache_ok_drop:
  assumes c: "cache_ok content D s c" and i: "i < CACHE_SETS" and f: "\<And>e. f e = e \<or> f e = e\<lparr>ce_valid := False\<rparr>"
  shows "cache_ok content D s (c[i := map f (c ! i)])"
proof (rule cache_ok_set[OF c i])
  have sub: "line_for p x e" if "line_for p x (f e)" for p x e using f[of e] that by (auto simp: line_for_def)
  show "unique_lines (map f (c ! i))" using cache_okD(4)[OF c i] sub unfolding unique_lines_def by (metis length_map nth_map)
  show "line_ok content D s i e" if "e \<in> set (map f (c ! i))" for e
  proof -
    from that obtain g where g: "g \<in> set (c ! i)" "e = f g" by auto
    then show ?thesis using cache_okD(3)[OF c i g(1)] f[of g] by (auto simp: line_ok_def)
  qed
qed (use cache_okD(2)[OF c i] in simp)

lemma cache_ok_invalidate: "cache_ok content D s c \<Longrightarrow> cache_ok content D s (invalidate_line c p x)"
  unfolding invalidate_line_def Let_def by (rule cache_ok_drop[OF _ cache_hash_less]) auto

lemma invalidate_sub:
  assumes "j < length c" and "e \<in> set (invalidate_line c p x ! j)" and "ce_valid e"
  shows "e \<in> set (c ! j) \<and> \<not> (j = cache_hash p x \<and> line_for p x e)"
proof (cases "j = cache_hash p x")
  case True
  then have "e \<in> (\<lambda>e. if line_for p x e then e\<lparr>ce_valid := False\<rparr> else e) ` set (c ! j)"
    using assms(1,2) by (simp add: invalidate_line_def Let_def)
  then show ?thesis using assms(3) by (auto split: if_splits)
next
  case False
  then show ?thesis using assms(2) by (simp add: invalidate_line_def Let_def)
qed

lemma invalidate_gone:
  assumes c: "cache_ok content D s c" and p: "p \<in> D" and j: "j < CACHE_SETS" and e: "e \<in> set (invalidate_line c p x ! j)"
  shows "\<not> line_for p x e"
proof
  assume l: "line_for p x e"
  then have v: "ce_valid e" "ce_dev e = p" "ce_lba e = x" by (simp_all add: line_for_def)
  then have e': "e \<in> set (c ! j)" "j \<noteq> cache_hash p x" using invalidate_sub[OF _ e v(1)] cache_okD(1)[OF c] j l by auto
  then show False using cache_okD(3)[OF c j e'(1)] v p by (simp add: line_ok_def)
qed

lemma invalidate_range_ok:
  "cache_ok content D s c \<Longrightarrow> p \<in> D \<Longrightarrow> cache_ok content D s (invalidate_range c p x i n)
   \<and> (\<forall>j < CACHE_SETS. \<forall>e \<in> set (invalidate_range c p x i n ! j). ce_valid e \<longrightarrow>
        e \<in> set (c ! j) \<and> (\<forall>k < n. \<not> line_for p (x + of_nat (i + k)) e))"
proof (induction n arbitrary: c i)
  case (Suc n)
  let ?c = "invalidate_line c p (x + of_nat i)"
  have ok: "cache_ok content D s ?c" using cache_ok_invalidate[OF Suc.prems(1)] .
  note ih = Suc.IH[OF ok Suc.prems(2), of "Suc i"]
  have "e \<in> set (c ! j) \<and> (\<forall>k < Suc n. \<not> line_for p (x + of_nat (i + k)) e)"
    if j: "j < CACHE_SETS" and e: "e \<in> set (invalidate_range c p x i (Suc n) ! j)" and v: "ce_valid e" for j e
  proof -
    have e1: "e \<in> set (?c ! j)" "\<forall>k < n. \<not> line_for p (x + of_nat (Suc i + k)) e" using ih j e v by auto
    have "\<not> line_for p (x + of_nat i) e" using invalidate_gone[OF Suc.prems(1,2) j e1(1)] .
    then have "\<not> line_for p (x + of_nat (i + k)) e" if "k < Suc n" for k using e1(2) that by (cases k) auto
    then show ?thesis using invalidate_sub[OF _ e1(1) v] cache_okD(1)[OF Suc.prems(1)] j by simp
  qed
  then show ?case using ih by simp
qed simp

text \<open>The hardware changed, but no sector that a valid line stands for.\<close>

lemma cache_ok_hw:
  assumes c: "cache_ok content D s c"
    and same: "\<And>i e. i < CACHE_SETS \<Longrightarrow> e \<in> set (c ! i) \<Longrightarrow> ce_valid e \<Longrightarrow> ce_dev e \<in> D \<Longrightarrow>
      sector content (s\<lparr>hw := h\<rparr>) (ce_dev e) (ce_lba e) = sector content s (ce_dev e) (ce_lba e)"
  shows "cache_ok content D (s\<lparr>hw := h\<rparr>) c"
  unfolding cache_ok_def
proof (intro conjI allI impI ballI)
  fix i e assume i: "i < CACHE_SETS" "e \<in> set (c ! i)"
  show "line_ok content D (s\<lparr>hw := h\<rparr>) i e" using cache_okD(3)[OF c i] same[OF i] by (simp add: line_ok_def)
qed (use cache_okD(1,2,4)[OF c] in auto)

lemma sector_same: "content h = content (hw s) \<Longrightarrow> sector content (s\<lparr>hw := h\<rparr>) p x = sector content s p x"
  by (simp add: sector_def split: option.split)

lemma sector_written:
  assumes p: "place (devs s) p x = Some (q, y)" and w: "\<And>r z. content h r z = (if r = q \<and> z = y then d else content (hw s) r z)"
  shows "sector content (s\<lparr>hw := h\<rparr>) p x = d"
  using p w by (simp add: sector_def)

text \<open>A write changes the sectors of its own range and, without aliasing, of no other device and range.\<close>

lemma write_other_sector:
  assumes na: "no_alias (devs s) D" and pD: "p \<in> D" "d \<in> D"
    and pl: "\<forall>i < n. place (devs s) p (lba + of_nat i) = Some (q, a + (lba + of_nat i))"
    and w: "\<And>r y. \<not> (r = q \<and> unat (y - (a + lba)) < n) \<Longrightarrow> content h r y = content (hw s) r y"
    and o: "\<And>i. i < n \<Longrightarrow> \<not> (d = p \<and> x = lba + of_nat i)"
  shows "sector content (s\<lparr>hw := h\<rparr>) d x = sector content s d x"
proof (cases "place (devs s) d x")
  case (Some ry)
  obtain r y where ry: "ry = (r, y)" by fastforce
  have "\<not> (r = q \<and> unat (y - (a + lba)) < n)"
  proof
    let ?i = "unat (y - (a + lba))"
    assume h: "r = q \<and> ?i < n"
    have "place (devs s) p (lba + of_nat ?i) = Some (q, a + (lba + of_nat ?i))" using pl h by blast
    moreover have "a + (lba + of_nat ?i) = y" by simp
    ultimately have "place (devs s) p (lba + of_nat ?i) = Some (q, y)" by metis
    then have "d = p \<and> x = lba + of_nat ?i" using na pD Some ry h unfolding no_alias_def by (metis option.distinct(1))
    then show False using o h by blast
  qed
  then show ?thesis using Some ry w by (simp add: sector_def)
qed (simp add: sector_def)

lemma block_size_512: "on_disk (devs s) p \<noteq> None \<Longrightarrow> get_block_size (devs s) p = Some 512"
proof -
  assume "on_disk (devs s) p \<noteq> None"
  then obtain q a n where p: "on_disk (devs s) p = Some (q, a, n)" by auto
  then show ?thesis
  proof (cases rule: on_disk_cases)
    case (1 d)
    then show ?thesis by (subst get_block_size.simps) simp
  next
    case (2 d e m g)
    have "get_block_size (devs s) q = Some 512" using 2 by (subst get_block_size.simps) simp
    then show ?thesis using 2 by (subst get_block_size.simps) simp
  qed
qed

lemma cache_read_ok:
  assumes con: "driver_contract content rd wr" and c: "cache_ok content D s c" and na: "no_alias (devs s) D" and p: "p \<in> D"
  shows "\<exists>h c' r. cache_read_block rd phys mem now s c p lba cnt buf = Some (s\<lparr>hw := h\<rparr>, c', r) \<and> content h = content (hw s)
    \<and> cache_ok content D (s\<lparr>hw := h\<rparr>) c' \<and> (\<forall>data. r = Some data \<longrightarrow> data = concat (map (\<lambda>i. sector content s p (lba + of_nat i)) [0..<unat cnt]))"
proof -
  obtain q a n where od: "on_disk (devs s) p = Some (q, a, n)" using na p by (auto simp: no_alias_def)
  have bs: "get_block_size (devs s) p = Some 512" using block_size_512[of s p] od by simp
  have keep: "cache_ok content D (s\<lparr>hw := h\<rparr>) d" if "cache_ok content D s d" "content h = content (hw s)" for h d
    by (rule cache_ok_hw[OF that(1)]) (rule sector_same[OF that(2)])
  show ?thesis
  proof (cases "bypass 512 cnt buf")
    case True
    obtain h r where r: "read_block rd s p lba cnt = Some (s\<lparr>hw := h\<rparr>, r)" "content h = content (hw s)"
      "\<forall>data. r = Some data \<longrightarrow> data = concat (map (\<lambda>i. sector content s p (lba + of_nat i)) [0..<unat cnt])"
      using read_block_spec[OF con od, of lba cnt] by blast
    have "cache_read_block rd phys mem now s c p lba cnt buf = Some (s\<lparr>hw := h\<rparr>, c, r)" using True bs r(1) by (simp add: cache_read_block_def)
    then show ?thesis using r(2,3) keep[OF c r(2)] by blast
  next
    case False
    then have "cnt \<le> 1" by (auto simp: bypass_def)
    then consider "unat cnt = 0" | "unat cnt = 1" by (fastforce simp: word_le_nat_alt)
    then show ?thesis
    proof cases
      case 1
      then show ?thesis using False bs c by (intro exI[of _ "hw s"]) (simp add: cache_read_block_def)
    next
      case 2
      let ?i = "cache_hash p lba" let ?ws = "c ! ?i"
      have e: "cache_read_block rd phys mem now s c p lba cnt buf = cache_read_loop rd phys mem now s c p lba buf False 0 1 []"
        using False bs 2 by (simp add: cache_read_block_def)
      have one: "concat (map (\<lambda>i. sector content s p (lba + of_nat i)) [0..<unat cnt]) = sector content s p lba" using 2 by simp
      show ?thesis
      proof (cases "find_way p lba 0 ?ws")
        case (Some w)
        then have w: "w < length ?ws" "line_for p lba (?ws ! w)" using find_way_Some[OF Some] by simp_all
        have lo: "line_ok content D s ?i (?ws ! w)" using cache_okD(3)[OF c cache_hash_less nth_mem[OF w(1)]] .
        then have d: "ce_data (?ws ! w) = sector content s p lba" using w(2) p by (simp add: line_ok_def line_for_def)
        let ?e = "(?ws ! w)\<lparr>ce_last := now\<rparr>"
        have "cache_ok content D s (c[?i := ?ws[w := ?e]])"
        proof (rule cache_ok_line[OF c cache_hash_less])
          show "line_ok content D s ?i ?e" using lo by (simp add: line_ok_def)
          fix l r y assume l: "l < length ?ws" "l \<noteq> w" "line_for r y ?e"
          then have "line_for r y (?ws ! w)" by (simp add: line_for_def)
          then show "\<not> line_for r y (?ws ! l)" using cache_okD(4)[OF c cache_hash_less] l w(1) unfolding unique_lines_def by blast
        qed
        then show ?thesis unfolding e using Some d one by (intro exI[of _ "hw s"]) (simp add: Let_def)
      next
        case None
        obtain h r where r: "read_block rd s p lba 1 = Some (s\<lparr>hw := h\<rparr>, r)" "content h = content (hw s)"
          "\<And>data. r = Some data \<Longrightarrow> data = sector content s p lba \<and> place (devs s) p lba \<noteq> None"
          using read_block_spec[OF con od, of lba 1] by auto
        have ok: "cache_ok content D (s\<lparr>hw := h\<rparr>) (fill_line c p lba data now)" if "r = Some data" for data
          using keep[OF cache_ok_fill[OF c None] r(2)] r(3)[OF that] by blast
        show ?thesis
        proof (cases "mem \<and> r \<noteq> None \<and> \<not> unmapped phys buf")
          case True
          then obtain data where data: "r = Some data" by blast
          then have "cache_read_block rd phys mem now s c p lba cnt buf = Some (s\<lparr>hw := h\<rparr>, fill_line c p lba data now, Some data)"
            unfolding e using None True r(1) by (simp add: Let_def)
          then show ?thesis using r(2) ok[OF data] r(3)[OF data] one by auto
        next
          case False
          define h' where "h' = (if mem then h else hw s)"
          have h': "content h' = content (hw s)" using r(2) by (simp add: h'_def)
          have "cache_read_block rd phys mem now s c p lba cnt buf = Some (s\<lparr>hw := h'\<rparr>, c, None)"
            unfolding e using None False r(1) by (auto simp: Let_def h'_def split: option.splits)
          then show ?thesis using h' keep[OF c h'] by blast
        qed
      qed
    qed
  qed
qed

lemma device_write_ok:
  assumes con: "driver_contract content rd wr" and na: "no_alias (devs s) D" and p: "p \<in> D" and len: "length data = 512 * unat cnt"
  shows "\<exists>h ok. write_block wr s p lba cnt data = Some (s\<lparr>hw := h\<rparr>, ok)
    \<and> (if ok then (\<forall>i < unat cnt. place (devs s) p (lba + of_nat i) \<noteq> None \<and>
            sector content (s\<lparr>hw := h\<rparr>) p (lba + of_nat i) = take 512 (drop (512 * i) data))
          \<and> (\<forall>d \<in> D. \<forall>x. (\<forall>i < unat cnt. \<not> (d = p \<and> x = lba + of_nat i)) \<longrightarrow> sector content (s\<lparr>hw := h\<rparr>) d x = sector content s d x)
       else content h = content (hw s))"
proof -
  obtain q a n where od: "on_disk (devs s) p = Some (q, a, n)" using na p by (auto simp: no_alias_def)
  obtain h ok where w: "write_block wr s p lba cnt data = Some (s\<lparr>hw := h\<rparr>, ok)"
    "if ok then (\<forall>i < unat cnt. place (devs s) p (lba + of_nat i) = Some (q, a + (lba + of_nat i)))
          \<and> (\<forall>r y. content h r y = (if r = q \<and> unat (y - (a + lba)) < unat cnt
                then take 512 (drop (512 * unat (y - (a + lba))) data) else content (hw s) r y))
       else content h = content (hw s)" using write_block_spec[OF con od len] by blast
  show ?thesis
  proof (cases ok)
    case True
    have pl: "\<forall>i < unat cnt. place (devs s) p (lba + of_nat i) = Some (q, a + (lba + of_nat i))"
      and ch: "\<And>r y. content h r y = (if r = q \<and> unat (y - (a + lba)) < unat cnt
                then take 512 (drop (512 * unat (y - (a + lba))) data) else content (hw s) r y)" using w(2) True by auto
    have mine: "sector content (s\<lparr>hw := h\<rparr>) p (lba + of_nat i) = take 512 (drop (512 * i) data)" if i: "i < unat cnt" for i
    proof -
      have "i < 2 ^ 64" using i unsigned_less[of cnt, where 'a = nat] by simp
      then have u: "unat (a + (lba + of_nat i) - (a + lba)) = i" by (simp add: unat_of_nat)
      show ?thesis using pl i ch[of q "a + (lba + of_nat i)"] unfolding u by (simp add: sector_def)
    qed
    have other: "sector content (s\<lparr>hw := h\<rparr>) d x = sector content s d x"
      if "d \<in> D" "\<forall>i < unat cnt. \<not> (d = p \<and> x = lba + of_nat i)" for d x
      by (rule write_other_sector[where p = p and q = q and a = a and lba = lba and n = "unat cnt", OF na p that(1) pl])
        (use ch that(2) in auto)
    show ?thesis using w(1) True pl mine other by (intro exI[of _ h] exI[of _ ok]) auto
  next
    case False
    then show ?thesis using w by (intro exI[of _ h] exI[of _ ok]) simp
  qed
qed

text \<open>After a successful write of one sector, the line that was found, or a new one, gets the data.\<close>

lemma cached_line_written:
  assumes c: "cache_ok content D s c" and p: "p \<in> D" and pl: "place (devs s) p x \<noteq> None" "sector content (s\<lparr>hw := h\<rparr>) p x = data"
    and o: "\<And>d y. d \<in> D \<Longrightarrow> \<not> (d = p \<and> y = x) \<Longrightarrow> sector content (s\<lparr>hw := h\<rparr>) d y = sector content s d y"
  defines "i \<equiv> cache_hash p x"
  shows "cache_ok content D (s\<lparr>hw := h\<rparr>)
    (case find_way p x 0 (c ! i) of Some w \<Rightarrow> c[i := (c ! i)[w := (c ! i ! w)\<lparr>ce_last := now, ce_data := data\<rparr>]]
     | None \<Rightarrow> fill_line c p x data now)"
proof (cases "find_way p x 0 (c ! i)")
  case None
  have "\<not> line_for p x e" if "j < CACHE_SETS" "e \<in> set (c ! j)" for j e
    using cache_okD(3)[OF c that] find_way_None[OF None] that p unfolding i_def by (auto simp: line_ok_def line_for_def)
  then have "cache_ok content D (s\<lparr>hw := h\<rparr>) c" by (intro cache_ok_hw[OF c] o) (auto simp: line_for_def)
  then show ?thesis using None cache_ok_fill[of content D "s\<lparr>hw := h\<rparr>" c p x data now] pl unfolding i_def by simp
next
  case (Some w)
  let ?ws = "c ! i"
  have i: "i < CACHE_SETS" unfolding i_def by (rule cache_hash_less)
  have w: "w < length ?ws" "line_for p x (?ws ! w)" using find_way_Some[OF Some] by simp_all
  have other: "\<not> line_for p x (?ws ! l)" if "l < length ?ws" "l \<noteq> w" for l
    using cache_okD(4)[OF c i] w that unfolding unique_lines_def by blast
  let ?dead = "(?ws ! w)\<lparr>ce_valid := False\<rparr>" let ?new = "(?ws ! w)\<lparr>ce_last := now, ce_data := data\<rparr>"
  let ?c = "c[i := ?ws[w := ?dead]]"
  have c1: "cache_ok content D s ?c" by (rule cache_ok_line[OF c i]) (simp_all add: line_ok_def line_for_def)
  have ci: "?c ! i = ?ws[w := ?dead]" using i cache_okD(1)[OF c] by simp
  have gone: "\<not> line_for p x e" if j: "j < CACHE_SETS" "e \<in> set (?c ! j)" for j e
  proof
    assume l: "line_for p x e"
    then have "j = i" using cache_okD(3)[OF c1 j] p by (auto simp: line_ok_def line_for_def i_def)
    then obtain k where k: "k < length ?ws" "e = ?ws[w := ?dead] ! k" using j(2) ci by (auto simp: in_set_conv_nth)
    then show False using other[of k] l w(1) by (cases "k = w") (auto simp: line_for_def)
  qed
  have c2: "cache_ok content D (s\<lparr>hw := h\<rparr>) ?c" by (intro cache_ok_hw[OF c1] o) (use gone in \<open>auto simp: line_for_def\<close>)
  have "cache_ok content D (s\<lparr>hw := h\<rparr>) (?c[i := (?c ! i)[w := ?new]])"
  proof (rule cache_ok_line[OF c2 i])
    show "line_ok content D (s\<lparr>hw := h\<rparr>) i ?new" using w(2) pl by (simp add: line_ok_def line_for_def i_def)
    fix l r y assume l: "l < length (?c ! i)" "l \<noteq> w" "line_for r y ?new"
    then have "r = p" "y = x" using w(2) by (simp_all add: line_for_def)
    then show "\<not> line_for r y (?c ! i ! l)" using other[of l] l ci by simp
  qed
  then show ?thesis using Some ci by simp
qed

lemma cache_write_ok:
  assumes con: "driver_contract content rd wr" and c: "cache_ok content D s c" and na: "no_alias (devs s) D" and p: "p \<in> D"
    and len: "length data = 512 * unat cnt"
  shows "\<exists>h c' ok. cache_write_block wr phys mem now s c p lba cnt buf data = Some (s\<lparr>hw := h\<rparr>, c', ok) \<and> cache_ok content D (s\<lparr>hw := h\<rparr>) c'
    \<and> (if ok then (\<forall>i < unat cnt. sector content (s\<lparr>hw := h\<rparr>) p (lba + of_nat i) = take 512 (drop (512 * i) data))
          \<and> (\<forall>d \<in> D. \<forall>x. (\<forall>i < unat cnt. \<not> (d = p \<and> x = lba + of_nat i)) \<longrightarrow> sector content (s\<lparr>hw := h\<rparr>) d x = sector content s d x)
       else content h = content (hw s))"
proof -
  have bs: "get_block_size (devs s) p = Some 512" using block_size_512[of s p] na p by (simp add: no_alias_def)
  have keep: "cache_ok content D (s\<lparr>hw := h\<rparr>) d" if "cache_ok content D s d" "content h = content (hw s)" for h d
    by (rule cache_ok_hw[OF that(1)]) (rule sector_same[OF that(2)])
  obtain h ok where w: "write_block wr s p lba cnt data = Some (s\<lparr>hw := h\<rparr>, ok)"
    "if ok then (\<forall>i < unat cnt. place (devs s) p (lba + of_nat i) \<noteq> None \<and>
            sector content (s\<lparr>hw := h\<rparr>) p (lba + of_nat i) = take 512 (drop (512 * i) data))
          \<and> (\<forall>d \<in> D. \<forall>x. (\<forall>i < unat cnt. \<not> (d = p \<and> x = lba + of_nat i)) \<longrightarrow> sector content (s\<lparr>hw := h\<rparr>) d x = sector content s d x)
       else content h = content (hw s)" using device_write_ok[OF con na p len] by blast
  show ?thesis
  proof (cases "bypass 512 cnt buf")
    case True
    let ?c = "invalidate_range c p lba 0 (unat cnt)"
    have iv: "cache_ok content D s ?c" "\<And>j e k. j < CACHE_SETS \<Longrightarrow> e \<in> set (?c ! j) \<Longrightarrow> ce_valid e \<Longrightarrow> k < unat cnt \<Longrightarrow> \<not> line_for p (lba + of_nat k) e"
      using invalidate_range_ok[OF c p, of lba 0 "unat cnt"] by simp_all
    have "cache_ok content D (s\<lparr>hw := h\<rparr>) ?c"
    proof (cases ok)
      case ok: True
      have o: "\<And>d x. d \<in> D \<Longrightarrow> (\<forall>i < unat cnt. \<not> (d = p \<and> x = lba + of_nat i)) \<Longrightarrow> sector content (s\<lparr>hw := h\<rparr>) d x = sector content s d x"
        using w(2) ok by auto
      show ?thesis by (intro cache_ok_hw[OF iv(1)] o) (use iv(2) in \<open>auto simp: line_for_def\<close>)
    next
      case False
      then show ?thesis using keep[OF iv(1)] w(2) by simp
    qed
    moreover have "cache_write_block wr phys mem now s c p lba cnt buf data = Some (s\<lparr>hw := h\<rparr>, ?c, ok)"
      using True bs w(1) by (simp add: cache_write_block_def)
    ultimately show ?thesis using w(2) by (intro exI[of _ h] exI[of _ ?c] exI[of _ ok]) (cases ok; simp)
  next
    case False
    then have "cnt \<le> 1" by (auto simp: bypass_def)
    then consider "unat cnt = 0" | "unat cnt = 1" by (fastforce simp: word_le_nat_alt)
    then show ?thesis
    proof cases
      case 1
      then show ?thesis using False bs c by (intro exI[of _ "hw s"] exI[of _ c] exI[of _ True]) (simp add: cache_write_block_def)
    next
      case 2
      then have one: "cnt = 1" by (metis unsigned_1 unsigned_word_eqI word_unat_eq_iff)
      let ?i = "cache_hash p lba"
      let ?c = "case find_way p lba 0 (c ! ?i) of Some w \<Rightarrow> c[?i := (c ! ?i)[w := (c ! ?i ! w)\<lparr>ce_last := now, ce_data := data\<rparr>]]
        | None \<Rightarrow> fill_line c p lba data now"
      have e: "cache_write_block wr phys mem now s c p lba cnt buf data =
          (if \<not> mem \<or> unmapped phys buf then Some (s, c, False) else Some (s\<lparr>hw := h\<rparr>, if ok then ?c else c, ok))"
        using False bs w(1) len one by (simp add: cache_write_block_def Let_def split: option.splits)
      show ?thesis
      proof (cases "\<not> mem \<or> unmapped phys buf \<or> \<not> ok")
        case True
        define h' where "h' = (if \<not> mem \<or> unmapped phys buf then hw s else h)"
        have h': "content h' = content (hw s)" using w(2) True by (auto simp: h'_def)
        have "cache_write_block wr phys mem now s c p lba cnt buf data = Some (s\<lparr>hw := h'\<rparr>, c, False)"
          unfolding e using True by (auto simp: h'_def)
        then show ?thesis using h' keep[OF c h'] by (intro exI[of _ h'] exI[of _ c] exI[of _ False]) simp
      next
        case ok: False
        have "cache_ok content D (s\<lparr>hw := h\<rparr>) ?c"
          by (rule cached_line_written[OF c p]) (use w(2) ok 2 len in auto)
        then show ?thesis unfolding e using ok w(2) by (intro exI[of _ h] exI[of _ ?c] exI[of _ True]) simp
      qed
    qed
  qed
qed

lemma cache_ok_lines:
  assumes "length c = CACHE_SETS" and "\<And>i. i < CACHE_SETS \<Longrightarrow> length (c ! i) = CACHE_WAYS" and "\<And>i e. i < CACHE_SETS \<Longrightarrow> e \<in> set (c ! i) \<Longrightarrow> \<not> ce_valid e"
  shows "cache_ok content D s c"
  unfolding cache_ok_def unique_lines_def
  using assms by (auto simp: line_ok_def line_for_def)

lemma cache_ok_map:
  assumes c: "cache_ok content D s c" and f: "\<And>e. f e = e \<or> f e = e\<lparr>ce_valid := False\<rparr>"
  shows "cache_ok content D s (map (map f) c)"
  unfolding cache_ok_def
proof (intro conjI allI impI)
  fix i assume i: "i < CACHE_SETS"
  note m = cache_ok_drop[where f = f, OF c i f]
  have e: "map (map f) c ! i = c[i := map f (c ! i)] ! i" using i cache_okD(1)[OF c] by simp
  show "length (map (map f) c ! i) = CACHE_WAYS" "unique_lines (map (map f) c ! i)"
    "\<forall>e \<in> set (map (map f) c ! i). line_ok content D s i e"
    unfolding e using cache_okD(2)[OF m i] cache_okD(4)[OF m i] cache_okD(3)[OF m i] by blast+
qed (use cache_okD(1)[OF c] in simp)

definition fresh_cache :: cache where
  "fresh_cache = cache_init (replicate CACHE_SETS (replicate CACHE_WAYS \<lparr>ce_lba = 0, ce_dev = 0, ce_data = [], ce_valid = False, ce_last = 0\<rparr>))"

lemma fresh_cache_ok: "cache_ok content D s fresh_cache"
  by (rule cache_ok_lines) (simp_all add: fresh_cache_def cache_init_def)

lemma alias_hashes: "cache_hash (Suc 0) 107 = 15" "cache_hash 2 7 = 160"
  by code_simp+

lemma example_devs:
  "devs example_io 1 = Some (device_new ''disk0'' DEV_BLOCK (Driver 512))"
  "devs example_io 2 = Some ((partition_new ''disk0p1'' (Some 1) 100 149)\<lparr>write_protected := False\<rparr>)"
  "d_class (device_new ''disk0'' DEV_BLOCK (Driver 512)) = Driver 512"
  "d_class (partition_new ''disk0p1'' (Some 1) 100 149) = Partition (Some 1) 100 50 []" "hw example_io = (\<lambda>_ _. replicate 512 0)"
  by (simp_all add: example_io_def partition_new_def device_new_def device_set_name_def device_set_model_def)

lemma example_read: "read_block ideal_read example_io 1 107 1 = Some (example_io, Some (replicate 512 0))"
  using example_devs by (subst read_block.simps) (simp add: ideal_read_def)

definition example_written :: "(nat \<Rightarrow> u64 \<Rightarrow> u8 list) io" where
  "example_written = example_io\<lparr>hw := (\<lambda>_ _. replicate 512 0)(1 := (\<lambda>_. replicate 512 0)(107 := replicate 512 1))\<rparr>"

lemma example_write: "write_block ideal_write example_io 2 7 1 (replicate 512 1) = Some (example_written, True)"
proof -
  have "unat (x - 107) = 0 \<longleftrightarrow> x = 107" for x :: u64 by (simp add: unat_eq_0)
  then have "ideal_write (\<lambda>_ _. replicate 512 0) 1 107 1 (replicate 512 1)
      = ((\<lambda>_ _. replicate 512 0)(1 := (\<lambda>_. replicate 512 0)(107 := replicate 512 1)), True)"
    by (auto simp: ideal_write_def fun_eq_iff)
  then have "write_block ideal_write example_io 1 107 1 (replicate 512 1) = Some (example_written, True)"
    using example_devs by (subst write_block.simps) (simp add: example_written_def)
  then show ?thesis using example_devs by (subst write_block.simps) simp
qed

section \<open>Properties\<close>


lemma alone_no_alias: "no_alias (devs example_io) {1}"
proof -
  have "on_disk (devs example_io) 1 = Some (1, 0, 2 ^ 64)"
    by (simp add: on_disk_def example_io_def device_new_def device_set_name_def device_set_model_def)
  then show ?thesis using unsigned_less[where 'a = nat and 'b = 64] by (auto simp: no_alias_def place_def)
qed



end
