(* ===== verification/Device_Manager.thy ===== *)
theory Device_Manager
  imports Ons Block_Device
begin

text \<open>
  The device manager, the rest of \<open>src/system/device/device.cpp\<close> and \<open>src/archs/kom/common/kdevice.cpp\<close>: devices are
  kernel objects that are bound under \<open>/devices\<close> in the object namespace. The attributes of a device object are in a
  map from object pointers to the devices of \<open>Block_Device\<close>. The null pointer is 0.
\<close>

section \<open>State\<close>

record devman =
  dm_kom :: kom
  dm_path :: "oid \<Rightarrow> string"
  dm_dev :: "oid \<Rightarrow> device option"
  emergency_devices :: "oid list"
  emergency_device_count :: nat
  sata_disk_count :: u32
  nvme_disk_count :: u32

abbreviation (input) MAX_EMERGENCY_DEVICES :: nat where "MAX_EMERGENCY_DEVICES \<equiv> 64"

definition register_emergency_device :: "devman \<Rightarrow> oid \<Rightarrow> devman option" where
  "register_emergency_device m dev =
     (if dev = 0 then Some m
      else let idx = emergency_device_count m; m1 = m\<lparr>emergency_device_count := idx + 1\<rparr>
           in if idx < MAX_EMERGENCY_DEVICES
              then do { s \<leftarrow> kobject_ref (dm_kom m1) dev;
                        Some (m1\<lparr>dm_kom := s, emergency_devices := emergency_devices m1 @ [dev]\<rparr>) }
              else Some m1)"

definition get_kobj_type :: "device_type \<Rightarrow> kobject_type" where
  "get_kobj_type t =
     (if t = DEV_BLOCK \<or> t = DEV_PARTITION then BLOCK_DEVICE else if t = DEV_DISPLAY then GPU_DEVICE else CHAR_DEVICE)"

text \<open>The constructor: a new object, and a second reference for a block device in the emergency list.\<close>

definition device_create :: "devman \<Rightarrow> string \<Rightarrow> device_type \<Rightarrow> device_class \<Rightarrow> (devman \<times> oid) option" where
  "device_create m n t c =
     do { let (s, p) = kobject_new (dm_kom m) (get_kobj_type t) KPlain;
          let m1 = m\<lparr>dm_kom := s, dm_path := (dm_path m)(p := []), dm_dev := (dm_dev m)(p \<mapsto> device_new n t c)\<rparr>;
          m2 \<leftarrow> (if t = DEV_BLOCK then register_emergency_device m1 p else Some m1);
          Some (m2, p) }"

section \<open>Registration and lookup\<close>

definition ons_register :: "bool \<Rightarrow> devman \<Rightarrow> oid \<Rightarrow> string option \<Rightarrow> devman option" where
  "ons_register mem m dev path =
     (case path of
        None \<Rightarrow> Some m
      | Some pth \<Rightarrow> do {
          (s, res) \<leftarrow> ons_bind mem (dm_kom m) (Some (take 127 pth)) dev;
          Some (m\<lparr>dm_kom := s, dm_path := (dm_path m)(dev := take 127 pth)\<rparr>) })"

definition ons_unregister :: "devman \<Rightarrow> oid \<Rightarrow> devman option" where
  "ons_unregister m dev =
     (if dm_path m dev \<noteq> []
      then do { (s, res) \<leftarrow> ons_unbind (dm_kom m) (Some (dm_path m dev));
                Some (m\<lparr>dm_kom := s, dm_path := (dm_path m)(dev := [])\<rparr>) }
      else Some m)"

definition devices_path :: "string \<Rightarrow> string" where
  "devices_path n = take 127 (''/devices/'' @ n)"

definition register_device :: "bool \<Rightarrow> devman \<Rightarrow> oid \<Rightarrow> devman option" where
  "register_device mem m dev =
     (if dev = 0 then Some m
      else do { d \<leftarrow> dm_dev m dev; ons_register mem m dev (Some (devices_path (d_name d))) })"

definition is_device_type :: "kobject_type \<Rightarrow> bool" where
  "is_device_type t = (t = BLOCK_DEVICE \<or> t = CHAR_DEVICE \<or> t = GPU_DEVICE)"

definition get_device :: "kom \<Rightarrow> string \<Rightarrow> (kom \<times> oid) option" where
  "get_device s n =
     do { (s1, obj) \<leftarrow> ons_resolve s (Some (devices_path n));
          if obj = 0 then Some (s1, 0)
          else do { ob \<leftarrow> get_obj s1 obj; Some (s1, if is_device_type (otype ob) then obj else 0) } }"

partial_function (option) count_loop :: "kom \<Rightarrow> nat \<Rightarrow> (kom \<times> nat) option" where
  "count_loop s idx =
     do { (s1, r) \<leftarrow> ons_enumerate s (Some ''/devices'') idx;
          case r of None \<Rightarrow> Some (s1, idx) | Some _ \<Rightarrow> count_loop s1 (idx + 1) }"

definition get_device_count :: "kom \<Rightarrow> (kom \<times> nat) option" where
  "get_device_count s = count_loop s 0"

definition get_device_by_index :: "kom \<Rightarrow> nat \<Rightarrow> (kom \<times> oid) option" where
  "get_device_by_index s index =
     do { (s1, r) \<leftarrow> ons_enumerate s (Some ''/devices'') index;
          case r of Some (n, _) \<Rightarrow> get_device s1 n | None \<Rightarrow> Some (s1, 0) }"

definition device_release :: "kom \<Rightarrow> oid \<Rightarrow> kom option" where
  "device_release s dev = (if dev \<noteq> 0 then kobject_unref s dev else Some s)"

partial_function (option) first_block_loop :: "(oid \<Rightarrow> device option) \<Rightarrow> kom \<Rightarrow> nat \<Rightarrow> (kom \<times> oid) option" where
  "first_block_loop ds s idx =
     do { (s1, r) \<leftarrow> ons_enumerate s (Some ''/devices'') idx;
          case r of
            None \<Rightarrow> Some (s1, 0)
          | Some (n, _) \<Rightarrow> do {
              (s2, obj) \<leftarrow> ons_resolve s1 (Some (devices_path n));
              if obj = 0 then first_block_loop ds s2 (idx + 1)
              else do {
                ob \<leftarrow> get_obj s2 obj;
                found \<leftarrow> (if otype ob = BLOCK_DEVICE then do { d \<leftarrow> ds obj; Some (capacity_bytes d > 0) } else Some False);
                if found then Some (s2, obj)
                else do { s3 \<leftarrow> kobject_unref s2 obj; first_block_loop ds s3 (idx + 1) } } } }"

definition device_get_first_block :: "(oid \<Rightarrow> device option) \<Rightarrow> kom \<Rightarrow> (kom \<times> oid) option" where
  "device_get_first_block ds s = first_block_loop ds s 0"

partial_function (option) first_of_type_loop ::
  "(oid \<Rightarrow> device option) \<Rightarrow> device_type \<Rightarrow> kom \<Rightarrow> nat \<Rightarrow> (kom \<times> oid) option" where
  "first_of_type_loop ds t s idx =
     do { (s1, r) \<leftarrow> ons_enumerate s (Some ''/devices'') idx;
          case r of
            None \<Rightarrow> Some (s1, 0)
          | Some (n, _) \<Rightarrow> do {
              (s2, obj) \<leftarrow> get_device s1 n;
              found \<leftarrow> (if obj = 0 then Some False else do { d \<leftarrow> ds obj; Some (d_type d = t) });
              if found then Some (s2, obj)
              else do { s3 \<leftarrow> device_release s2 obj; first_of_type_loop ds t s3 (idx + 1) } } }"

definition device_get_first_of_type :: "(oid \<Rightarrow> device option) \<Rightarrow> device_type \<Rightarrow> kom \<Rightarrow> (kom \<times> oid) option" where
  "device_get_first_of_type ds t s = first_of_type_loop ds t s 0"

text \<open>\<open>device_manager_shutdown\<close>: \<open>act\<close> collects the devices whose \<open>shutdown\<close> is called.\<close>

partial_function (option) shutdown_loop :: "kom \<Rightarrow> nat \<Rightarrow> oid list \<Rightarrow> (kom \<times> oid list) option" where
  "shutdown_loop s idx act =
     do { (s1, r) \<leftarrow> ons_enumerate s (Some ''/devices'') idx;
          case r of
            None \<Rightarrow> Some (s1, act)
          | Some (n, _) \<Rightarrow> do {
              (s2, d) \<leftarrow> get_device s1 n;
              if d \<noteq> 0 then do { s3 \<leftarrow> device_release s2 d; shutdown_loop s3 (idx + 1) (act @ [d]) }
              else shutdown_loop s2 (idx + 1) act } }"

definition device_manager_shutdown :: "kom \<Rightarrow> (kom \<times> oid list) option" where
  "device_manager_shutdown s = shutdown_loop s 0 []"

definition device_manager_emergency_stop :: "devman \<Rightarrow> oid list" where
  "device_manager_emergency_stop m =
     filter (\<lambda>d. d \<noteq> 0) (take (min (emergency_device_count m) MAX_EMERGENCY_DEVICES) (emergency_devices m))"

definition cpp_device_destroy :: "devman \<Rightarrow> oid \<Rightarrow> devman option" where
  "cpp_device_destroy m dev =
     (if dev = 0 then Some m
      else do { m1 \<leftarrow> ons_unregister m dev; s \<leftarrow> kobject_unref (dm_kom m1) dev; Some (m1\<lparr>dm_kom := s\<rparr>) })"

section \<open>Enumeration\<close>

lemma resolve_ref:
  assumes "ons_ok ext s" and "room 2 s" and "resolve_spec s path = Some p"
  shows "\<exists>s1. ons_resolve s (Some path) = Some (s1, p) \<and> kobject_ref s p = Some s1 \<and> 0 < rc s p \<and> p \<noteq> 0"
proof -
  have ok: "handle_ok ext s" using assms(1) by (simp add: ons_ok_def)
  have live: "0 < rc s p" using assms(3) path_find_live[OF ok _ root_live[OF assms(1)]]
    by (auto simp: resolve_spec_def Let_def split: if_splits)
  have "room 1 s" using assms(2) by (rule room_mono) simp
  then obtain s1 where "kobject_ref s p = Some s1" using kobject_ref_ok[of "[]" ext s p] ok live by (auto simp: handle_ok_def)
  then show ?thesis using ons_resolve_exact[OF assms(1,2), of path] assms(3) live rc_nonnull by auto
qed

lemma enumerate_exact:
  assumes ok: "ons_ok ext s" and r: "room 2 s" and p: "resolve_spec s path = Some p" "is_container s p" "bindings s p = Some bs"
  shows "\<exists>e. ons_enumerate s (Some path) i = Some (s, e) \<and> (e = None \<longleftrightarrow> length bs \<le> i)"
proof -
  obtain s1 where s1: "ons_resolve s (Some path) = Some (s1, p)" "kobject_ref s p = Some s1" "0 < rc s p" "p \<noteq> 0"
    using resolve_ref[OF ok r p(1)] by blast
  have r1: "room 1 s" using r by (rule room_mono) simp
  obtain ob where ob: "get_obj s1 p = Some ob" "otype ob = CONTAINER"
    using ref_same[OF s1(2), of p] p(2) by (auto simp: is_container_def split: option.splits)
  have b1: "bindings s1 p = Some bs" using ref_same[OF s1(2), of p] p(3) by simp
  have inv: "kom_inv [] (ext(p := ext p + 1)) s1" "0 < rc s1 p"
    using ref_unref_live(1)[OF ok r1 s1(3,2)] s1(3) kobject_ref_ok[of "[]" ext s p] ok r1 s1(2) by (auto simp: ons_ok_def handle_ok_def)
  obtain e where e: "kcontainer_enumerate s1 p i = Some e" using kcontainer_enumerate_ok[OF inv(1) b1 inv(2)] by blast
  then have "e = None \<longleftrightarrow> length bs \<le> i"
    using b1 by (auto simp: kcontainer_enumerate_def split: if_splits prod.splits bind_splits)
  moreover have "ons_enumerate s (Some path) i = Some (s, e)"
    using s1 ob e unref_after_ref[OF s1(2,3) r1] by (simp add: ons_enumerate_def)
  ultimately show ?thesis by blast
qed

section \<open>Properties\<close>

text \<open>
  \<^bold>\<open>C37.\<close> Counting the devices ends: the loop of \<open>getDeviceCount\<close> over the container \<open>/devices\<close> returns, for every
  consistent object namespace, with the number of names bound there, and leaves all objects and reference counts as
  they were.
\<close>

theorem device_count_terminates:
  assumes "ons_ok ext s" and "room 2 s" and "resolve_spec s ''/devices'' = Some p" and "is_container s p" and "bindings s p = Some bs"
  shows "get_device_count s = Some (s, length bs)"
proof -
  have "count_loop s i = Some (s, length bs)" if "i \<le> length bs" for i
    using that
  proof (induction "length bs - i" arbitrary: i)
    case 0
    then show ?case using enumerate_exact[OF assms, of i] by (subst count_loop.simps) auto
  next
    case (Suc n)
    have "count_loop s (i + 1) = Some (s, length bs)" using Suc.hyps(1)[of "i + 1"] Suc.hyps(2) by simp
    then show ?case using enumerate_exact[OF assms, of i] Suc.hyps(2) by (subst count_loop.simps) auto
  qed
  then show ?thesis by (simp add: get_device_count_def)
qed

lemma devices_bound:
  "\<exists>s1. ons_bind True ons_example (Some ''/devices'') 1 = Some (s1, ONS_OK) \<and> resolve_spec s1 ''/devices'' = Some 1
    \<and> is_container s1 1 \<and> (\<exists>bs. bindings s1 1 = Some bs \<and> length bs = 2)"
  by (simp add: ons_bind_def ons_parent_of_def convert_nt_path_def is_drive_def split_last_def ons_example_def
    two_objects_ht_def two_objects_def kobject_ref_def get_obj_def put_obj_def kcontainer_bind_def bindings_def
    set_bindings_def kobject_unref_def resolve_spec_def components_def trailing_def is_container_def)

theorem device_count_terminates_witness:
  "\<exists>s. resolve_spec s ''/devices'' = Some 1 \<and> get_device_count s = Some (s, 2)"
proof -
  obtain s1 bs where s1: "ons_bind True ons_example (Some ''/devices'') 1 = Some (s1, ONS_OK)" "resolve_spec s1 ''/devices'' = Some 1"
    "is_container s1 1" "bindings s1 1 = Some bs" "length bs = 2" using devices_bound by blast
  have r: "room 4 ons_example" using ons_example_ok(2) by (rule room_mono) simp
  have ok: "ons_ok ((\<lambda>_. 0)(1 := 1)) s1" "kframe 2 ons_example s1"
    using ons_bind_ok[OF ons_example_ok(1) r, of 1 True "Some ''/devices''"] s1(1) by auto
  have "room 2 s1" using r ok(2) by (rule room_step) simp
  from device_count_terminates[OF ok(1) this s1(2-4)] show ?thesis using s1(2,5) by auto
qed

end
