(* ===== verification/Serial.thy ===== *)
theory Serial
  imports Libc_String
begin

text \<open>
  The serial port driver of \<open>src/archs/cpu/x86_64/drivers/serial/serial.cpp\<close>: the ring buffer between the
  writers and the interrupt thread, and the polled output used before that thread exists. The device is the
  parameter \<open>ready\<close>: whether the line status register reports an empty transmitter at the n-th read of it; what the
  driver has put on the wire is kept in the state. The driver lock is held across each of the two critical sections,
  so each of them is one function.
\<close>

section \<open>The driver\<close>

abbreviation (input) SERIAL_RING_SIZE :: nat where "SERIAL_RING_SIZE \<equiv> 16384"
abbreviation (input) RING_MASK :: u32 where "RING_MASK \<equiv> 0x3FFF"

record serial =
  serial_ring :: string
  ring_head :: u32
  ring_tail :: u32
  serial_hardware_present :: bool
  async_mode :: bool
  polls :: nat
  wire :: string

definition serial_boot :: serial where
  "serial_boot = \<lparr>serial_ring = replicate SERIAL_RING_SIZE NUL, ring_head = 0, ring_tail = 0,
     serial_hardware_present = False, async_mode = False, polls = 0, wire = []\<rparr>"

text \<open>The read of the line status register \<open>COM1 + 5\<close> and the write of the data register \<open>COM1\<close>.\<close>

definition line_status :: "(nat \<Rightarrow> bool) \<Rightarrow> serial \<Rightarrow> bool \<times> serial" where
  "line_status ready s = (ready (polls s), s\<lparr>polls := polls s + 1\<rparr>)"

definition outb_com1 :: "char \<Rightarrow> serial \<Rightarrow> serial" where
  "outb_com1 c s = s\<lparr>wire := wire s @ [c]\<rparr>"

partial_function (option) serial_drain :: "(nat \<Rightarrow> bool) \<Rightarrow> serial \<Rightarrow> serial option" where
  "serial_drain ready s =
     (if ring_head s = ring_tail s then Some s
      else let (idle, s1) = line_status ready s
           in if idle
              then do { c \<leftarrow> load (serial_ring s1) (unat (ring_tail s1));
                        serial_drain ready ((outb_com1 c s1)\<lparr>ring_tail := (ring_tail s1 + 1) AND RING_MASK\<rparr>) }
              else Some s1)"

definition serial_irq_handler_wrapper :: "(nat \<Rightarrow> bool) \<Rightarrow> serial \<Rightarrow> serial option" where
  "serial_irq_handler_wrapper ready s =
     (if \<not> serial_hardware_present s then Some s else serial_drain ready s)"

definition init_serial_early :: "serial \<Rightarrow> serial" where
  "init_serial_early s = s\<lparr>serial_hardware_present := True\<rparr>"

definition init_serial_late :: "serial \<Rightarrow> serial" where
  "init_serial_late s = (if serial_hardware_present s then s\<lparr>async_mode := True\<rparr> else s)"

definition serial_enable_direct_mode :: "serial \<Rightarrow> serial" where
  "serial_enable_direct_mode s = s\<lparr>async_mode := False\<rparr>"

text \<open>The polling loop of the direct mode does not return while the transmitter stays busy.\<close>

partial_function (option) serial_poll :: "(nat \<Rightarrow> bool) \<Rightarrow> serial \<Rightarrow> serial option" where
  "serial_poll ready s =
     (let (idle, s1) = line_status ready s in if idle then Some s1 else serial_poll ready s1)"

definition serial_putc :: "(nat \<Rightarrow> bool) \<Rightarrow> char \<Rightarrow> serial \<Rightarrow> serial option" where
  "serial_putc ready c s =
     (if \<not> serial_hardware_present s then Some s
      else if \<not> async_mode s then do { s1 \<leftarrow> serial_poll ready s; Some (outb_com1 c s1) }
      else do {
        let next_head = (ring_head s + 1) AND RING_MASK;
        let s1 = (if next_head = ring_tail s then s\<lparr>ring_tail := (ring_tail s + 1) AND RING_MASK\<rparr> else s);
        r \<leftarrow> store (serial_ring s1) (unat (ring_head s1)) c;
        let s2 = s1\<lparr>serial_ring := r, ring_head := next_head\<rparr>;
        let (idle, s3) = line_status ready s2;
        if idle then serial_irq_handler_wrapper ready s3 else Some s3 })"

fun serial_write_atomic :: "(nat \<Rightarrow> bool) \<Rightarrow> string \<Rightarrow> serial \<Rightarrow> serial option" where
  "serial_write_atomic ready [] s = None"
| "serial_write_atomic ready (c # str) s =
     (if c = NUL then Some s
      else do { s1 \<leftarrow> (if c = CHR 0x0A then serial_putc ready (CHR 0x0D) s else Some s);
                s2 \<leftarrow> serial_putc ready c s1;
                serial_write_atomic ready str s2 })"

definition serial_write :: "(nat \<Rightarrow> bool) \<Rightarrow> string \<Rightarrow> serial \<Rightarrow> serial option" where
  "serial_write ready str s = serial_write_atomic ready str s"

text \<open>\<open>SerialDriver::write\<close>: the first \<open>size\<close> characters of the buffer, without translation of line ends.\<close>

primrec serial_driver_write :: "(nat \<Rightarrow> bool) \<Rightarrow> string \<Rightarrow> nat \<Rightarrow> nat \<Rightarrow> serial \<Rightarrow> serial option" where
  "serial_driver_write ready buffer i 0 s = Some s"
| "serial_driver_write ready buffer i (Suc n) s =
     do { c \<leftarrow> load buffer i; s1 \<leftarrow> serial_putc ready c s; serial_driver_write ready buffer (i + 1) n s1 }"

section \<open>The ring as a bounded queue\<close>

definition serial_inv :: "serial \<Rightarrow> bool" where
  "serial_inv s \<longleftrightarrow> length (serial_ring s) = SERIAL_RING_SIZE
     \<and> unat (ring_head s) < SERIAL_RING_SIZE \<and> unat (ring_tail s) < SERIAL_RING_SIZE"

definition pending_count :: "serial \<Rightarrow> nat" where
  "pending_count s = (unat (ring_head s) + SERIAL_RING_SIZE - unat (ring_tail s)) mod SERIAL_RING_SIZE"

definition pending :: "serial \<Rightarrow> string" where
  "pending s = map (\<lambda>k. serial_ring s ! ((unat (ring_tail s) + k) mod SERIAL_RING_SIZE)) [0..<pending_count s]"

lemma unat_ring_next: "unat ((x + 1) AND RING_MASK) = (unat x + 1) mod SERIAL_RING_SIZE"
proof -
  have m: "RING_MASK = mask 14" by (simp add: mask_eq_exp_minus_1)
  have "unat ((x + 1) AND RING_MASK) = take_bit 14 (unat (x + 1))"
    by (simp only: m take_bit_eq_mask[symmetric] unsigned_take_bit_eq)
  also have "\<dots> = unat (x + 1) mod 2 ^ 14" by (simp only: take_bit_eq_mod)
  also have "\<dots> = (unat x + 1) mod 2 ^ 32 mod 2 ^ 14" by (simp add: unat_word_ariths)
  also have "\<dots> = (unat x + 1) mod 2 ^ 14" by (rule mod_mod_cancel) simp
  finally show ?thesis by simp
qed

lemma length_pending: "length (pending s) = pending_count s"
  by (simp add: pending_def)

lemma pending_count_less: "pending_count s < SERIAL_RING_SIZE"
  by (simp add: pending_count_def)

lemma wrap_eq: "(x :: nat) < 2 * n \<Longrightarrow> x mod n = (if x < n then x else x - n)"
  by (simp add: mod_if)

lemma wrap_diff:
  assumes "h < n" and "t < (n :: nat)"
  shows "(h + n - t) mod n = (if t \<le> h then h - t else h + n - t)"
  using assms by (subst wrap_eq) auto

lemma wrap_Suc: "t < n \<Longrightarrow> (t + 1) mod n = (if t + 1 = n then 0 else t + (1 :: nat))"
  by simp

lemma ring_advance_count:
  assumes "h < n" and "t < n" and "h \<noteq> (t :: nat)"
  shows "(h + n - (t + 1) mod n) mod n = (h + n - t) mod n - 1"
proof -
  have "(t + 1) mod n < n" using assms by simp
  then show ?thesis using assms by (simp only: wrap_diff wrap_Suc) (auto split: if_splits)
qed

lemma ring_append_count:
  assumes "h < n" and "t < n" and "(h + 1) mod n \<noteq> (t :: nat)"
  shows "((h + 1) mod n + n - t) mod n = Suc ((h + n - t) mod n)"
proof -
  have "(h + 1) mod n < n" using assms by simp
  then show ?thesis using assms by (simp only: wrap_diff wrap_Suc) (auto split: if_splits)
qed

lemma ring_shift: "((t + 1) mod n + k) mod n = (t + Suc k) mod (n :: nat)"
  by (simp add: mod_add_left_eq)

lemma ring_end:
  assumes "h < n" and "t < (n :: nat)"
  shows "(t + (h + n - t) mod n) mod n = h"
proof -
  have "t + (h + n - t) mod n < 2 * n" using assms by (simp add: add_less_le_mono mult_2)
  then show ?thesis using assms by (simp only: wrap_eq[of "t + _"] wrap_diff) (auto split: if_splits)
qed

lemma ring_before_end:
  assumes "h < n" and "t < (n :: nat)" and "k < (h + n - t) mod n"
  shows "(t + k) mod n \<noteq> h"
proof -
  have "k < n" using assms by (metis mod_less_divisor less_trans not_less_zero gr0I)
  then have "t + k < 2 * n" using assms by simp
  then show ?thesis using assms by (simp only: wrap_eq wrap_diff) (auto split: if_splits)
qed

lemma ring_full:
  assumes "h < n" and "t < (n :: nat)"
  shows "(h + 1) mod n = t \<longleftrightarrow> (h + n - t) mod n = n - 1"
  using assms by (simp only: wrap_diff wrap_Suc) (auto split: if_splits)

lemma serial_invD:
  assumes "serial_inv s"
  shows "unat (ring_head s) < SERIAL_RING_SIZE" "unat (ring_tail s) < SERIAL_RING_SIZE" "length (serial_ring s) = SERIAL_RING_SIZE"
  using assms by (simp_all add: serial_inv_def)

lemma pending_empty_iff:
  assumes "serial_inv s"
  shows "ring_head s = ring_tail s \<longleftrightarrow> pending_count s = 0"
  unfolding pending_count_def wrap_diff[OF serial_invD(1,2)[OF assms]] word_unat_eq_iff
  using serial_invD[OF assms] by auto

lemma serial_inv_advance:
  "serial_inv s \<Longrightarrow> serial_inv (s\<lparr>ring_tail := (ring_tail s + 1) AND RING_MASK\<rparr>)"
  by (simp add: serial_inv_def unat_ring_next)

text \<open>Advancing the tail takes the oldest character away; storing at the head appends one.\<close>

lemma pending_advance:
  assumes "serial_inv s" and "0 < pending_count s"
  shows "pending (s\<lparr>ring_tail := (ring_tail s + 1) AND RING_MASK\<rparr>) = tl (pending s)"
    and "pending s \<noteq> []" and "hd (pending s) = serial_ring s ! unat (ring_tail s)"
proof -
  let ?h = "unat (ring_head s)" and ?t = "unat (ring_tail s)"
  let ?s = "s\<lparr>ring_tail := (ring_tail s + 1) AND RING_MASK\<rparr>"
  have b: "?h < 16384" "?t < 16384" using assms by (simp_all add: serial_inv_def)
  have r: "ring_head ?s = ring_head s" "ring_tail ?s = (ring_tail s + 1) AND RING_MASK" "serial_ring ?s = serial_ring s"
    by simp_all
  have "?h \<noteq> ?t" using assms(2) pending_empty_iff[OF assms(1)] by (auto simp: word_unat_eq_iff)
  then have c: "pending_count ?s = pending_count s - 1"
    unfolding pending_count_def r unat_ring_next by (rule ring_advance_count[OF b])
  have u: "[0..<pending_count s] = 0 # map Suc [0..<pending_count s - 1]"
    using assms(2) by (simp add: map_Suc_upt upt_conv_Cons)
  show "pending ?s = tl (pending s)"
    unfolding pending_def c u by (simp only: r unat_ring_next ring_shift list.map list.sel map_map o_def)
  show "pending s \<noteq> []" using assms(2) by (simp add: pending_def)
  show "hd (pending s) = serial_ring s ! ?t" using b by (simp add: pending_def u)
qed

lemma pending_store:
  assumes "serial_inv s" and "(ring_head s + 1) AND RING_MASK \<noteq> ring_tail s"
  shows "pending (s\<lparr>serial_ring := (serial_ring s)[unat (ring_head s) := c], ring_head := (ring_head s + 1) AND RING_MASK\<rparr>)
    = pending s @ [c]"
proof -
  let ?h = "unat (ring_head s)" and ?t = "unat (ring_tail s)"
  let ?s = "s\<lparr>serial_ring := (serial_ring s)[?h := c], ring_head := (ring_head s + 1) AND RING_MASK\<rparr>"
  have b: "?h < 16384" "?t < 16384" and len: "length (serial_ring s) = 16384"
    using assms by (simp_all add: serial_inv_def)
  have ne: "(?h + 1) mod 16384 \<noteq> ?t" using assms(2) unfolding word_unat_eq_iff unat_ring_next .
  have r: "ring_head ?s = (ring_head s + 1) AND RING_MASK" "ring_tail ?s = ring_tail s" by simp_all
  have n: "pending_count ?s = Suc (pending_count s)"
    unfolding pending_count_def r unat_ring_next by (rule ring_append_count[OF b ne])
  have e: "(?t + pending_count s) mod 16384 = ?h"
    unfolding pending_count_def by (rule ring_end[OF b])
  have o: "(?t + k) mod 16384 \<noteq> ?h" if "k < pending_count s" for k
    using that unfolding pending_count_def by (rule ring_before_end[OF b])
  have "(serial_ring s)[?h := c] ! ((?t + k) mod 16384) = serial_ring s ! ((?t + k) mod 16384)"
    if "k < pending_count s" for k
    using o[OF that] by (intro nth_list_update_neq) simp
  then show ?thesis using b len e by (simp add: pending_def n)
qed

section \<open>Output\<close>

text \<open>The drain loop ends and moves characters from the front of the queue to the wire.\<close>

lemma serial_drain_ok:
  "serial_inv s \<Longrightarrow> \<exists>s'. serial_drain ready s = Some s' \<and> serial_inv s'
     \<and> wire s' @ pending s' = wire s @ pending s \<and> prefix (wire s) (wire s')
     \<and> serial_hardware_present s' = serial_hardware_present s \<and> async_mode s' = async_mode s
     \<and> (pending s' = [] \<or> \<not> ready (polls s' - 1))"
proof (induction "pending_count s" arbitrary: s)
  case 0
  then have "ring_head s = ring_tail s" by (simp add: pending_empty_iff)
  moreover have "pending s = []" using 0 by (simp add: pending_def)
  ultimately show ?case using 0 by (subst serial_drain.simps) simp
next
  case (Suc n)
  let ?p = "s\<lparr>polls := polls s + 1\<rparr>"
  have pp: "pending ?p = pending s" "pending_count ?p = pending_count s" "serial_inv ?p"
    using Suc.prems by (simp_all add: pending_def pending_count_def serial_inv_def)
  have ne: "ring_head s \<noteq> ring_tail s" using Suc pending_empty_iff[of s] by simp
  show ?case
  proof (cases "ready (polls s)")
    case False
    then show ?thesis using ne pp by (subst serial_drain.simps) (simp add: line_status_def)
  next
    case True
    let ?c = "serial_ring s ! unat (ring_tail s)"
    let ?q = "(outb_com1 ?c ?p)\<lparr>ring_tail := (ring_tail s + 1) AND RING_MASK\<rparr>"
    have "0 < pending_count ?p" using Suc.hyps(2) pp by simp
    note adv = pending_advance[OF pp(3) this]
    have q: "pending ?q = tl (pending s)" using adv(1) pp(1)
      by (simp add: outb_com1_def pending_def pending_count_def)
    have "pending_count ?q = n" using q Suc.hyps(2) length_pending[of s] length_pending[of ?q] by simp
    moreover have iq: "serial_inv ?q" using serial_inv_advance[OF pp(3)] by (simp add: outb_com1_def serial_inv_def)
    ultimately obtain s' where s': "serial_drain ready ?q = Some s'" "serial_inv s'"
      "wire s' @ pending s' = wire ?q @ pending ?q" "prefix (wire ?q) (wire s')"
      "serial_hardware_present s' = serial_hardware_present ?q" "async_mode s' = async_mode ?q"
      "pending s' = [] \<or> \<not> ready (polls s' - 1)"
      using Suc.hyps(1)[of ?q] by auto
    have "load (serial_ring s) (unat (ring_tail s)) = Some ?c"
      using Suc.prems by (simp add: load_def serial_inv_def)
    then have "serial_drain ready s = Some s'"
      using True ne s'(1) by (subst serial_drain.simps) (simp add: line_status_def)
    moreover have "wire ?q @ pending ?q = wire s @ pending s"
      using q adv(2,3) pp(1) by (cases "pending s") (simp_all add: outb_com1_def)
    moreover have "prefix (wire s) (wire s')"
      using s'(4) by (auto simp: outb_com1_def prefix_def)
    ultimately show ?thesis using s' by (simp add: outb_com1_def)
  qed
qed

text \<open>In interrupt mode a character enters the queue at the end; a full queue loses its oldest character.\<close>

definition enqueue :: "string \<Rightarrow> char \<Rightarrow> string" where
  "enqueue q c = (if length q = SERIAL_RING_SIZE - 1 then tl q else q) @ [c]"

lemma ring_full_iff:
  assumes "serial_inv s"
  shows "(ring_head s + 1) AND RING_MASK = ring_tail s \<longleftrightarrow> pending_count s = SERIAL_RING_SIZE - 1"
proof -
  have b: "unat (ring_head s) < 16384" "unat (ring_tail s) < 16384" using assms by (simp_all add: serial_inv_def)
  have "(ring_head s + 1) AND RING_MASK = ring_tail s \<longleftrightarrow> (unat (ring_head s) + 1) mod 16384 = unat (ring_tail s)"
    by (simp only: word_unat_eq_iff unat_ring_next)
  then show ?thesis using ring_full[OF b] by (simp only: pending_count_def)
qed

lemma ring_insert:
  fixes c :: char
  assumes "serial_inv s"
  defines "next_head \<equiv> (ring_head s + 1) AND RING_MASK"
  defines "s1 \<equiv> (if next_head = ring_tail s then s\<lparr>ring_tail := (ring_tail s + 1) AND RING_MASK\<rparr> else s)"
  defines "s2 \<equiv> s1\<lparr>serial_ring := (serial_ring s1)[unat (ring_head s1) := c], ring_head := next_head\<rparr>"
  shows "serial_inv s1" and "serial_inv s2" and "pending s2 = enqueue (pending s) c"
proof -
  show i1: "serial_inv s1" using assms(1) serial_inv_advance by (simp add: s1_def)
  have h1: "ring_head s1 = ring_head s" by (simp add: s1_def)
  show "serial_inv s2" using i1 by (simp add: s2_def serial_inv_def next_head_def unat_ring_next)
  have p1: "pending s1 = (if length (pending s) = 16384 - 1 then tl (pending s) else pending s)"
    using ring_full_iff[OF assms(1)] pending_advance(1)[OF assms(1)]
    by (simp add: s1_def next_head_def length_pending)
  have "pending_count s1 \<noteq> 16384 - 1"
    using p1 length_pending[of s1] length_pending[of s] pending_count_less[of s] by (auto split: if_splits)
  then have "(ring_head s1 + 1) AND RING_MASK \<noteq> ring_tail s1" using ring_full_iff[OF i1] by simp
  from pending_store[OF i1 this, of c] show "pending s2 = enqueue (pending s) c"
    by (simp add: s2_def next_head_def h1 p1 enqueue_def)
qed

lemma serial_putc_async:
  assumes "serial_inv s" and "serial_hardware_present s" and "async_mode s"
  shows "\<exists>s'. serial_putc ready c s = Some s' \<and> serial_inv s' \<and> serial_hardware_present s' \<and> async_mode s'
    \<and> prefix (wire s) (wire s') \<and> wire s' @ pending s' = wire s @ enqueue (pending s) c
    \<and> (pending s' = [] \<or> \<not> ready (polls s' - 1))"
proof -
  let ?n = "(ring_head s + 1) AND RING_MASK"
  let ?s1 = "if ?n = ring_tail s then s\<lparr>ring_tail := (ring_tail s + 1) AND RING_MASK\<rparr> else s"
  let ?s2 = "?s1\<lparr>serial_ring := (serial_ring ?s1)[unat (ring_head ?s1) := c], ring_head := ?n\<rparr>"
  let ?s3 = "?s2\<lparr>polls := polls ?s2 + 1\<rparr>"
  note ins = ring_insert(1)[OF assms(1)] ring_insert(2,3)[OF assms(1), of c]
  have i3: "serial_inv ?s3" using ins(2) by (simp add: serial_inv_def)
  have p3: "pending ?s3 = enqueue (pending s) c" using ins(3) by (simp add: pending_def pending_count_def)
  have w3: "wire ?s3 = wire s" "serial_hardware_present ?s3" "async_mode ?s3" using assms by simp_all
  have "store (serial_ring ?s1) (unat (ring_head ?s1)) c = Some ((serial_ring ?s1)[unat (ring_head ?s1) := c])"
    using ins(1) by (intro store_Some) (simp add: serial_inv_def)
  then have e: "serial_putc ready c s = (if ready (polls ?s2) then serial_drain ready ?s3 else Some ?s3)"
    using assms(2,3) by (simp add: serial_putc_def line_status_def serial_irq_handler_wrapper_def Let_def)
  show ?thesis
  proof (cases "ready (polls ?s2)")
    case True
    from serial_drain_ok[OF i3, of ready] show ?thesis using e True p3 w3 by auto
  next
    case False
    then have "serial_putc ready c s = Some ?s3" using e by simp
    then show ?thesis using i3 p3 w3 False by (intro exI[of _ ?s3]) simp
  qed
qed

text \<open>The direct mode: if the transmitter becomes idle some time, the character is the next one on the wire.\<close>

lemma serial_poll_ok:
  "ready n \<Longrightarrow> polls s \<le> n \<Longrightarrow> \<exists>m. serial_poll ready s = Some (s\<lparr>polls := m\<rparr>)"
proof (induction "n - polls s" arbitrary: s)
  case 0
  then have "ready (polls s)" by simp
  then show ?case by (subst serial_poll.simps) (auto simp: line_status_def)
next
  case (Suc k)
  show ?case
  proof (cases "ready (polls s)")
    case True
    then show ?thesis by (subst serial_poll.simps) (auto simp: line_status_def)
  next
    case False
    let ?s = "s\<lparr>polls := polls s + 1\<rparr>"
    have "k = n - polls ?s" "polls ?s \<le> n" using Suc.hyps(2) by simp_all
    then obtain m where "serial_poll ready ?s = Some (?s\<lparr>polls := m\<rparr>)"
      using Suc.hyps(1)[of ?s] Suc.prems(1) by blast
    then show ?thesis using False by (subst serial_poll.simps) (auto simp: line_status_def)
  qed
qed

lemma serial_putc_direct:
  assumes "serial_hardware_present s" and "\<not> async_mode s" and "ready n" and "polls s \<le> n"
  shows "\<exists>m. serial_putc ready c s = Some (s\<lparr>polls := m, wire := wire s @ [c]\<rparr>)"
  using serial_poll_ok[where ready = ready, OF assms(3,4)] assms(1,2) by (auto simp: serial_putc_def outb_com1_def)

text \<open>The text a string becomes: a carriage return before every line feed.\<close>

definition crlf :: "string \<Rightarrow> string" where
  "crlf x = concat (map (\<lambda>c. if c = CHR 0x0A then [CHR 0x0D, c] else [c]) x)"

lemma crlf_simps [simp]:
  "crlf [] = []" "crlf (c # x) = (if c = CHR 0x0A then [CHR 0x0D, c] else [c]) @ crlf x" "crlf (x @ y) = crlf x @ crlf y"
  by (simp_all add: crlf_def)

lemma enqueue_room: "length q < SERIAL_RING_SIZE - 1 \<Longrightarrow> enqueue q c = q @ [c]"
  by (simp add: enqueue_def)

lemma subseq_enqueue: "subseq (enqueue q c) (q @ [c])"
  by (cases q) (auto simp: enqueue_def)

text \<open>The last \<open>n\<close> elements of a list.\<close>

definition lastn :: "nat \<Rightarrow> 'a list \<Rightarrow> 'a list" where
  "lastn n xs = drop (length xs - n) xs"

lemma lastn_suffix: "suffix (lastn n xs) xs"
  by (simp add: lastn_def suffix_drop)

lemma lastn_mono: "suffix xs ys \<Longrightarrow> suffix (lastn n xs) (lastn n ys)"
  by (auto simp: lastn_def suffix_def)

lemma lastn_append: "lastn n (lastn n xs @ ys) = lastn n (xs @ ys)"
  by (cases "length xs \<le> n") (simp_all add: lastn_def add.commute)

text \<open>
  The driver as seen by its callers, in both modes: a run that starts with \<open>s\<close> and ends with \<open>s'\<close> has sent \<open>x\<close> if the
  characters on the wire and in the queue are those of before, in order, followed by \<open>x\<close>, except that queued ones
  further back than the capacity of the ring may be missing when it had no room; nothing on the wire changes.
\<close>

definition serial_sent :: "serial \<Rightarrow> string \<Rightarrow> serial \<Rightarrow> bool" where
  "serial_sent s x s' \<longleftrightarrow> prefix (wire s) (wire s') \<and> subseq (wire s' @ pending s') (wire s @ pending s @ x)
     \<and> suffix (lastn (SERIAL_RING_SIZE - 1) (wire s @ pending s @ x)) (wire s' @ pending s')
     \<and> (length (pending s) + length x < SERIAL_RING_SIZE \<longrightarrow> wire s' @ pending s' = wire s @ pending s @ x)"

text \<open>The driver is usable: its indices are in range and, in direct mode, the queue is empty and the transmitter keeps
  becoming idle.\<close>

definition serial_usable :: "(nat \<Rightarrow> bool) \<Rightarrow> serial \<Rightarrow> bool" where
  "serial_usable ready s \<longleftrightarrow> serial_inv s \<and> serial_hardware_present s
     \<and> (\<not> async_mode s \<longrightarrow> pending s = [] \<and> (\<forall>k. \<exists>n\<ge>k. ready n))"

lemma lastn_enqueue:
  assumes "length q < SERIAL_RING_SIZE"
  shows "suffix (lastn (SERIAL_RING_SIZE - 1) (w @ q @ [c])) (w @ enqueue q c)"
proof (cases "length q = 16384 - 1")
  case True
  then obtain d r where q: "q = d # r" "length r = 16382" by (cases q) auto
  then have "w @ q @ [c] = (w @ [d]) @ r @ [c]" by simp
  then have "lastn 16383 (w @ q @ [c]) = r @ [c]" using q(2) by (simp only: lastn_def) simp
  then show ?thesis using q by (simp add: enqueue_def suffix_def)
next
  case False
  then show ?thesis by (simp add: enqueue_def lastn_suffix)
qed

lemma serial_sent_refl: "serial_sent s [] s"
  by (simp add: serial_sent_def lastn_suffix)

lemma serial_sent_trans:
  assumes "serial_sent s x s1" and "serial_sent s1 y s2"
  shows "serial_sent s (x @ y) s2"
proof -
  have "subseq (wire s1 @ pending s1 @ y) (wire s @ pending s @ x @ y)"
    using assms(1) list_emb_append_mono[of "(=)" "wire s1 @ pending s1" "wire s @ pending s @ x" y y]
    by (simp add: serial_sent_def)
  then have "subseq (wire s2 @ pending s2) (wire s @ pending s @ x @ y)"
    using assms(2) by (auto simp: serial_sent_def intro: subseq_order.order_trans)
  moreover have "suffix (lastn 16383 (wire s @ pending s @ x @ y)) (wire s2 @ pending s2)"
  proof -
    have "suffix (lastn 16383 (wire s @ pending s @ x) @ y) (wire s1 @ pending s1 @ y)"
      using assms(1) by (auto simp: serial_sent_def suffix_def)
    from lastn_mono[OF this, of 16383]
    have "suffix (lastn 16383 (wire s @ pending s @ x @ y)) (lastn 16383 (wire s1 @ pending s1 @ y))"
      by (simp add: lastn_append)
    then show ?thesis using assms(2) suffix_order.order_trans by (fastforce simp: serial_sent_def)
  qed
  moreover have "wire s2 @ pending s2 = wire s @ pending s @ x @ y"
    if l: "length (pending s) + length (x @ y) < 16384"
  proof -
    have e: "wire s1 @ pending s1 = wire s @ pending s @ x" using assms(1) l by (simp add: serial_sent_def)
    obtain z where "wire s1 = wire s @ z" using assms(1) by (auto simp: serial_sent_def prefix_def)
    then have "length (pending s1) \<le> length (pending s) + length x" using arg_cong[OF e, of length] by simp
    then have "wire s2 @ pending s2 = wire s1 @ pending s1 @ y" using assms(2) l by (simp add: serial_sent_def)
    then show ?thesis using e by simp
  qed
  ultimately show ?thesis using assms by (auto simp: serial_sent_def)
qed

lemma serial_putc_sent:
  assumes "serial_usable ready s"
  shows "\<exists>s'. serial_putc ready c s = Some s' \<and> serial_usable ready s' \<and> serial_sent s [c] s' \<and> async_mode s' = async_mode s"
proof (cases "async_mode s")
  case True
  have i: "serial_inv s" "serial_hardware_present s" using assms by (auto simp: serial_usable_def)
  obtain s' where s': "serial_putc ready c s = Some s'" "serial_inv s'" "serial_hardware_present s'" "async_mode s'"
    "prefix (wire s) (wire s')" "wire s' @ pending s' = wire s @ enqueue (pending s) c"
    using serial_putc_async[OF i True] by blast
  moreover have "suffix (lastn 16383 (wire s @ pending s @ [c])) (wire s @ enqueue (pending s) c)"
    using lastn_enqueue[of "pending s" "wire s" c] length_pending[of s] pending_count_less[of s] by simp
  ultimately have "serial_sent s [c] s'"
    using subseq_enqueue[of "pending s" c] by (auto simp: serial_sent_def enqueue_room intro: list_emb_append_mono)
  then show ?thesis using s' True by (auto simp: serial_usable_def)
next
  case False
  then obtain n where n: "ready n" "polls s \<le> n" and h: "serial_hardware_present s"
    using assms by (auto simp: serial_usable_def)
  obtain m where m: "serial_putc ready c s = Some (s\<lparr>polls := m, wire := wire s @ [c]\<rparr>)"
    using serial_putc_direct[where ready = ready, OF h False n] by blast
  have p: "pending (s\<lparr>polls := m, wire := wire s @ [c]\<rparr>) = []" "pending s = []"
    using assms False by (auto simp: serial_usable_def pending_def pending_count_def)
  then have "serial_sent s [c] (s\<lparr>polls := m, wire := wire s @ [c]\<rparr>)"
    using lastn_suffix[of 16383 "wire s @ [c]"] by (simp add: serial_sent_def del: suffix_snoc)
  then show ?thesis using m p assms False by (auto simp: serial_usable_def serial_inv_def)
qed

lemma serial_write_sent:
  "serial_usable ready s \<Longrightarrow> cstr str = Some x \<Longrightarrow>
   \<exists>s'. serial_write_atomic ready str s = Some s' \<and> serial_usable ready s' \<and> serial_sent s (crlf x) s'
     \<and> async_mode s' = async_mode s"
proof (induction str arbitrary: s x)
  case (Cons c str)
  show ?case
  proof (cases "c = NUL")
    case True
    then show ?thesis using Cons.prems serial_sent_refl by auto
  next
    case False
    then obtain y where y: "cstr str = Some y" "x = c # y" using Cons.prems by auto
    let ?p = "if c = CHR 0x0A then [CHR 0x0D] else []"
    obtain s1 where s1: "(if c = CHR 0x0A then serial_putc ready (CHR 0x0D) s else Some s) = Some s1"
      "serial_usable ready s1" "serial_sent s ?p s1" "async_mode s1 = async_mode s"
      using serial_putc_sent[OF Cons.prems(1), of "CHR 0x0D"] Cons.prems(1) serial_sent_refl by (cases "c = CHR 0x0A") auto
    obtain s2 where s2: "serial_putc ready c s1 = Some s2" "serial_usable ready s2" "serial_sent s1 [c] s2"
      "async_mode s2 = async_mode s1"
      using serial_putc_sent[OF s1(2)] by blast
    obtain s3 where s3: "serial_write_atomic ready str s2 = Some s3" "serial_usable ready s3" "serial_sent s2 (crlf y) s3"
      "async_mode s3 = async_mode s2"
      using Cons.IH[OF s2(2) y(1)] by blast
    have "serial_sent s ((?p @ [c]) @ crlf y) s3"
      using s1(3) s2(3) s3(3) serial_sent_trans by blast
    moreover have "(?p @ [c]) @ crlf y = crlf x" using y(2) by simp
    moreover have "serial_write_atomic ready (c # str) s = Some s3"
      using False s1(1) s2(1) s3(1) by simp
    ultimately show ?thesis using s1 s2 s3 by metis
  qed
qed simp



end
