(* ===== verification/Stdio.thy ===== *)
theory Stdio
  imports Serial
begin

text \<open>
  Formatted output, \<open>src/libc/stdio.c\<close>, with \<open>safe_div64\<close> and \<open>safe_mod64\<close> of \<open>src/system/process/safe_math.c\<close>. A
  \<open>char*\<close> is the list of the characters of the object, as in \<open>Libc_String\<close>; writing outside the buffer, reading past
  the end of the format or of a string argument, a missing argument and a signed overflow of a field width are \<open>None\<close>.
  A variable argument list is a list of 64-bit values, string pointers (\<open>None\<close> is \<open>NULL\<close>) and doubles. The text of a
  double for a width and a precision is a parameter: floating-point arithmetic is not modelled.
\<close>

section \<open>The print context\<close>

definition safe_div64 :: "u64 \<Rightarrow> u64 \<Rightarrow> u64" where
  "safe_div64 dividend divisor = (if divisor = 0 then 0 else dividend div divisor)"

definition safe_mod64 :: "u64 \<Rightarrow> u64 \<Rightarrow> u64" where
  "safe_mod64 dividend divisor = (if divisor = 0 then 0 else dividend mod divisor)"

record print_ctx =
  buffer :: string
  ctx_size :: nat
  written :: nat

definition print_char :: "char \<Rightarrow> print_ctx \<Rightarrow> print_ctx option" where
  "print_char c ctx =
     do { b \<leftarrow> (if ctx_size ctx > 0 \<and> written ctx < ctx_size ctx - 1 then store (buffer ctx) (written ctx) c else Some (buffer ctx));
          Some (ctx\<lparr>buffer := b, written := written ctx + 1\<rparr>) }"

primrec print_pad :: "nat \<Rightarrow> char \<Rightarrow> print_ctx \<Rightarrow> print_ctx option" where
  "print_pad 0 c ctx = Some ctx"
| "print_pad (Suc pad) c ctx = do { ctx1 \<leftarrow> print_char c ctx; print_pad pad c ctx1 }"

fun print_chars :: "string \<Rightarrow> print_ctx \<Rightarrow> print_ctx option" where
  "print_chars [] ctx = None"
| "print_chars (c # s) ctx =
     (if c = NUL then Some ctx else do { ctx1 \<leftarrow> print_char c ctx; print_chars s ctx1 })"

text \<open>The length of a string is converted to \<open>int\<close>.\<close>

definition print_string :: "string option \<Rightarrow> nat \<Rightarrow> bool \<Rightarrow> print_ctx \<Rightarrow> print_ctx option" where
  "print_string s width left_align ctx =
     do { let str = (case s of None \<Rightarrow> ''(null)'' @ [NUL] | Some str \<Rightarrow> str);
          n \<leftarrow> strlen_generic str;
          let len = sint (of_nat n :: u32);
          let pad = (if int width > len then nat (int width - len) else 0);
          ctx1 \<leftarrow> (if \<not> left_align then print_pad pad (CHR '' '') ctx else Some ctx);
          ctx2 \<leftarrow> print_chars str ctx1;
          if left_align then print_pad pad (CHR '' '') ctx2 else Some ctx2 }"

text \<open>The digits of a number, least significant first; \<open>buf\<close> are the cells of the local buffer filled so far.\<close>

function number_digits :: "u64 \<Rightarrow> u64 \<Rightarrow> bool \<Rightarrow> string \<Rightarrow> string" where
  "number_digits n base uppercase buf =
     (if n = 0 then buf
      else let quot = safe_div64 n base;
               rem = n - quot * base;
               c = (if rem > 9 then (if uppercase then rem - 10 + 65 else rem - 10 + 97) else rem + 48);
               buf1 = buf @ [char_of (unat c)]
           in if length buf1 \<ge> 127 then buf1 else number_digits quot base uppercase buf1)"
  by pat_completeness auto

termination
  by (relation "measure (\<lambda>(n, base, up, buf). 127 - length buf)") auto

declare number_digits.simps [simp del]

text \<open>Negating the least 64-bit integer is a signed overflow.\<close>

primrec print_rev :: "string \<Rightarrow> nat \<Rightarrow> print_ctx \<Rightarrow> print_ctx option" where
  "print_rev buf 0 ctx = Some ctx"
| "print_rev buf (Suc i) ctx = do { c \<leftarrow> load buf i; ctx1 \<leftarrow> print_char c ctx; print_rev buf i ctx1 }"

definition print_number ::
  "u64 \<Rightarrow> u64 \<Rightarrow> bool \<Rightarrow> bool \<Rightarrow> nat \<Rightarrow> char \<Rightarrow> print_ctx \<Rightarrow> print_ctx option" where
  "print_number n base is_signed uppercase width padChar ctx =
     do { let is_neg = (is_signed \<and> n <s 0);
          n1 \<leftarrow> (if \<not> is_neg then Some n else if n = 2 ^ 63 then None else Some (- n));
          let buf = (if n1 = 0 then ''0'' else number_digits n1 base uppercase []);
          let i = length buf;
          let len = i + (if is_neg then 1 else 0);
          let padding = (if width > len then width - len else 0);
          ctx1 \<leftarrow> (if is_neg \<and> padChar = CHR ''0'' then print_char (CHR ''-'') ctx else Some ctx);
          let is_neg1 = (is_neg \<and> padChar \<noteq> CHR ''0'');
          ctx2 \<leftarrow> print_pad padding padChar ctx1;
          ctx3 \<leftarrow> (if is_neg1 then print_char (CHR ''-'') ctx2 else Some ctx2);
          print_rev buf i ctx3 }"

section \<open>The format interpreter\<close>

datatype 'd va_arg = Arg_Int u64 | Arg_Str "string option" | Arg_Double 'd

record fmt_spec =
  padChar :: char
  width :: nat
  precision :: int
  left_align :: bool

fun fmt_flags :: "string \<Rightarrow> bool \<Rightarrow> char \<Rightarrow> (string \<times> bool \<times> char) option" where
  "fmt_flags [] la pc = None"
| "fmt_flags (c # fs) la pc =
     (if c = CHR ''-'' then fmt_flags fs True pc
      else if c = CHR ''0'' then fmt_flags fs la (CHR ''0'')
      else Some (c # fs, la, pc))"

definition is_digit :: "char \<Rightarrow> bool" where
  "is_digit c \<longleftrightarrow> 48 \<le> (of_char c :: nat) \<and> of_char c \<le> (57 :: nat)"

fun fmt_digits :: "string \<Rightarrow> nat \<Rightarrow> (string \<times> nat) option" where
  "fmt_digits [] w = None"
| "fmt_digits (c # fs) w =
     (if is_digit c
      then (let w1 = w * 10 + (of_char c - 48) in if w1 < 2 ^ 31 then fmt_digits fs w1 else None)
      else Some (c # fs, w))"

fun fmt_longs :: "string \<Rightarrow> string option" where
  "fmt_longs [] = None"
| "fmt_longs (c # fs) = (if c = CHR ''l'' then fmt_longs fs else Some (c # fs))"

text \<open>The part of a conversion between the percent sign and its letter, and what follows.\<close>

definition fmt_precision :: "string \<Rightarrow> (string \<times> int) option" where
  "fmt_precision fs =
     do { c \<leftarrow> load fs 0;
          if c = CHR ''.'' then do { (fs1, p) \<leftarrow> fmt_digits (tl fs) 0; Some (fs1, int p) } else Some (fs, -1) }"

definition parse_spec :: "string \<Rightarrow> (fmt_spec \<times> string) option" where
  "parse_spec fs =
     do { (fs1, la, pc) \<leftarrow> fmt_flags fs False (CHR '' '');
          (fs2, w) \<leftarrow> fmt_digits fs1 0;
          (fs3, p) \<leftarrow> fmt_precision fs2;
          fs4 \<leftarrow> fmt_longs fs3;
          Some (\<lparr>padChar = pc, width = w, precision = p, left_align = la\<rparr>, fs4) }"

fun va_int :: "'d va_arg list \<Rightarrow> (u64 \<times> 'd va_arg list) option" where
  "va_int (Arg_Int n # args) = Some (n, args)"
| "va_int _ = None"

fun va_str :: "'d va_arg list \<Rightarrow> (string option \<times> 'd va_arg list) option" where
  "va_str (Arg_Str s # args) = Some (s, args)"
| "va_str _ = None"

fun va_double :: "'d va_arg list \<Rightarrow> ('d \<times> 'd va_arg list) option" where
  "va_double (Arg_Double d # args) = Some (d, args)"
| "va_double _ = None"

definition print_arg ::
  "('d \<Rightarrow> nat \<Rightarrow> int \<Rightarrow> string) \<Rightarrow> fmt_spec \<Rightarrow> char \<Rightarrow> 'd va_arg list \<Rightarrow> print_ctx \<Rightarrow> ('d va_arg list \<times> print_ctx) option" where
  "print_arg double_text sp c args ctx =
     (if c = CHR ''c'' then do {
        (n, args1) \<leftarrow> va_int args; ctx1 \<leftarrow> print_char (char_of (unat n)) ctx; Some (args1, ctx1) }
      else if c = CHR ''s'' then do {
        (s, args1) \<leftarrow> va_str args; ctx1 \<leftarrow> print_string s (width sp) (left_align sp) ctx; Some (args1, ctx1) }
      else if c = CHR ''d'' \<or> c = CHR ''i'' then do {
        (n, args1) \<leftarrow> va_int args; ctx1 \<leftarrow> print_number n 10 True False (width sp) (padChar sp) ctx; Some (args1, ctx1) }
      else if c = CHR ''u'' then do {
        (n, args1) \<leftarrow> va_int args; ctx1 \<leftarrow> print_number n 10 False False (width sp) (padChar sp) ctx; Some (args1, ctx1) }
      else if c = CHR ''x'' then do {
        (n, args1) \<leftarrow> va_int args; ctx1 \<leftarrow> print_number n 16 False False (width sp) (padChar sp) ctx; Some (args1, ctx1) }
      else if c = CHR ''X'' then do {
        (n, args1) \<leftarrow> va_int args; ctx1 \<leftarrow> print_number n 16 False True (width sp) (padChar sp) ctx; Some (args1, ctx1) }
      else if c = CHR ''p'' then do {
        ctx1 \<leftarrow> print_string (Some (''0x'' @ [NUL])) 0 False ctx;
        (n, args1) \<leftarrow> va_int args;
        ctx2 \<leftarrow> print_number n 16 False False (width sp) (padChar sp) ctx1;
        Some (args1, ctx2) }
      else if c = CHR ''f'' then do {
        (d, args1) \<leftarrow> va_double args;
        ctx1 \<leftarrow> print_chars (double_text d (width sp) (precision sp) @ [NUL]) ctx;
        Some (args1, ctx1) }
      else if c = CHR ''%'' then do { ctx1 \<leftarrow> print_char (CHR ''%'') ctx; Some (args, ctx1) }
      else do { ctx1 \<leftarrow> print_char (CHR ''%'') ctx; ctx2 \<leftarrow> print_char c ctx1; Some (args, ctx2) })"

lemma fmt_flags_length: "fmt_flags fs la pc = Some (fs1, r) \<Longrightarrow> length fs1 \<le> length fs"
  by (induction fs la pc rule: fmt_flags.induct) (fastforce split: if_splits)+

lemma fmt_digits_length: "fmt_digits fs w = Some (fs1, r) \<Longrightarrow> length fs1 \<le> length fs"
  by (induction fs w rule: fmt_digits.induct) (fastforce simp: Let_def split: if_splits)+

lemma fmt_longs_length: "fmt_longs fs = Some fs1 \<Longrightarrow> length fs1 \<le> length fs"
  by (induction fs rule: fmt_longs.induct) (fastforce split: if_splits)+

lemma fmt_precision_length: "fmt_precision fs = Some (fs1, r) \<Longrightarrow> length fs1 \<le> length fs"
  unfolding fmt_precision_def
  by (cases fs) (auto simp: load_def split: if_splits Option.bind_splits dest!: fmt_digits_length)

lemma parse_spec_length: "parse_spec fs = Some (sp, fs1) \<Longrightarrow> length fs1 \<le> length fs"
  unfolding parse_spec_def
  by (auto split: Option.bind_splits dest!: fmt_flags_length fmt_digits_length fmt_precision_length fmt_longs_length)

text \<open>
  The loop over the format. An unknown letter is printed after the percent sign, the terminator of the format
  included, after which the loop goes on behind it.
\<close>

function printf_loop ::
  "('d \<Rightarrow> nat \<Rightarrow> int \<Rightarrow> string) \<Rightarrow> string \<Rightarrow> 'd va_arg list \<Rightarrow> print_ctx \<Rightarrow> print_ctx option" where
  "printf_loop double_text format args ctx =
     do { c \<leftarrow> load format 0;
          if c = NUL then Some ctx
          else if c \<noteq> CHR ''%'' then do { ctx1 \<leftarrow> print_char c ctx; printf_loop double_text (tl format) args ctx1 }
          else do { (sp, fs) \<leftarrow> parse_spec (tl format);
                    conv \<leftarrow> load fs 0;
                    (args1, ctx1) \<leftarrow> print_arg double_text sp conv args ctx;
                    printf_loop double_text (tl fs) args1 ctx1 } }"
  by pat_completeness auto

termination
  by (relation "measure (\<lambda>(dt, format, args, ctx). length format)")
    (auto simp: load_def simp flip: length_greater_0_conv split: if_splits dest!: parse_spec_length)

declare printf_loop.simps [simp del]

definition do_printf_internal ::
  "('d \<Rightarrow> nat \<Rightarrow> int \<Rightarrow> string) \<Rightarrow> print_ctx \<Rightarrow> string \<Rightarrow> 'd va_arg list \<Rightarrow> print_ctx option" where
  "do_printf_internal double_text ctx format args =
     do { ctx1 \<leftarrow> printf_loop double_text format args ctx;
          if ctx_size ctx1 > 0
          then do { b \<leftarrow> store (buffer ctx1) (if written ctx1 < ctx_size ctx1 then written ctx1 else ctx_size ctx1 - 1) NUL;
                    Some (ctx1\<lparr>buffer := b\<rparr>) }
          else Some ctx1 }"

definition vsnprintf ::
  "('d \<Rightarrow> nat \<Rightarrow> int \<Rightarrow> string) \<Rightarrow> string \<Rightarrow> nat \<Rightarrow> string \<Rightarrow> 'd va_arg list \<Rightarrow> (string \<times> u32) option" where
  "vsnprintf double_text str n format args =
     do { ctx \<leftarrow> do_printf_internal double_text \<lparr>buffer = str, ctx_size = n, written = 0\<rparr> format args;
          Some (buffer ctx, of_nat (written ctx)) }"

definition snprintf ::
  "('d \<Rightarrow> nat \<Rightarrow> int \<Rightarrow> string) \<Rightarrow> string \<Rightarrow> nat \<Rightarrow> string \<Rightarrow> 'd va_arg list \<Rightarrow> (string \<times> u32) option" where
  "snprintf double_text str n format args = vsnprintf double_text str n format args"

text \<open>\<open>sprintf\<close> takes every buffer to have 4096 characters.\<close>

definition sprintf ::
  "('d \<Rightarrow> nat \<Rightarrow> int \<Rightarrow> string) \<Rightarrow> string \<Rightarrow> string \<Rightarrow> 'd va_arg list \<Rightarrow> (string \<times> u32) option" where
  "sprintf double_text str format args = vsnprintf double_text str 4096 format args"

text \<open>\<open>serial_printf\<close> of the serial driver; \<open>buf\<close> is its local buffer.\<close>

definition serial_printf ::
  "('d \<Rightarrow> nat \<Rightarrow> int \<Rightarrow> string) \<Rightarrow> (nat \<Rightarrow> bool) \<Rightarrow> string \<Rightarrow> string \<Rightarrow> 'd va_arg list \<Rightarrow> serial \<Rightarrow> serial option" where
  "serial_printf double_text ready buf format args s =
     do { (buf1, ret) \<leftarrow> vsnprintf double_text buf 1024 format args;
          if 0 <s ret then serial_write ready buf1 s else Some s }"

section \<open>The text of a format\<close>

text \<open>
  What a format and its arguments mean, as a plain string: \<open>None\<close> for a format that ends inside a conversion, lacks
  an argument of the right kind or prints the least 64-bit integer as a signed number.
\<close>

definition digit_text :: "bool \<Rightarrow> nat \<Rightarrow> char" where
  "digit_text upper k = char_of (if k > 9 then k - 10 + (if upper then 65 else 97) else k + 48)"

definition numeral_text :: "nat \<Rightarrow> bool \<Rightarrow> nat \<Rightarrow> string" where
  "numeral_text b upper n = (if n = 0 then ''0'' else rev (map (digit_text upper) (digits_le b n)))"

definition number_text :: "nat \<Rightarrow> bool \<Rightarrow> nat \<Rightarrow> char \<Rightarrow> int \<Rightarrow> string" where
  "number_text b upper w pad v =
     (let ds = numeral_text b upper (nat \<bar>v\<bar>); sign = (if v < 0 then ''-'' else []);
          fill = replicate (w - length (sign @ ds)) pad
      in if pad = CHR ''0'' then sign @ fill @ ds else fill @ sign @ ds)"

definition string_text :: "nat \<Rightarrow> bool \<Rightarrow> string option \<Rightarrow> string option" where
  "string_text w left s =
     do { x \<leftarrow> (case s of None \<Rightarrow> Some ''(null)'' | Some str \<Rightarrow> cstr str);
          if length x < 2 ^ 31
          then Some (let fill = replicate (w - length x) (CHR '' '') in if left then x @ fill else fill @ x)
          else None }"

definition arg_text ::
  "('d \<Rightarrow> nat \<Rightarrow> int \<Rightarrow> string) \<Rightarrow> fmt_spec \<Rightarrow> char \<Rightarrow> 'd va_arg list \<Rightarrow> ('d va_arg list \<times> string) option" where
  "arg_text double_text sp c args =
     (let w = width sp; pad = padChar sp;
          unsigned = (\<lambda>b up. do { (n, args1) \<leftarrow> va_int args; Some (args1, number_text b up w pad (uint n)) })
      in if c = CHR ''c'' then do { (n, args1) \<leftarrow> va_int args; Some (args1, [char_of (unat n)]) }
      else if c = CHR ''s'' then do {
        (s, args1) \<leftarrow> va_str args; x \<leftarrow> string_text w (left_align sp) s; Some (args1, x) }
      else if c = CHR ''d'' \<or> c = CHR ''i'' then do {
        (n, args1) \<leftarrow> va_int args;
        if sint n = - (2 ^ 63) then None else Some (args1, number_text 10 False w pad (sint n)) }
      else if c = CHR ''u'' then unsigned 10 False
      else if c = CHR ''x'' then unsigned 16 False
      else if c = CHR ''X'' then unsigned 16 True
      else if c = CHR ''p'' then map_option (\<lambda>(args1, x). (args1, ''0x'' @ x)) (unsigned 16 False)
      else if c = CHR ''f'' then do {
        (d, args1) \<leftarrow> va_double args;
        let x = double_text d w (precision sp);
        if NUL \<in> set x then None else Some (args1, x) }
      else if c = CHR ''%'' then Some (args, ''%'')
      else if c = NUL then None else Some (args, [CHR ''%'', c]))"

function format_text ::
  "('d \<Rightarrow> nat \<Rightarrow> int \<Rightarrow> string) \<Rightarrow> string \<Rightarrow> 'd va_arg list \<Rightarrow> string option" where
  "format_text double_text format args =
     do { c \<leftarrow> load format 0;
          if c = NUL then Some []
          else if c \<noteq> CHR ''%'' then map_option (Cons c) (format_text double_text (tl format) args)
          else do { (sp, fs) \<leftarrow> parse_spec (tl format);
                    conv \<leftarrow> load fs 0;
                    (args1, x) \<leftarrow> arg_text double_text sp conv args;
                    y \<leftarrow> format_text double_text (tl fs) args1;
                    Some (x @ y) } }"
  by pat_completeness auto

termination
  by (relation "measure (\<lambda>(dt, format, args). length format)")
    (auto simp: load_def simp flip: length_greater_0_conv split: if_splits dest!: parse_spec_length)

declare format_text.simps [simp del]

section \<open>Printing emits the text\<close>

definition emit_char :: "print_ctx \<Rightarrow> char \<Rightarrow> print_ctx" where
  "emit_char ctx c = ctx\<lparr>buffer := (if written ctx + 1 < ctx_size ctx then (buffer ctx)[written ctx := c] else buffer ctx),
     written := written ctx + 1\<rparr>"

abbreviation emit :: "string \<Rightarrow> print_ctx \<Rightarrow> print_ctx" where
  "emit x ctx \<equiv> foldl emit_char ctx x"

definition ctx_ok :: "print_ctx \<Rightarrow> bool" where
  "ctx_ok ctx \<longleftrightarrow> ctx_size ctx \<le> length (buffer ctx)"

lemma ctx_ok_emit [simp]: "ctx_ok (emit x ctx) = ctx_ok ctx"
  by (induction x arbitrary: ctx) (simp_all add: ctx_ok_def emit_char_def)

lemma ctx_ok_emit_char [simp]: "ctx_ok (emit_char ctx c) = ctx_ok ctx"
  by (simp add: ctx_ok_def emit_char_def)

lemma print_char_emit [simp]: "ctx_ok ctx \<Longrightarrow> print_char c ctx = Some (emit_char ctx c)"
  by (auto simp: print_char_def emit_char_def ctx_ok_def store_def)

lemma print_pad_emit [simp]: "ctx_ok ctx \<Longrightarrow> print_pad n c ctx = Some (emit (replicate n c) ctx)"
  by (induction n arbitrary: ctx) simp_all

lemma print_chars_emit [simp]: "ctx_ok ctx \<Longrightarrow> cstr s = Some x \<Longrightarrow> print_chars s ctx = Some (emit x ctx)"
  by (induction s arbitrary: ctx x) (auto split: if_splits)

lemma print_rev_emit: "ctx_ok ctx \<Longrightarrow> i \<le> length buf \<Longrightarrow> print_rev buf i ctx = Some (emit (rev (take i buf)) ctx)"
  by (induction i arbitrary: ctx) (simp_all add: load_def take_Suc_conv_app_nth)

lemma sint_of_nat_int: "n < 2 ^ 31 \<Longrightarrow> sint (of_nat n :: u32) = int n"
  by (simp add: signed_of_nat signed_take_bit_int_eq_self)

lemma print_string_emit:
  assumes "ctx_ok ctx" and "string_text w left s = Some x"
  shows "print_string s w left ctx = Some (emit x ctx)"
proof -
  obtain y where y: "cstr (case s of None \<Rightarrow> ''(null)'' @ [NUL] | Some str \<Rightarrow> str) = Some y" "length y < 2 ^ 31"
    and x: "x = (let fill = replicate (w - length y) (CHR '' '') in if left then y @ fill else fill @ y)"
    using assms(2) by (auto simp: string_text_def split: Option.bind_splits option.splits if_splits)
  have "nat (int w - int (length y)) = w - length y" by auto
  then show ?thesis using assms(1) y x
    by (simp add: print_string_def strlen_generic_cstr sint_of_nat_int Let_def)
qed

lemma string_text_0: "cstr str = Some x \<Longrightarrow> length x < 2 ^ 31 \<Longrightarrow> string_text 0 False (Some str) = Some x"
  by (simp add: string_text_def)

text \<open>The digit loop computes the digits of the number; 64 bits have at most 64 digits, so its limit is not reached.\<close>

lemma digit_char_word:
  fixes w :: u64
  assumes "unat w < 36"
  shows "char_of (unat (if w > 9 then (if upper then w - 10 + 65 else w - 10 + 97) else w + 48)) = digit_text upper (unat w)"
proof -
  have gt: "w > 9 \<longleftrightarrow> unat w > 9" by (simp add: word_less_nat_alt)
  have "unat (w - 10 + of_nat k) = unat w - 10 + k" if "9 < unat w" "k < 128" for k
  proof -
    have "unat (w - 10) = unat w - 10" using that(1) by (subst unat_sub) (simp_all add: word_le_nat_alt)
    moreover have k: "unat (of_nat k :: u64) = k" using that(2) by (simp add: unat_of_nat take_bit_nat_eq_self)
    ultimately show ?thesis using assms that(2) by (subst unat_plus_no_overflow) simp_all
  qed
  from this[of 65] this[of 97] have "9 < unat w \<Longrightarrow> unat (w - 10 + 65) = unat w - 10 + 65 \<and> unat (w - 10 + 97) = unat w - 10 + 97"
    by simp
  moreover have "unat (w + 48) = unat w + 48" using assms by (subst unat_plus_no_overflow) simp_all
  ultimately show ?thesis by (simp add: digit_text_def gt)
qed

lemma number_digits_eq:
  assumes "2 \<le> unat base" and "unat base \<le> 36"
  shows "unat n < 2 ^ k \<Longrightarrow> length buf + k \<le> 126 \<Longrightarrow>
    number_digits n base upper buf = buf @ map (digit_text upper) (digits_le (unat base) (unat n))"
proof (induction k arbitrary: n buf)
  case 0
  then have "n = 0" by (simp add: unat_eq_zero)
  then show ?case by (simp add: number_digits.simps digits_le.simps)
next
  case (Suc k)
  show ?case
  proof (cases "n = 0")
    case True
    then show ?thesis by (simp add: number_digits.simps digits_le.simps)
  next
    case False
    let ?b = "unat base"
    have b0: "base \<noteq> 0" and n0: "unat n \<noteq> 0" using assms False by (auto simp: unat_eq_zero)
    have q: "safe_div64 n base = n div base" using b0 by (simp add: safe_div64_def)
    have r: "n - n div base * base = n mod base" by (simp add: minus_div_mult_eq_mod)
    have m: "unat n mod ?b < 36" using assms mod_less_divisor[of ?b "unat n"] by linarith
    have ds: "digits_le ?b (unat n) = unat n mod ?b # digits_le ?b (unat (n div base))"
      using n0 assms by (subst digits_le.simps) (simp add: unat_div)
    have "unat n div ?b \<le> unat n div 2" using assms by (intro div_le_mono2) simp_all
    then have "unat (n div base) < 2 ^ k" using Suc.prems(1) by (simp add: unat_div)
    note IH = Suc.IH[OF this]
    have c: "char_of (unat (if n mod base > 9 then (if upper then n mod base - 10 + 65 else n mod base - 10 + 97)
        else n mod base + 48)) = digit_text upper (unat n mod ?b)"
      using digit_char_word[of "n mod base" upper] m by (simp only: unat_mod)
    show ?thesis using False Suc.prems(2) IH
      by (subst number_digits.simps) (simp only: Let_def q r c, simp add: ds)
  qed
qed

lemma numeral_text_digits:
  assumes "2 \<le> unat base" and "unat base \<le> 36"
  shows "rev (if n = 0 then ''0'' else number_digits n base upper []) = numeral_text (unat base) upper (unat n)"
  using number_digits_eq[OF assms, of n 64 "[]" upper] unsigned_less[of n, where 'a = nat]
  by (simp add: numeral_text_def unat_eq_zero)

lemma sint_negative:
  fixes n :: u64
  assumes "sint n < 0"
  shows "unat (- n) = nat \<bar>sint n\<bar>"
proof -
  have "- (2 ^ 63) \<le> sint n" using sint_ge[of n] by simp
  then have b: "0 \<le> - sint n" "- sint n < 2 ^ 64" using assms by simp_all
  have e: "- n = of_int (- sint n)" by simp
  have "uint (- n) = (- sint n) mod 2 ^ 64"
    unfolding e by (simp only: uint_word_of_int) simp
  then have "uint (- n) = - sint n" using b by simp
  then show ?thesis using assms by (simp add: unat_eq_nat_uint)
qed

lemma sint_nonnegative:
  fixes n :: u64
  assumes "0 \<le> sint n"
  shows "uint n = sint n"
proof -
  have "uint (of_int (sint n) :: u64) = sint n mod 2 ^ 64" by (simp only: uint_word_of_int) simp
  moreover have "sint n < 2 ^ 64" using sint_lt[of n] by simp
  ultimately show ?thesis using assms by simp
qed

lemma print_number_emit:
  assumes "ctx_ok ctx" and "2 \<le> unat base" and "unat base \<le> 36"
    and v: "v = (if is_signed then sint n else uint n)" and "v \<noteq> - (2 ^ 63)"
  shows "print_number n base is_signed upper w pad ctx = Some (emit (number_text (unat base) upper w pad v) ctx)"
proof -
  let ?neg = "is_signed \<and> n <s 0"
  have neg: "?neg \<longleftrightarrow> v < 0" by (simp add: v word_sless_alt)
  define m where "m = (if ?neg then - n else n)"
  have m: "unat m = nat \<bar>v\<bar>"
  proof (cases ?neg)
    case True
    then show ?thesis using sint_negative[of n] by (simp add: m_def v word_sless_alt)
  next
    case False
    then have "0 \<le> v" using neg by simp
    then have "v = uint n" by (auto simp: v sint_nonnegative split: if_splits)
    moreover have "m = n" using False by (simp only: m_def if_False)
    ultimately show ?thesis by simp
  qed
  have "(if \<not> ?neg then Some n else if n = 2 ^ 63 then None else Some (- n)) = Some m"
  proof -
    have "sint (2 ^ 63 :: u64) = - (2 ^ 63)" by simp
    then show ?thesis using assms(5) by (auto simp: m_def v)
  qed
  moreover define ds where "ds = (if m = 0 then ''0'' else number_digits m base upper [])"
  have r: "rev ds = numeral_text (unat base) upper (nat \<bar>v\<bar>)"
    using numeral_text_digits[OF assms(2,3), of m upper] m by (simp add: ds_def)
  then have l: "length (numeral_text (unat base) upper (nat \<bar>v\<bar>)) = length ds" by (metis length_rev)
  ultimately show ?thesis using assms(1) neg
    by (simp add: print_number_def Let_def number_text_def print_rev_emit l flip: r ds_def)
qed

lemma print_arg_emit:
  assumes "ctx_ok ctx" and "arg_text dt sp c args = Some (args1, x)"
  shows "print_arg dt sp c args ctx = Some (args1, emit x ctx)"
proof -
  have u: "print_number n b False up w pad ctx' = Some (emit (number_text (unat b) up w pad (uint n)) ctx')"
    if "ctx_ok ctx'" "2 \<le> unat b" "unat b \<le> 36" for n b up w pad ctx'
  proof -
    have "- (2 ^ 63) < (0 :: int)" by simp
    with uint_ge_0[of n] have "uint n \<noteq> - (2 ^ 63)" by linarith
    then show ?thesis using that by (intro print_number_emit) simp_all
  qed
  have s: "print_number n 10 True False w pad ctx = Some (emit (number_text 10 False w pad (sint n)) ctx)"
    if "sint n \<noteq> - (2 ^ 63)" for n w pad
    using print_number_emit[of ctx 10 "sint n" True n False w pad] assms(1) that by simp
  have p: "print_string (Some (''0x'' @ [NUL])) 0 False ctx = Some (emit ''0x'' ctx)"
  proof (rule print_string_emit[OF assms(1)])
    have "cstr (''0x'' @ [NUL]) = Some ''0x''" by simp
    moreover have "length ''0x'' = 2" "(2 :: nat) < 2 ^ 31" by simp_all
    ultimately show "string_text 0 False (Some (''0x'' @ [NUL])) = Some ''0x''"
      by (intro string_text_0) (simp_all only:)
  qed
  show ?thesis
  proof (cases "c \<in> {CHR ''c'', CHR ''s'', CHR ''d'', CHR ''i'', CHR ''u'', CHR ''x'', CHR ''X'', CHR ''p'', CHR ''f'', CHR ''%''}")
    case True
    then show ?thesis using assms p
      apply (simp only: insert_iff empty_iff simp_thms)
      apply (elim disjE)
      apply (simp_all only:)
      apply (auto simp: arg_text_def print_arg_def Let_def u s print_string_emit split: Option.bind_splits if_splits)
      done
  next
    case False
    then show ?thesis using assms(1,2) by (auto simp: arg_text_def print_arg_def Let_def split: if_splits)
  qed
qed

lemma printf_loop_emit:
  "ctx_ok ctx \<Longrightarrow> format_text dt format args = Some x \<Longrightarrow> printf_loop dt format args ctx = Some (emit x ctx)"
proof (induction dt format args arbitrary: ctx x rule: format_text.induct)
  case (1 dt format args)
  obtain c where c: "load format 0 = Some c"
    using 1(4) by (subst (asm) format_text.simps) (auto split: Option.bind_splits)
  consider (fin) "c = NUL" | (plain) "c \<noteq> NUL" "c \<noteq> CHR ''%''" | (conv) "c = CHR ''%''" by blast
  then show ?case
  proof cases
    case fin
    then show ?thesis using 1(4) c by (subst printf_loop.simps) (simp add: format_text.simps)
  next
    case plain
    then obtain y where "format_text dt (tl format) args = Some y" "x = c # y"
      using 1(4) c by (subst (asm) format_text.simps) auto
    then show ?thesis using 1(1)[OF c, of "emit_char ctx c" y] plain 1(3) c by (subst printf_loop.simps) simp
  next
    case conv
    then obtain sp fs k args1 y z where *: "parse_spec (tl format) = Some (sp, fs)" "load fs 0 = Some k"
      "arg_text dt sp k args = Some (args1, y)" "format_text dt (tl fs) args1 = Some z" "x = y @ z"
      using 1(4) c by (subst (asm) format_text.simps) (auto split: Option.bind_splits)
    have "printf_loop dt (tl fs) args1 (emit y ctx) = Some (emit z (emit y ctx))"
      using 1(2)[OF c _ _ *(1) refl *(2,3) refl, of "emit y ctx" z] conv 1(3) *(4) by simp
    then show ?thesis using c conv * print_arg_emit[OF 1(3) *(3)] by (subst printf_loop.simps) simp
  qed
qed

lemma emit_written: "written (emit x ctx) = written ctx + length x" "ctx_size (emit x ctx) = ctx_size ctx"
  by (induction x arbitrary: ctx) (simp_all add: emit_char_def)

lemma emit_buffer_0: "ctx_size ctx = 0 \<Longrightarrow> buffer (emit x ctx) = buffer ctx"
  by (induction x arbitrary: ctx) (simp_all add: emit_char_def)

text \<open>The buffer after the characters \<open>x\<close> were emitted into an empty context.\<close>

lemma emit_buffer:
  assumes "ctx_ok ctx" and "written ctx = 0" and "ctx_size ctx = Suc n"
  shows "buffer (emit x ctx) = take n x @ drop (min n (length x)) (buffer ctx)"
  using assms
proof (induction x rule: rev_induct)
  case (snoc c x)
  have l: "Suc n \<le> length (buffer ctx)" using assms by (simp add: ctx_ok_def)
  have w: "written (emit x ctx) = length x" "ctx_size (emit x ctx) = Suc n" using assms by (simp_all add: emit_written)
  show ?case
  proof (cases "length x < n")
    case True
    then have "drop (length x) (buffer ctx) = buffer ctx ! length x # drop (Suc (length x)) (buffer ctx)"
      using l by (intro Cons_nth_drop_Suc[symmetric]) simp
    moreover have "min n (length x) = length x" "min n (Suc (length x)) = Suc (length x)" using True by simp_all
    ultimately show ?thesis using snoc True w by (simp add: emit_char_def[of "emit x ctx"] list_update_append)
  next
    case False
    then show ?thesis using snoc w by (simp add: emit_char_def[of "emit x ctx"] min_def)
  qed
qed simp

lemma format_text_NUL: "format_text dt (NUL # fs) args = Some []"
  by (subst format_text.simps) (simp add: load_def)

lemma format_text_plain:
  "c \<noteq> NUL \<Longrightarrow> c \<noteq> CHR ''%'' \<Longrightarrow> format_text dt (c # fs) args = map_option (Cons c) (format_text dt fs args)"
  by (subst format_text.simps) (simp add: load_def)

lemma format_text_conv:
  assumes "parse_spec fs = Some (sp, k # fs1)" and "arg_text dt sp k args = Some (args1, x)"
  shows "format_text dt (CHR ''%'' # fs) args = map_option ((@) x) (format_text dt fs1 args1)"
  using assms by (subst format_text.simps) (cases "format_text dt fs1 args1", simp_all add: load_def)

lemmas format_text_steps = format_text_NUL format_text_plain format_text_conv

lemma vsnprintf_text:
  assumes "format_text dt format args = Some x" and "n \<le> length str"
  shows "vsnprintf dt str n format args
    = Some (if n = 0 then str else take (n - 1) x @ NUL # drop (min n (length x + 1)) str, of_nat (length x))"
proof -
  let ?c = "\<lparr>buffer = str, ctx_size = n, written = 0\<rparr>"
  have ok: "ctx_ok ?c" using assms(2) by (simp add: ctx_ok_def)
  note loop = printf_loop_emit[OF ok assms(1)]
  show ?thesis
  proof (cases n)
    case 0
    then show ?thesis using loop emit_buffer_0[of ?c x]
      by (simp add: vsnprintf_def do_printf_internal_def emit_written)
  next
    case (Suc k)
    let ?i = "min k (length x)"
    have b: "buffer (emit x ?c) = take k x @ drop ?i str" using emit_buffer[OF ok, of k x] Suc by simp
    have i: "?i < length str" "length (take k x) = ?i" using assms(2) Suc by simp_all
    have "drop ?i str = str ! ?i # drop (Suc ?i) str" using i by (intro Cons_nth_drop_Suc[symmetric])
    then have st: "store (take k x @ drop ?i str) ?i NUL = Some (take k x @ NUL # drop (Suc ?i) str)"
      using i by (simp add: store_def list_update_append)
    have "ctx_size (emit x ?c) = n" "written (emit x ?c) = length x" by (simp_all add: emit_written)
    moreover have "(if length x < n then length x else n - 1) = ?i" "0 < n" using Suc by auto
    ultimately have "do_printf_internal dt ?c format args = Some ((emit x ?c)\<lparr>buffer := take k x @ NUL # drop (Suc ?i) str\<rparr>)"
      by (simp only: do_printf_internal_def loop b st bind.bind_lunit if_True)
    moreover have "take k x @ NUL # drop (Suc ?i) str = take (n - 1) x @ NUL # drop (min n (length x + 1)) str" "n \<noteq> 0"
      using Suc by simp_all
    ultimately show ?thesis by (simp add: vsnprintf_def emit_written)
  qed
qed

text \<open>
  \<^bold>\<open>C10.\<close> \<open>vsnprintf\<close> is equivalent to cutting the text of the format to the buffer: for a well-formed format it returns the full
  length of the text, writes as much of it as fits before a terminating NUL, leaves the rest of the buffer alone and
  writes nothing at all for size 0. The text itself is defined on numbers and lists: sign, padding and digits of the
  mathematical value, strings padded on either side, percent signs and unknown letters copied.
\<close>

theorem vsnprintf_correct:
  assumes "format_text dt format args = Some x" and "n \<le> length str"
  shows "vsnprintf dt str n format args
    = Some (if n = 0 then str else take (n - 1) x @ NUL # drop (min n (length x + 1)) str, of_nat (length x))"
  using assms by (rule vsnprintf_text)

theorem vsnprintf_correct_witness:
  "vsnprintf (\<lambda>_ _ _. []) (replicate 8 (CHR ''#'')) 6 (''a=%03d%x'' @ [NUL]) [Arg_Int (- 5), Arg_Int 255 :: unit va_arg]
     = Some (''a=-05'' @ [NUL] @ ''##'', 7)"
proof -
  let ?f = "\<lambda>(_ :: unit) (_ :: nat) (_ :: int). [] :: string"
  have p1: "parse_spec (''03d%x'' @ [NUL])
      = Some (\<lparr>padChar = CHR ''0'', width = 3, precision = -1, left_align = False\<rparr>, ''d%x'' @ [NUL])"
    by (simp add: parse_spec_def fmt_precision_def load_def is_digit_def)
  have p2: "parse_spec (''x'' @ [NUL])
      = Some (\<lparr>padChar = CHR '' '', width = 0, precision = -1, left_align = False\<rparr>, ''x'' @ [NUL])"
    by (simp add: parse_spec_def fmt_precision_def load_def is_digit_def)
  have n1: "number_text 10 False 3 (CHR ''0'') (- 5) = ''-05''"
    by (simp add: number_text_def numeral_text_def digits_le.simps digit_text_def char_of_def bit_0)
  have n2: "number_text 16 False 0 (CHR '' '') 255 = ''ff''"
    by (simp add: number_text_def numeral_text_def digits_le.simps digit_text_def char_of_def bit_0)
  have "format_text ?f (''a=%03d%x'' @ [NUL]) [Arg_Int (- 5), Arg_Int 255] = Some ''a=-05ff''"
    using p1 p2 n1 n2 by (simp add: format_text_steps arg_text_def)
  from vsnprintf_correct[OF this, of 6 "replicate 8 (CHR ''#'')"] show ?thesis
    by (simp add: numeral_eq_Suc)
qed

section \<open>The kernel log\<close>

text \<open>
  The line buffer in front of the serial port and the two sinks of \<open>printf\<close>. What the console was given is kept as a
  string; drawing it is not modelled. All of it runs under \<open>screen_lock\<close>. Whether a kernel panic is in progress and
  whether there is a current process with the silent flag are arguments.
\<close>

abbreviation (input) SERIAL_BUF_SIZE :: nat where "SERIAL_BUF_SIZE \<equiv> 1024"

record stdio =
  serial_line_buf :: string
  serial_buf_pos :: nat
  serial_buffering_enabled :: bool
  port :: serial
  console_text :: string

definition flush_serial_buffer_locked :: "(nat \<Rightarrow> bool) \<Rightarrow> stdio \<Rightarrow> stdio option" where
  "flush_serial_buffer_locked ready st =
     (if serial_buf_pos st > 0
      then do { b \<leftarrow> store (serial_line_buf st) (serial_buf_pos st) NUL;
                p \<leftarrow> serial_write ready b (port st);
                Some (st\<lparr>serial_line_buf := b, serial_buf_pos := 0, port := p\<rparr>) }
      else Some st)"

definition buf_put :: "char \<Rightarrow> stdio \<Rightarrow> stdio option" where
  "buf_put c st =
     do { b \<leftarrow> store (serial_line_buf st) (serial_buf_pos st) c;
          Some (st\<lparr>serial_line_buf := b, serial_buf_pos := serial_buf_pos st + 1\<rparr>) }"

fun serial_buffer_loop :: "(nat \<Rightarrow> bool) \<Rightarrow> string \<Rightarrow> stdio \<Rightarrow> stdio option" where
  "serial_buffer_loop ready [] st = None"
| "serial_buffer_loop ready (c # str) st =
     (if c = NUL then Some st
      else do {
        st1 \<leftarrow> (if serial_buf_pos st < SERIAL_BUF_SIZE - 2
                 then (if c = CHR 0x0A
                       then do { a \<leftarrow> buf_put (CHR 0x0D) st; b \<leftarrow> buf_put (CHR 0x0A) a; flush_serial_buffer_locked ready b }
                       else buf_put c st)
                 else do { a \<leftarrow> flush_serial_buffer_locked ready st; buf_put c a });
        serial_buffer_loop ready str st1 })"

definition serial_write_buffered :: "(nat \<Rightarrow> bool) \<Rightarrow> string \<Rightarrow> stdio \<Rightarrow> stdio option" where
  "serial_write_buffered ready str st =
     (if \<not> serial_buffering_enabled st
      then do { p \<leftarrow> serial_write ready str (port st); Some (st\<lparr>port := p\<rparr>) }
      else serial_buffer_loop ready str st)"

definition kprintf_string :: "(nat \<Rightarrow> bool) \<Rightarrow> bool \<Rightarrow> bool option \<Rightarrow> string \<Rightarrow> stdio \<Rightarrow> stdio option" where
  "kprintf_string ready panic proc str st =
     do { let is_silent = (\<not> panic \<and> proc = Some True);
          text \<leftarrow> cstr str;
          let st1 = (if \<not> is_silent then st\<lparr>console_text := console_text st @ text\<rparr> else st);
          serial_write_buffered ready str st1 }"

definition vprintf ::
  "('d \<Rightarrow> nat \<Rightarrow> int \<Rightarrow> string) \<Rightarrow> (nat \<Rightarrow> bool) \<Rightarrow> bool \<Rightarrow> bool option \<Rightarrow> string \<Rightarrow> string \<Rightarrow> 'd va_arg list \<Rightarrow> stdio \<Rightarrow> stdio option" where
  "vprintf double_text ready panic proc local_buf format args st =
     do { ctx \<leftarrow> do_printf_internal double_text \<lparr>buffer = local_buf, ctx_size = 1024, written = 0\<rparr> format args;
          let is_silent = (\<not> panic \<and> proc = Some True);
          text \<leftarrow> cstr (buffer ctx);
          let st1 = (if \<not> is_silent then st\<lparr>console_text := console_text st @ text\<rparr> else st);
          serial_write_buffered ready (buffer ctx) st1 }"

definition stdio_set_buffering :: "(nat \<Rightarrow> bool) \<Rightarrow> bool \<Rightarrow> stdio \<Rightarrow> stdio option" where
  "stdio_set_buffering ready enabled st =
     do { st1 \<leftarrow> (if \<not> enabled then flush_serial_buffer_locked ready st else Some st);
          Some (st1\<lparr>serial_buffering_enabled := enabled\<rparr>) }"

definition stdio_flush :: "(nat \<Rightarrow> bool) \<Rightarrow> stdio \<Rightarrow> stdio option" where
  "stdio_flush ready st = flush_serial_buffer_locked ready st"

text \<open>The line buffer keeps two cells free, holds no NUL, and its port is usable.\<close>

definition queued :: "stdio \<Rightarrow> string" where
  "queued st = take (serial_buf_pos st) (serial_line_buf st)"

definition stdio_inv :: "(nat \<Rightarrow> bool) \<Rightarrow> stdio \<Rightarrow> bool" where
  "stdio_inv ready st \<longleftrightarrow> length (serial_line_buf st) = SERIAL_BUF_SIZE \<and> serial_buf_pos st \<le> SERIAL_BUF_SIZE - 2
     \<and> NUL \<notin> set (queued st) \<and> serial_usable ready (port st)"

lemma line_flush_ok:
  assumes "length (serial_line_buf st) = SERIAL_BUF_SIZE" and "serial_buf_pos st < SERIAL_BUF_SIZE"
    and "NUL \<notin> set (queued st)" and "serial_usable ready (port st)"
  shows "\<exists>st'. flush_serial_buffer_locked ready st = Some st' \<and> stdio_inv ready st' \<and> serial_buf_pos st' = 0
    \<and> serial_sent (port st) (crlf (queued st)) (port st') \<and> console_text st' = console_text st
    \<and> serial_buffering_enabled st' = serial_buffering_enabled st"
proof (cases "serial_buf_pos st")
  case 0
  then show ?thesis using assms serial_sent_refl
    by (auto simp: flush_serial_buffer_locked_def stdio_inv_def queued_def)
next
  case (Suc k)
  let ?b = "(serial_line_buf st)[serial_buf_pos st := NUL]"
  have "?b = queued st @ NUL # drop (Suc (serial_buf_pos st)) (serial_line_buf st)"
    using assms(1,2) by (simp add: queued_def upd_conv_take_nth_drop)
  then have "cstr ?b = Some (queued st)" using assms(3) by simp
  then obtain p where "serial_write_atomic ready ?b (port st) = Some p" "serial_usable ready p"
    "serial_sent (port st) (crlf (queued st)) p"
    using serial_write_sent[OF assms(4), of ?b "queued st"] by blast
  then show ?thesis using Suc assms
    by (auto simp: flush_serial_buffer_locked_def store_def serial_write_def stdio_inv_def queued_def)
qed

lemma buf_put_ok:
  assumes "length (serial_line_buf st) = SERIAL_BUF_SIZE" and "serial_buf_pos st < SERIAL_BUF_SIZE"
  shows "\<exists>st'. buf_put c st = Some st' \<and> length (serial_line_buf st') = SERIAL_BUF_SIZE
    \<and> serial_buf_pos st' = serial_buf_pos st + 1 \<and> queued st' = queued st @ [c] \<and> port st' = port st
    \<and> console_text st' = console_text st \<and> serial_buffering_enabled st' = serial_buffering_enabled st"
  using assms by (simp add: buf_put_def store_def queued_def take_Suc_conv_app_nth)

text \<open>
  One character of the loop: \<open>z\<close> is what it flushes to the port and \<open>e\<close> what the character became, itself or itself
  after a carriage return.
\<close>

definition buffered :: "(nat \<Rightarrow> bool) \<Rightarrow> stdio \<Rightarrow> string \<Rightarrow> stdio \<Rightarrow> bool" where
  "buffered ready st x st' \<longleftrightarrow> stdio_inv ready st' \<and> console_text st' = console_text st
     \<and> serial_buffering_enabled st' = serial_buffering_enabled st
     \<and> (\<exists>z e. serial_sent (port st) (crlf z) (port st') \<and> z @ queued st' = queued st @ e
          \<and> filter (\<lambda>c. c \<noteq> CHR 0x0D) e = filter (\<lambda>c. c \<noteq> CHR 0x0D) x)"

lemma buffered_trans:
  assumes "buffered ready st x st1" and "buffered ready st1 y st2"
  shows "buffered ready st (x @ y) st2"
proof -
  obtain z e z' e' where "serial_sent (port st) (crlf z) (port st1)" "z @ queued st1 = queued st @ e"
    "filter (\<lambda>c. c \<noteq> CHR 0x0D) e = filter (\<lambda>c. c \<noteq> CHR 0x0D) x"
    "serial_sent (port st1) (crlf z') (port st2)" "z' @ queued st2 = queued st1 @ e'"
    "filter (\<lambda>c. c \<noteq> CHR 0x0D) e' = filter (\<lambda>c. c \<noteq> CHR 0x0D) y"
    using assms unfolding buffered_def by blast
  moreover have "(z @ z') @ queued st2 = queued st @ e @ e'" using calculation by (metis append_assoc)
  moreover have "serial_sent (port st) (crlf (z @ z')) (port st2)"
    using calculation serial_sent_trans[of "port st" "crlf z" "port st1" "crlf z'" "port st2"] by simp
  ultimately show ?thesis using assms unfolding buffered_def
    by (intro conjI exI[of _ "z @ z'"] exI[of _ "e @ e'"]) simp_all
qed

lemma buffered_char:
  assumes "stdio_inv ready st" and "c \<noteq> NUL"
  shows "\<exists>st1. (if serial_buf_pos st < SERIAL_BUF_SIZE - 2
       then (if c = CHR 0x0A
             then do { a \<leftarrow> buf_put (CHR 0x0D) st; b \<leftarrow> buf_put (CHR 0x0A) a; flush_serial_buffer_locked ready b }
             else buf_put c st)
       else do { a \<leftarrow> flush_serial_buffer_locked ready st; buf_put c a }) = Some st1 \<and> buffered ready st [c] st1"
proof -
  have i: "length (serial_line_buf st) = 1024" "serial_buf_pos st < 1024" "NUL \<notin> set (queued st)" "serial_usable ready (port st)"
    using assms(1) by (auto simp: stdio_inv_def)
  consider (line) "serial_buf_pos st < 1022" "c = CHR 0x0A" | (char) "serial_buf_pos st < 1022" "c \<noteq> CHR 0x0A"
    | (full) "\<not> serial_buf_pos st < 1022" by blast
  then show ?thesis
  proof cases
    case line
    obtain a where a: "buf_put (CHR 0x0D) st = Some a" "length (serial_line_buf a) = 1024"
      "serial_buf_pos a = serial_buf_pos st + 1" "queued a = queued st @ [CHR 0x0D]" "port a = port st"
      "console_text a = console_text st" "serial_buffering_enabled a = serial_buffering_enabled st"
      using buf_put_ok[OF i(1,2)] by blast
    have "serial_buf_pos a < 1024" using a line by simp
    from buf_put_ok[OF a(2) this] obtain b where b: "buf_put (CHR 0x0A) a = Some b" "length (serial_line_buf b) = 1024"
      "serial_buf_pos b = serial_buf_pos a + 1" "queued b = queued a @ [CHR 0x0A]" "port b = port a"
      "console_text b = console_text a" "serial_buffering_enabled b = serial_buffering_enabled a" by blast
    have "serial_buf_pos b < 1024" "NUL \<notin> set (queued b)" "serial_usable ready (port b)"
      using a b line i by simp_all
    from line_flush_ok[OF b(2) this] obtain d where d: "flush_serial_buffer_locked ready b = Some d" "stdio_inv ready d"
      "serial_buf_pos d = 0" "serial_sent (port b) (crlf (queued b)) (port d)" "console_text d = console_text b"
      "serial_buffering_enabled d = serial_buffering_enabled b" by blast
    have "queued b @ queued d = queued st @ [CHR 0x0D, CHR 0x0A]" using a b d by (simp add: queued_def)
    then have "buffered ready st [c] d" unfolding buffered_def using a b d line
      by (intro conjI exI[of _ "queued b"] exI[of _ "[CHR 0x0D, CHR 0x0A]"]) simp_all
    then show ?thesis using line a(1) b(1) d(1) by simp
  next
    case char
    obtain a where a: "buf_put c st = Some a" "length (serial_line_buf a) = 1024"
      "serial_buf_pos a = serial_buf_pos st + 1" "queued a = queued st @ [c]" "port a = port st"
      "console_text a = console_text st" "serial_buffering_enabled a = serial_buffering_enabled st"
      using buf_put_ok[OF i(1,2)] by blast
    then have "buffered ready st [c] a" unfolding buffered_def using char i assms(2) serial_sent_refl
      by (intro conjI exI[of _ "[]"] exI[of _ "[c]"]) (simp_all add: stdio_inv_def)
    then show ?thesis using char a(1) by simp
  next
    case full
    from line_flush_ok[OF i] obtain d where d: "flush_serial_buffer_locked ready st = Some d" "stdio_inv ready d"
      "serial_buf_pos d = 0" "serial_sent (port st) (crlf (queued st)) (port d)" "console_text d = console_text st"
      "serial_buffering_enabled d = serial_buffering_enabled st" by blast
    have "length (serial_line_buf d) = 1024" "serial_buf_pos d < 1024" using d by (simp_all add: stdio_inv_def)
    from buf_put_ok[OF this] obtain a where a: "buf_put c d = Some a" "length (serial_line_buf a) = 1024"
      "serial_buf_pos a = serial_buf_pos d + 1" "queued a = queued d @ [c]" "port a = port d"
      "console_text a = console_text d" "serial_buffering_enabled a = serial_buffering_enabled d" by blast
    have "queued d = []" using d(3) by (simp add: queued_def)
    then have "buffered ready st [c] a" unfolding buffered_def using a d assms(2)
      by (intro conjI exI[of _ "queued st"] exI[of _ "[c]"]) (simp_all add: stdio_inv_def)
    then show ?thesis using full a(1) d(1) by simp
  qed
qed

text \<open>
  Buffered output stays inside the line buffer and loses nothing: what reaches the port followed by what stays in the
  buffer is the old contents of the buffer followed by the string, up to carriage returns.
\<close>

lemma serial_buffer_loop_ok:
  "stdio_inv ready st \<Longrightarrow> cstr str = Some x \<Longrightarrow> \<exists>st'. serial_buffer_loop ready str st = Some st' \<and> buffered ready st x st'"
proof (induction str arbitrary: st x)
  case (Cons c str)
  show ?case
  proof (cases "c = NUL")
    case True
    then have "buffered ready st x st" unfolding buffered_def using Cons.prems serial_sent_refl
      by (intro conjI exI[of _ "[]"]) simp_all
    then show ?thesis using True by simp
  next
    case False
    then obtain y where y: "cstr str = Some y" "x = [c] @ y" using Cons.prems by auto
    obtain st1 where st1: "serial_buffer_loop ready (c # str) st = serial_buffer_loop ready str st1" "buffered ready st [c] st1"
      using buffered_char[OF Cons.prems(1) False] False by auto
    then obtain st2 where "serial_buffer_loop ready str st1 = Some st2" "buffered ready st1 y st2"
      using Cons.IH[of st1 y] y(1) by (auto simp: buffered_def)
    then show ?thesis using st1 y(2) buffered_trans by metis
  qed
qed simp

text \<open>
  \<^bold>\<open>C38.\<close> A kernel message printed with line buffering on reaches both sinks: the console gets the first 1023 characters
  of the text (nothing if the process is silent and there is no panic), and the same characters, with carriage
  returns added, go to the serial port and the line buffer in order, none of them lost.
\<close>

theorem vprintf_delivers:
  assumes "format_text dt format args = Some x" and "NUL \<notin> set x" and "length local_buf = 1024"
    and "stdio_inv ready st" and "serial_buffering_enabled st"
  shows "\<exists>st' z e. vprintf dt ready panic proc local_buf format args st = Some st' \<and> stdio_inv ready st'
    \<and> console_text st' = console_text st @ (if \<not> panic \<and> proc = Some True then [] else take 1023 x)
    \<and> serial_sent (port st) (crlf z) (port st') \<and> z @ queued st' = queued st @ e
    \<and> filter (\<lambda>c. c \<noteq> CHR 0x0D) e = filter (\<lambda>c. c \<noteq> CHR 0x0D) (take 1023 x)"
proof -
  let ?t = "take 1023 x @ NUL # drop (min 1024 (length x + 1)) local_buf"
  let ?s = "if \<not> panic \<and> proc = Some True then st else st\<lparr>console_text := console_text st @ take 1023 x\<rparr>"
  have "vsnprintf dt local_buf 1024 format args = Some (?t, of_nat (length x))"
    using vsnprintf_text[OF assms(1), of 1024 local_buf] assms(3) by simp
  then obtain ctx where ctx: "do_printf_internal dt \<lparr>buffer = local_buf, ctx_size = 1024, written = 0\<rparr> format args = Some ctx"
    "buffer ctx = ?t" by (auto simp: vsnprintf_def split: Option.bind_splits)
  have t: "cstr ?t = Some (take 1023 x)" using assms(2) by (intro cstr_append_NUL) (auto dest: in_set_takeD)
  have "stdio_inv ready ?s" using assms(4) by (simp add: stdio_inv_def queued_def)
  from serial_buffer_loop_ok[OF this t] obtain st' where st': "serial_buffer_loop ready ?t ?s = Some st'"
    "buffered ready ?s (take 1023 x) st'" by blast
  have "vprintf dt ready panic proc local_buf format args st = Some st'"
    using ctx t st'(1) assms(5) by (auto simp: vprintf_def serial_write_buffered_def Let_def split: if_splits)
  moreover have "console_text ?s = console_text st @ (if \<not> panic \<and> proc = Some True then [] else take 1023 x)"
    "port ?s = port st" "queued ?s = queued st" by (simp_all add: queued_def)
  ultimately show ?thesis using st'(2) unfolding buffered_def by metis
qed

theorem vprintf_delivers_witness:
  "\<exists>st'. vprintf (\<lambda>(_ :: unit) _ _. []) (\<lambda>_. True) False None (replicate 1024 NUL) (''ok'' @ [NUL]) []
      \<lparr>serial_line_buf = replicate 1024 NUL, serial_buf_pos = 0, serial_buffering_enabled = True,
        port = init_serial_early serial_boot, console_text = []\<rparr> = Some st' \<and> console_text st' = ''ok''"
proof -
  let ?st = "\<lparr>serial_line_buf = replicate 1024 NUL, serial_buf_pos = 0, serial_buffering_enabled = True,
        port = init_serial_early serial_boot, console_text = []\<rparr>"
  have f: "format_text (\<lambda>(_ :: unit) _ _. []) (''ok'' @ [NUL]) [] = Some ''ok''" by (simp add: format_text_steps)
  have "pending (init_serial_early serial_boot) = []"
    by (simp add: pending_def pending_count_def init_serial_early_def serial_boot_def)
  then have i: "stdio_inv (\<lambda>_. True) ?st"
    by (auto simp: stdio_inv_def queued_def serial_usable_def serial_inv_def init_serial_early_def serial_boot_def)
  obtain st' where "vprintf (\<lambda>(_ :: unit) _ _. []) (\<lambda>_. True) False None (replicate 1024 NUL) (''ok'' @ [NUL]) [] ?st = Some st'"
    "console_text st' = console_text ?st @ (if \<not> False \<and> None = Some True then [] else take 1023 ''ok'')"
    using vprintf_delivers[OF f _ _ i, of "replicate 1024 NUL" False None] by auto
  then show ?thesis by (intro exI[of _ st']) (simp add: take_Cons')
qed

end
