(* ===== verification/Rtc.thy ===== *)
theory Rtc
  imports Stdio
begin

text \<open>
  The real-time clock driver of \<open>src/archs/cpu/x86_64/drivers/rtc/rtc.cpp\<close>. The CMOS chip is the parameter \<open>cmos\<close>: the
  value of a register at the n-th read; the number of reads is threaded through. The firmware clock is the optional
  time it returns, the time zone an argument. The lock around the sequence of reads is left out.
\<close>

section \<open>The driver\<close>

record rtc_time =
  second :: u8
  minute :: u8
  hour :: u8
  day :: u8
  month :: u8
  year :: u16

type_synonym cmos = "nat \<Rightarrow> u8 \<Rightarrow> u8"

abbreviation (input) CMOS_REG_STATUS_A :: u8 where "CMOS_REG_STATUS_A \<equiv> 0x0A"
abbreviation (input) CMOS_REG_STATUS_B :: u8 where "CMOS_REG_STATUS_B \<equiv> 0x0B"

definition cmos_read :: "cmos \<Rightarrow> u8 \<Rightarrow> nat \<Rightarrow> u8 \<times> nat" where
  "cmos_read cmos reg n = (cmos n reg, n + 1)"

definition bcd_to_bin :: "u8 \<Rightarrow> u8" where
  "bcd_to_bin bcd = ((drop_bit 4 bcd) AND 0x0F) * 10 + (bcd AND 0x0F)"

definition cmos_is_updating :: "cmos \<Rightarrow> nat \<Rightarrow> bool \<times> nat" where
  "cmos_is_updating cmos n = (let (a, n1) = cmos_read cmos CMOS_REG_STATUS_A n in ((a AND 0x80) \<noteq> 0, n1))"

text \<open>A polling loop with a limit: the value of the counter after it, and the reads done.\<close>

fun cmos_poll :: "cmos \<Rightarrow> bool \<Rightarrow> nat \<Rightarrow> nat \<Rightarrow> int \<times> nat" where
  "cmos_poll cmos waiting 0 n = (-1, n)"
| "cmos_poll cmos waiting (Suc timeout) n =
     (let (u, n1) = cmos_is_updating cmos n in if u = waiting then cmos_poll cmos waiting timeout n1 else (int timeout, n1))"

fun cmos_stable_attempts :: "cmos \<Rightarrow> nat \<Rightarrow> nat \<Rightarrow> bool \<times> nat" where
  "cmos_stable_attempts cmos 0 n = (False, n)"
| "cmos_stable_attempts cmos (Suc k) n =
     (let (_, n1) = cmos_poll cmos False 1000000 n;
          (timeout, n2) = cmos_poll cmos True 100000 n1
      in if timeout > 0 then (True, n2) else cmos_stable_attempts cmos k n2)"

definition cmos_wait_for_stable :: "cmos \<Rightarrow> nat \<Rightarrow> bool \<times> nat" where
  "cmos_wait_for_stable cmos n = cmos_stable_attempts cmos 2 n"

text \<open>The six registers of the clock, in the order they are read.\<close>

record cmos_raw =
  raw_sec :: u8
  raw_min :: u8
  raw_hr :: u8
  raw_day :: u8
  raw_mon :: u8
  raw_yr :: u8

definition cmos_read_clock :: "cmos \<Rightarrow> nat \<Rightarrow> cmos_raw \<times> nat" where
  "cmos_read_clock cmos n =
     (let (_, n0) = cmos_wait_for_stable cmos n;
          (s, n1) = cmos_read cmos 0x00 n0;
          (m, n2) = cmos_read cmos 0x02 n1;
          (h, n3) = cmos_read cmos 0x04 n2;
          (d, n4) = cmos_read cmos 0x07 n3;
          (mo, n5) = cmos_read cmos 0x08 n4;
          (y, n6) = cmos_read cmos 0x09 n5
      in (\<lparr>raw_sec = s, raw_min = m, raw_hr = h, raw_day = d, raw_mon = mo, raw_yr = y\<rparr>, n6))"

partial_function (option) cmos_read_twice :: "cmos \<Rightarrow> nat \<Rightarrow> (cmos_raw \<times> nat) option" where
  "cmos_read_twice cmos n =
     (let (r1, n1) = cmos_read_clock cmos n;
          (r2, n2) = cmos_read_clock cmos n1
      in if r1 = r2 then Some (r2, n2) else cmos_read_twice cmos n2)"

definition hour_12 :: "bool \<Rightarrow> u8 \<Rightarrow> u8" where
  "hour_12 pm hr = (if pm \<and> hr \<noteq> 12 then hr + 12 else if \<not> pm \<and> hr = 12 then 0 else hr)"

definition cmos_convert :: "u8 \<Rightarrow> cmos_raw \<Rightarrow> rtc_time" where
  "cmos_convert status_b raw =
     (let is_binary = (status_b AND 0x04) \<noteq> 0;
          is_24hr = (status_b AND 0x02) \<noteq> 0;
          conv = (\<lambda>x. if \<not> is_binary then bcd_to_bin x else x);
          sec = conv (raw_sec raw); mi = conv (raw_min raw); d = conv (raw_day raw); mon = conv (raw_mon raw);
          yr = ucast (conv (raw_yr raw)) :: u16;
          hr0 = raw_hr raw;
          hr = (if \<not> is_24hr then hour_12 ((hr0 AND 0x80) \<noteq> 0) (conv (hr0 AND 0x7F)) else conv hr0)
      in \<lparr>second = sec, minute = mi, hour = hr,
          day = (if d \<ge> 1 \<and> d \<le> 31 then d else 1),
          month = (if mon \<ge> 1 \<and> mon \<le> 12 then mon else 1),
          year = (if yr \<ge> 70 then 1900 + yr else 2000 + yr)\<rparr>)"

definition cmos_get_time_raw :: "cmos \<Rightarrow> nat \<Rightarrow> (rtc_time \<times> nat) option" where
  "cmos_get_time_raw cmos n =
     do { (raw, n1) \<leftarrow> cmos_read_twice cmos n;
          let (status_b, n2) = cmos_read cmos CMOS_REG_STATUS_B n1;
          Some (cmos_convert status_b raw, n2) }"

definition apply_timezone :: "int \<Rightarrow> rtc_time \<Rightarrow> rtc_time" where
  "apply_timezone timezone t =
     (let tz = (if timezone < -12 \<or> timezone > 14 then 0 else timezone)
      in if tz \<noteq> 0
         then (let new_hour = uint (hour t) + tz
               in t\<lparr>hour := word_of_int (if new_hour \<ge> 24 then new_hour - 24 else if new_hour < 0 then new_hour + 24 else new_hour)\<rparr>)
         else t)"

definition get_time :: "cmos \<Rightarrow> rtc_time option \<Rightarrow> int \<Rightarrow> nat \<Rightarrow> (rtc_time \<times> nat) option" where
  "get_time cmos efi timezone n =
     do { (t, n1) \<leftarrow> (case efi of Some t \<Rightarrow> Some (t, n) | None \<Rightarrow> cmos_get_time_raw cmos n);
          Some (apply_timezone timezone t, n1) }"

definition get_formatted_time :: "rtc_time \<Rightarrow> string \<Rightarrow> (string \<times> u32) option" where
  "get_formatted_time t buf =
     sprintf (\<lambda>_ _ _. []) buf (''%02d:%02d:%02d'' @ [NUL])
       [Arg_Int (ucast (hour t)), Arg_Int (ucast (minute t)), Arg_Int (ucast (second t)) :: unit va_arg]"

text \<open>\<open>rtc_wait_one_second\<close>: \<open>tsc k\<close> is the k-th reading of the time stamp counter.\<close>

partial_function (option) wait_second_loop :: "cmos \<Rightarrow> (nat \<Rightarrow> u64) \<Rightarrow> u64 \<Rightarrow> u8 \<Rightarrow> nat \<Rightarrow> nat \<Rightarrow> nat option" where
  "wait_second_loop cmos tsc timeout_cycles start_sec n k =
     (let (s, n1) = cmos_read cmos 0x00 n
      in if s \<noteq> start_sec then Some n1
         else if tsc k - tsc 0 > timeout_cycles then Some n1
         else wait_second_loop cmos tsc timeout_cycles start_sec n1 (k + 1))"

definition rtc_wait_one_second :: "cmos \<Rightarrow> (nat \<Rightarrow> u64) \<Rightarrow> u64 \<Rightarrow> nat \<Rightarrow> nat option" where
  "rtc_wait_one_second cmos tsc freq n =
     (let timeout_cycles = (if freq = 0 then 2000000000 else freq);
          (start_sec, n1) = cmos_read cmos 0x00 n
      in wait_second_loop cmos tsc timeout_cycles start_sec n1 1)"

section \<open>Decoding\<close>

text \<open>What the chip stores for a time in each of its modes.\<close>

definition chip_byte :: "bool \<Rightarrow> nat \<Rightarrow> u8" where
  "chip_byte binary v = of_nat (if binary then v else 16 * (v div 10) + v mod 10)"

definition chip_hour :: "bool \<Rightarrow> bool \<Rightarrow> nat \<Rightarrow> u8" where
  "chip_hour binary h24 h =
     (if h24 then chip_byte binary h
      else (if h \<ge> 12 then 0x80 else 0) OR chip_byte binary (if h mod 12 = 0 then 12 else h mod 12))"

definition chip_raw :: "bool \<Rightarrow> bool \<Rightarrow> nat \<Rightarrow> nat \<Rightarrow> nat \<Rightarrow> nat \<Rightarrow> nat \<Rightarrow> nat \<Rightarrow> cmos_raw" where
  "chip_raw binary h24 s mi h d mo y =
     \<lparr>raw_sec = chip_byte binary s, raw_min = chip_byte binary mi, raw_hr = chip_hour binary h24 h,
      raw_day = chip_byte binary d, raw_mon = chip_byte binary mo, raw_yr = chip_byte binary (y mod 100)\<rparr>"

lemma all_less_iff_upt: "(\<forall>v < n. P v) \<longleftrightarrow> list_all P [0..<n]"
  by (auto simp: list_all_iff)

lemma bcd_byte_all: "\<forall>v < 100. bcd_to_bin (chip_byte False v) = of_nat v"
  unfolding all_less_iff_upt by code_simp

lemma bcd_byte: "v < 100 \<Longrightarrow> bcd_to_bin (chip_byte False v) = of_nat v"
  using bcd_byte_all by blast

lemma hour_bcd_all: "\<forall>h < 24. hour_12 ((chip_hour False False h AND 0x80) \<noteq> 0) (bcd_to_bin (chip_hour False False h AND 0x7F)) = of_nat h"
  unfolding all_less_iff_upt by code_simp

lemma hour_binary_all: "\<forall>h < 24. hour_12 ((chip_hour True False h AND 0x80) \<noteq> 0) (chip_hour True False h AND 0x7F) = of_nat h"
  unfolding all_less_iff_upt by code_simp

lemma day_all: "\<forall>d < 32. 1 \<le> d \<longrightarrow> (of_nat d :: u8) \<ge> 1 \<and> (of_nat d :: u8) \<le> 31"
  unfolding all_less_iff_upt by code_simp

lemma month_all: "\<forall>m < 13. 1 \<le> m \<longrightarrow> (of_nat m :: u8) \<ge> 1 \<and> (of_nat m :: u8) \<le> 12"
  unfolding all_less_iff_upt by code_simp

lemma year_all: "\<forall>v < 100. (let yr = ucast (of_nat v :: u8) :: u16 in if yr \<ge> 70 then 1900 + yr else 2000 + yr)
    = of_nat (if v \<ge> 70 then 1900 + v else 2000 + v)"
  unfolding all_less_iff_upt by code_simp

lemma year_split: "1970 \<le> (y :: nat) \<Longrightarrow> y < 2070 \<Longrightarrow> (if y mod 100 \<ge> 70 then 1900 + y mod 100 else 2000 + y mod 100) = y"
proof (cases "y < 2000")
  case True
  assume a: "1970 \<le> y"
  have "y mod 100 = (y - 1900 + 19 * 100) mod 100" using a by simp
  also have "\<dots> = y - 1900" using True by (subst mod_mult_self1) simp
  finally have "y mod 100 = y - 1900" .
  then show ?thesis using a by auto
next
  case False
  assume a: "y < 2070"
  have "y mod 100 = (y - 2000 + 20 * 100) mod 100" using False by simp
  also have "\<dots> = y - 2000" using a by (subst mod_mult_self1) simp
  finally have "y mod 100 = y - 2000" .
  then show ?thesis using a False by auto
qed

lemma conv_byte:
  "v < 100 \<Longrightarrow> (if \<not> binary then bcd_to_bin (chip_byte binary v) else chip_byte binary v) = of_nat v"
  by (cases binary) (simp_all add: bcd_byte, simp add: chip_byte_def)

lemma conv_hour:
  "h < 24 \<Longrightarrow> (if \<not> h24 then hour_12 ((chip_hour binary h24 h AND 0x80) \<noteq> 0)
      (if \<not> binary then bcd_to_bin (chip_hour binary h24 h AND 0x7F) else chip_hour binary h24 h AND 0x7F)
    else if \<not> binary then bcd_to_bin (chip_hour binary h24 h) else chip_hour binary h24 h) = of_nat h"
  using hour_bcd_all hour_binary_all conv_byte[of h binary]
  by (cases h24; cases binary) (simp_all add: chip_hour_def[of _ True])

lemma cmos_convert_chip:
  assumes "s < 60" and "mi < 60" and "h < 24" and "1 \<le> d" and "d \<le> 31" and "1 \<le> mo" and "mo \<le> 12" and "1970 \<le> y" and "y < 2070"
    and "binary \<longleftrightarrow> status_b AND 0x04 \<noteq> 0" and "h24 \<longleftrightarrow> status_b AND 0x02 \<noteq> 0"
  shows "cmos_convert status_b (chip_raw binary h24 s mi h d mo y)
    = \<lparr>second = of_nat s, minute = of_nat mi, hour = of_nat h, day = of_nat d, month = of_nat mo, year = of_nat y\<rparr>"
proof -
  have ym: "y mod 100 < 100" by simp
  have yr: "(if ucast (of_nat (y mod 100) :: u8) \<ge> (70 :: u16) then 1900 + ucast (of_nat (y mod 100) :: u8)
      else 2000 + ucast (of_nat (y mod 100) :: u8)) = (of_nat y :: u16)"
    using year_all[rule_format, OF ym] year_split[OF assms(8,9)] by (simp only: Let_def)
  have dm: "(of_nat d :: u8) \<ge> 1 \<and> (of_nat d :: u8) \<le> 31" "(of_nat mo :: u8) \<ge> 1 \<and> (of_nat mo :: u8) \<le> 12"
    using day_all month_all assms(4-7) by auto
  have b: "s < 100" "mi < 100" "d < 100" "mo < 100" using assms by simp_all
  show ?thesis
    unfolding cmos_convert_def chip_raw_def cmos_raw.simps Let_def assms(10,11)[symmetric]
      conv_byte[OF b(1)] conv_byte[OF b(2)] conv_byte[OF b(3)] conv_byte[OF b(4)] conv_byte[OF ym] conv_hour[OF assms(3)] yr
    using dm by simp
qed

text \<open>
  \<^bold>\<open>C40.\<close> The clock reads back what the chip stores: if the registers hold a valid date between 1970 and 2069 in any of the four
  modes (binary or BCD, 12 or 24 hours) and do not change while they are read, reading them ends, whatever the update
  flag does, and returns exactly that date and time.
\<close>

theorem rtc_decode_roundtrip:
  assumes "s < 60" and "mi < 60" and "h < 24" and "1 \<le> d" and "d \<le> 31" and "1 \<le> mo" and "mo \<le> 12" and "1970 \<le> y" and "y < 2070"
    and "raw = chip_raw (status_b AND 0x04 \<noteq> 0) (status_b AND 0x02 \<noteq> 0) s mi h d mo y"
    and "\<And>n. map (cmos n) [0x00, 0x02, 0x04, 0x07, 0x08, 0x09, 0x0B]
      = [raw_sec raw, raw_min raw, raw_hr raw, raw_day raw, raw_mon raw, raw_yr raw, status_b]"
  shows "\<exists>n'. cmos_get_time_raw cmos n = Some (\<lparr>second = of_nat s, minute = of_nat mi, hour = of_nat h, day = of_nat d,
      month = of_nat mo, year = of_nat y\<rparr>, n')"
proof -
  have r: "fst (cmos_read_clock cmos k) = raw" for k
    using assms(11) by (simp add: cmos_read_clock_def cmos_read_def split: prod.splits)
  have "cmos_read_twice cmos n = Some (raw, snd (cmos_read_clock cmos (snd (cmos_read_clock cmos n))))"
    using r by (subst cmos_read_twice.simps) (simp add: split_beta)
  moreover have "cmos k 0x0B = status_b" for k using assms(11)[of k] by simp
  moreover have "cmos_convert status_b raw = \<lparr>second = of_nat s, minute = of_nat mi, hour = of_nat h, day = of_nat d,
      month = of_nat mo, year = of_nat y\<rparr>"
    unfolding assms(10) by (rule cmos_convert_chip[OF assms(1-9)]) simp_all
  ultimately show ?thesis by (simp add: cmos_get_time_raw_def cmos_read_def)
qed

theorem rtc_decode_roundtrip_witness:
  "\<exists>n'. cmos_get_time_raw (\<lambda>_ reg. if reg = 0x00 then 0x59 else if reg = 0x02 then 0x30 else if reg = 0x04 then 0x91
       else if reg = 0x07 then 0x28 else if reg = 0x08 then 0x02 else if reg = 0x09 then 0x24 else 0) 0
     = Some (\<lparr>second = 59, minute = 30, hour = 23, day = 28, month = 2, year = 2024\<rparr>, n')"
  using rtc_decode_roundtrip[of 59 30 23 28 2 2024 "chip_raw False False 59 30 23 28 2 2024" 0
      "\<lambda>_ reg. if reg = 0x00 then 0x59 else if reg = 0x02 then 0x30 else if reg = 0x04 then 0x91
       else if reg = 0x07 then 0x28 else if reg = 0x08 then 0x02 else if reg = 0x09 then 0x24 else 0" 0]
  by (simp add: chip_raw_def chip_hour_def chip_byte_def)

section \<open>Time zones\<close>

text \<open>
  The shift by the time zone keeps the hour valid and is the shift modulo 24; the date is left as it was, also when the
  shift passes midnight.
\<close>

lemma wrap_24:
  fixes n :: int
  assumes "- 24 \<le> n" and "n < 48"
  shows "(if n \<ge> 24 then n - 24 else if n < 0 then n + 24 else n) = n mod 24"
proof -
  have "n \<ge> 24 \<Longrightarrow> (n - 24) mod 24 = n - 24" "n < 0 \<Longrightarrow> (n + 24) mod 24 = n + 24" "0 \<le> n \<Longrightarrow> n < 24 \<Longrightarrow> n mod 24 = n"
    using assms by (intro mod_pos_pos_trivial; simp)+
  then show ?thesis by auto
qed

lemma apply_timezone_hour:
  assumes "uint (hour t) < 24" and "-12 \<le> tz" and "tz \<le> 14"
  shows "uint (hour (apply_timezone tz t)) = (uint (hour t) + tz) mod 24"
    and "day (apply_timezone tz t) = day t" and "month (apply_timezone tz t) = month t" and "year (apply_timezone tz t) = year t"
proof -
  let ?h = "uint (hour t)"
  let ?n = "?h + tz"
  let ?m = "if ?n \<ge> 24 then ?n - 24 else if ?n < 0 then ?n + 24 else ?n"
  have h: "0 \<le> ?h" by simp
  have m: "?m = ?n mod 24" using assms h by (intro wrap_24; linarith)
  have "uint (word_of_int (?n mod 24) :: u8) = ?n mod 24"
    by (simp add: uint_word_of_int mod_pos_pos_trivial pos_mod_bound order_less_trans[OF pos_mod_bound])
  then show "uint (hour (apply_timezone tz t)) = ?n mod 24"
    using assms h m by (auto simp: apply_timezone_def)
qed (simp_all add: apply_timezone_def Let_def)

end
