(* ===== verification/Service_Manager.thy ===== *)
theory Service_Manager
  imports Libc_String
begin

text \<open>
  The service manager of \<open>src/system/init/service.cpp\<close> and \<open>service.hpp\<close>. The table is the list of its registered
  entries, an entry point is the parameter type \<open>'f\<close>, and the kernel tasks created are kept in the order of creation;
  the list of processes that \<open>monitor\<close> walks is an argument. Messages and the locks are left out: \<open>startAll\<close> and
  \<open>monitor\<close> do not take the lock of the table.
\<close>

section \<open>The service table\<close>

datatype service_state =
  SERVICE_STOPPED | SERVICE_STARTING | SERVICE_RUNNING | SERVICE_FINISHED | SERVICE_FAILED | SERVICE_DEAD

datatype restart_policy = RESTART_NEVER | RESTART_ON_FAILURE | RESTART_ALWAYS

datatype service_type = SERVICE_TYPE_DAEMON | SERVICE_TYPE_ONESHOT | SERVICE_TYPE_BACKGROUND

record 'f service_unit =
  svc_name :: string
  entry_point :: 'f
  state :: service_state
  policy :: restart_policy
  svc_type :: service_type
  pid :: int
  restarts :: u32
  dependency :: "string option"

record 'f service_manager =
  services :: "'f service_unit list"
  spawned :: "'f list"

abbreviation (input) MAX_SERVICES :: nat where "MAX_SERVICES \<equiv> 32"

definition service_manager_init :: "'f service_manager \<Rightarrow> 'f service_manager" where
  "service_manager_init m = m\<lparr>services := []\<rparr>"

definition register_service ::
  "string \<Rightarrow> 'f \<Rightarrow> service_type \<Rightarrow> restart_policy \<Rightarrow> string option \<Rightarrow> 'f service_manager \<Rightarrow> 'f service_manager option" where
  "register_service name func type pol dep m =
     (if length (services m) \<ge> MAX_SERVICES then Some m
      else do {
        n \<leftarrow> strncpy (replicate 32 NUL) name 31;
        n1 \<leftarrow> store n 31 NUL;
        Some (m\<lparr>services := services m @ [\<lparr>svc_name = n1, entry_point = func, state = SERVICE_STOPPED, policy = pol,
          svc_type = type, pid = -1, restarts = 0, dependency = dep\<rparr>]\<rparr>) })"

definition create_kernel_task :: "'f \<Rightarrow> 'f service_manager \<Rightarrow> 'f service_manager" where
  "create_kernel_task f m = m\<lparr>spawned := spawned m @ [f]\<rparr>"

definition set_service :: "nat \<Rightarrow> 'f service_unit \<Rightarrow> 'f service_manager \<Rightarrow> 'f service_manager" where
  "set_service i s m = m\<lparr>services := (services m)[i := s]\<rparr>"

fun dep_ready :: "'f service_unit list \<Rightarrow> string \<Rightarrow> bool option" where
  "dep_ready [] dep = Some False"
| "dep_ready (s # ss) dep =
     do { r \<leftarrow> strcmp (svc_name s) dep;
          if r = 0 \<and> (state s = SERVICE_RUNNING \<or> state s = SERVICE_FINISHED) then Some True else dep_ready ss dep }"

definition start_service :: "nat \<Rightarrow> 'f service_manager \<Rightarrow> 'f service_manager option" where
  "start_service i m =
     do { s \<leftarrow> load (services m) i;
          dep_ok \<leftarrow> (case dependency s of None \<Rightarrow> Some True | Some dep \<Rightarrow> dep_ready (services m) dep);
          if \<not> dep_ok then Some m
          else if state s = SERVICE_STOPPED
          then do {
            let m1 = set_service i (s\<lparr>state := SERVICE_STARTING\<rparr>) m;
            let m2 = create_kernel_task (entry_point s) m1;
            Some (set_service i (s\<lparr>state := SERVICE_RUNNING\<rparr>) m2) }
          else Some m }"

primrec start_loop :: "nat \<Rightarrow> nat \<Rightarrow> 'f service_manager \<Rightarrow> 'f service_manager option" where
  "start_loop i 0 m = Some m"
| "start_loop i (Suc k) m = do { m1 \<leftarrow> start_service i m; start_loop (Suc i) k m1 }"

definition start_all :: "'f service_manager \<Rightarrow> 'f service_manager option" where
  "start_all m = start_loop 0 (length (services m)) m"

fun signal_loop :: "string \<Rightarrow> 'f service_unit list \<Rightarrow> 'f service_unit list option" where
  "signal_loop name [] = Some []"
| "signal_loop name (s # ss) =
     do { r \<leftarrow> strcmp (svc_name s) name;
          if r = 0
          then Some ((if svc_type s = SERVICE_TYPE_ONESHOT \<or> svc_type s = SERVICE_TYPE_BACKGROUND
                      then s\<lparr>state := SERVICE_FINISHED\<rparr> else s) # ss)
          else map_option (Cons s) (signal_loop name ss) }"

definition signal_finished :: "string \<Rightarrow> 'f service_manager \<Rightarrow> 'f service_manager option" where
  "signal_finished name m = do { ss \<leftarrow> signal_loop name (services m); Some (m\<lparr>services := ss\<rparr>) }"

text \<open>One round of \<open>monitor\<close>; a process is its thread function and whether it is a zombie or dead.\<close>

fun service_alive :: "'f \<Rightarrow> ('f \<times> bool) list \<Rightarrow> bool" where
  "service_alive f [] = False"
| "service_alive f ((fn, gone) # ps) = (if fn = f \<and> \<not> gone then True else service_alive f ps)"

definition monitor_service :: "('f \<times> bool) list \<Rightarrow> nat \<Rightarrow> 'f service_manager \<Rightarrow> 'f service_manager option" where
  "monitor_service procs i m =
     do { s \<leftarrow> load (services m) i;
          if state s = SERVICE_RUNNING \<and> \<not> service_alive (entry_point s) procs
          then (if svc_type s = SERVICE_TYPE_ONESHOT \<or> svc_type s = SERVICE_TYPE_BACKGROUND
                then Some (set_service i (s\<lparr>state := SERVICE_FINISHED\<rparr>) m)
                else let m1 = set_service i (s\<lparr>state := SERVICE_DEAD\<rparr>) m
                     in if policy s = RESTART_ALWAYS \<or> policy s = RESTART_ON_FAILURE
                        then Some (set_service i (s\<lparr>state := SERVICE_RUNNING, restarts := restarts s + 1\<rparr>)
                                    (create_kernel_task (entry_point s) m1))
                        else Some m1)
          else Some m }"

primrec monitor_loop :: "(nat \<Rightarrow> ('f \<times> bool) list) \<Rightarrow> nat \<Rightarrow> nat \<Rightarrow> 'f service_manager \<Rightarrow> 'f service_manager option" where
  "monitor_loop procs i 0 m = Some m"
| "monitor_loop procs i (Suc k) m = do { m1 \<leftarrow> monitor_service (procs i) i m; monitor_loop procs (Suc i) k m1 }"

definition monitor_round :: "(nat \<Rightarrow> ('f \<times> bool) list) \<Rightarrow> 'f service_manager \<Rightarrow> 'f service_manager option" where
  "monitor_round procs m = monitor_loop procs 0 (length (services m)) m"

text \<open>
  \<open>waitForOneshots\<close>: \<open>table k\<close> is the service table the k-th round finds and \<open>ticks k\<close> the k-th reading of the timer,
  the first of them before the loop. The result is the number of the round in which it returns.
\<close>

definition all_done :: "'f service_unit list \<Rightarrow> bool" where
  "all_done ss = (\<not> list_ex (\<lambda>s. svc_type s = SERVICE_TYPE_ONESHOT \<and> state s = SERVICE_RUNNING) ss)"

partial_function (option) wait_loop ::
  "(nat \<Rightarrow> 'f service_unit list) \<Rightarrow> (nat \<Rightarrow> u64) \<Rightarrow> nat \<Rightarrow> nat option" where
  "wait_loop table ticks k =
     (if all_done (table k) then Some k
      else if ticks (Suc k) - ticks 0 > 1000 then Some k
      else wait_loop table ticks (Suc k))"

definition wait_for_oneshots :: "(nat \<Rightarrow> 'f service_unit list) \<Rightarrow> (nat \<Rightarrow> u64) \<Rightarrow> nat option" where
  "wait_for_oneshots table ticks = wait_loop table ticks 0"

definition status_name :: "service_state \<Rightarrow> string" where
  "status_name st = (case st of SERVICE_RUNNING \<Rightarrow> ''RUNNING'' | SERVICE_STOPPED \<Rightarrow> ''STOPPED''
     | SERVICE_STARTING \<Rightarrow> ''STARTING'' | SERVICE_FINISHED \<Rightarrow> ''FINISHED'' | SERVICE_FAILED \<Rightarrow> ''FAILED''
     | SERVICE_DEAD \<Rightarrow> ''DEAD'')"

section \<open>Registration\<close>

text \<open>Every name in the table and every dependency is a terminated string, and the table has at most 32 entries.\<close>

definition services_wf :: "'f service_manager \<Rightarrow> bool" where
  "services_wf m \<longleftrightarrow> length (services m) \<le> MAX_SERVICES
     \<and> (\<forall>s\<in>set (services m). NUL \<in> set (svc_name s) \<and> (\<forall>d. dependency s = Some d \<longrightarrow> NUL \<in> set d))"

lemma register_service_ok:
  assumes "services_wf m" and "cstr name = Some x" and "\<forall>d. dep = Some d \<longrightarrow> NUL \<in> set d"
  shows "\<exists>m'. register_service name func type pol dep m = Some m' \<and> services_wf m' \<and> spawned m' = spawned m
    \<and> (if length (services m) = MAX_SERVICES then m' = m
       else \<exists>s. services m' = services m @ [s] \<and> cstr (svc_name s) = Some (take 31 x) \<and> state s = SERVICE_STOPPED)"
proof (cases "length (services m) = 32")
  case True
  then show ?thesis using assms(1) by (simp add: register_service_def)
next
  case False
  let ?b = "take 31 (x @ replicate 31 NUL) @ drop 31 (replicate 32 NUL)"
  have n: "strncpy (replicate 32 NUL) name 31 = Some ?b"
    using strncpy_text[OF assms(2), of 31 "replicate 32 NUL"] by simp
  have l: "length ?b = 32" by simp
  have "?b[31 := NUL] = take 31 ?b @ NUL # drop 32 ?b" using l by (subst upd_conv_take_nth_drop) simp_all
  also have "\<dots> = take 31 x @ replicate (31 - length x) NUL @ [NUL]" by simp
  also have "\<dots> = take 31 x @ NUL # replicate (31 - length x) NUL" by (simp only: replicate_append_same)
  finally have e: "?b[31 := NUL] = take 31 x @ NUL # replicate (31 - length x) NUL" .
  have nul: "NUL \<notin> set (take 31 x)" using cstr_no_NUL[OF assms(2)] by (auto dest: in_set_takeD)
  have "cstr (?b[31 := NUL]) = Some (take 31 x)" unfolding e using nul by simp
  moreover have "NUL \<in> set (?b[31 := NUL])" unfolding e by simp
  moreover have "\<not> 32 \<le> length (services m)" using False assms(1) by (simp add: services_wf_def)
  ultimately show ?thesis using n l assms(1,3) False
    by (auto simp: register_service_def store_def services_wf_def)
qed

section \<open>Starting the services\<close>

abbreviation (input) up :: "service_state \<Rightarrow> bool" where
  "up st \<equiv> st = SERVICE_RUNNING \<or> st = SERVICE_FINISHED"

lemma dep_ready_eq:
  assumes "\<forall>s\<in>set ss. NUL \<in> set (svc_name s)" and "cstr dep = Some d"
  shows "dep_ready ss dep = Some (\<exists>s\<in>set ss. cstr (svc_name s) = Some d \<and> up (state s))"
  using assms(1)
proof (induction ss)
  case (Cons s ss)
  then obtain x where x: "cstr (svc_name s) = Some x" by (auto simp: cstr_def)
  obtain r where "strcmp (svc_name s) dep = Some r" "r = 0 \<longleftrightarrow> x = d" using strcmp_cstr[OF x assms(2)] by blast
  then show ?case using Cons x by auto
qed simp

text \<open>
  The dependency of service \<open>i\<close> is met when the loop over the table reaches it: services before it have the state the
  call has given them, the others the state from before.
\<close>

definition dep_met :: "'f service_manager \<Rightarrow> 'f service_manager \<Rightarrow> nat \<Rightarrow> bool" where
  "dep_met m m' i \<longleftrightarrow> (\<forall>d. dependency (services m ! i) = Some d \<longrightarrow>
     (\<exists>j < length (services m). cstr (svc_name (services m ! j)) = cstr d
        \<and> up (state (services (if j < i then m' else m) ! j))))"

definition started :: "'f service_manager \<Rightarrow> 'f service_manager \<Rightarrow> nat \<Rightarrow> bool" where
  "started m m' i \<longleftrightarrow> state (services m ! i) = SERVICE_STOPPED \<and> dep_met m m' i"

definition started_upto :: "nat \<Rightarrow> 'f service_manager \<Rightarrow> 'f service_manager \<Rightarrow> bool" where
  "started_upto n m m' \<longleftrightarrow> length (services m') = length (services m)
     \<and> (\<forall>i < length (services m). services m' ! i
          = (if i < n \<and> started m m' i then (services m ! i)\<lparr>state := SERVICE_RUNNING\<rparr> else services m ! i))
     \<and> spawned m' = spawned m @ map (\<lambda>i. entry_point (services m ! i)) (filter (started m m') [0..<n])"

lemma dep_met_cong: "(\<And>j. j < i \<Longrightarrow> services m1 ! j = services m2 ! j) \<Longrightarrow> dep_met m m1 i = dep_met m m2 i"
  by (simp add: dep_met_def)

lemma services_nth_wf:
  assumes "services_wf m" and "i < length (services m)"
  shows "NUL \<in> set (svc_name (services m ! i))" and "dependency (services m ! i) = Some d \<Longrightarrow> NUL \<in> set d"
  using assms by (auto simp: services_wf_def)

lemma started_upto_nth:
  assumes "started_upto n m m'" and "i < length (services m)"
  shows "svc_name (services m' ! i) = svc_name (services m ! i)" and "n \<le> i \<Longrightarrow> services m' ! i = services m ! i"
  using assms by (simp_all add: started_upto_def)

lemma start_service_dep:
  assumes wf: "services_wf m" and inv: "started_upto i m m'" and i: "i < length (services m)"
  shows "(case dependency (services m ! i) of None \<Rightarrow> Some True | Some dep \<Rightarrow> dep_ready (services m') dep) = Some (dep_met m m' i)"
proof (cases "dependency (services m ! i)")
  case None
  then show ?thesis by (simp add: dep_met_def)
next
  case (Some dep)
  then have "NUL \<in> set dep" using services_nth_wf(2)[OF wf i] by blast
  then obtain d where d: "cstr dep = Some d" by (auto simp: cstr_def)
  have l: "length (services m') = length (services m)" using inv by (simp add: started_upto_def)
  have "\<forall>s\<in>set (services m'). NUL \<in> set (svc_name s)"
    using started_upto_nth(1)[OF inv] services_nth_wf(1)[OF wf] l by (auto simp: in_set_conv_nth)
  then have "dep_ready (services m') dep = Some (\<exists>s\<in>set (services m'). cstr (svc_name s) = Some d \<and> up (state s))"
    using d by (rule dep_ready_eq)
  also have "(\<exists>s\<in>set (services m'). cstr (svc_name s) = Some d \<and> up (state s))
      \<longleftrightarrow> (\<exists>j < length (services m). cstr (svc_name (services m' ! j)) = Some d \<and> up (state (services m' ! j)))"
    using l by (metis in_set_conv_nth)
  also have "\<dots> \<longleftrightarrow> dep_met m m' i"
    using started_upto_nth[OF inv] Some d by (auto simp: dep_met_def not_less split: if_splits)
  finally show ?thesis using Some by simp
qed

lemma start_service_step:
  assumes wf: "services_wf m" and inv: "started_upto i m m'" and i: "i < length (services m)"
  shows "\<exists>m''. start_service i m' = Some m'' \<and> started_upto (Suc i) m m''"
proof -
  have l: "length (services m') = length (services m)" and s: "services m' ! i = services m ! i"
    using inv i by (simp_all add: started_upto_def)
  let ?s = "services m ! i"
  let ?m2 = "m'\<lparr>services := (services m')[i := ?s\<lparr>state := SERVICE_RUNNING\<rparr>], spawned := spawned m' @ [entry_point ?s]\<rparr>"
  let ?m = "if started m m' i then ?m2 else m'"
  have st: "start_service i m' = Some ?m"
    using start_service_dep[OF wf inv i] i l s
    by (simp add: start_service_def load_def started_def set_service_def create_kernel_task_def)
  have eq: "started m ?m j = started m m' j" if "j \<le> i" for j
    using that dep_met_cong[of j ?m m' m] by (simp add: started_def)
  have f: "filter (started m ?m) [0..<i] = filter (started m m') [0..<i]" using eq by (intro filter_cong) simp_all
  have "started_upto (Suc i) m ?m"
    unfolding started_upto_def
  proof (intro conjI allI impI)
    fix j assume j: "j < length (services m)"
    consider "j < i" | "j = i" | "i < j" by linarith
    then show "services ?m ! j = (if j < Suc i \<and> started m ?m j then (services m ! j)\<lparr>state := SERVICE_RUNNING\<rparr> else services m ! j)"
      using inv eq[of j] j l s by cases (auto simp: started_upto_def)
  next
    show "spawned ?m = spawned m @ map (\<lambda>i. entry_point (services m ! i)) (filter (started m ?m) [0..<Suc i])"
      using inv eq[of i] f by (simp add: started_upto_def)
  qed (use l in simp)
  then show ?thesis using st by blast
qed

lemma start_loop_ok:
  "services_wf m \<Longrightarrow> started_upto i m m' \<Longrightarrow> i + k = length (services m) \<Longrightarrow>
   \<exists>m''. start_loop i k m' = Some m'' \<and> started_upto (i + k) m m''"
proof (induction k arbitrary: i m')
  case (Suc k)
  then obtain m1 where "start_service i m' = Some m1" "started_upto (Suc i) m m1"
    using start_service_step[of m i m'] by auto
  then show ?case using Suc.IH[of "Suc i" m1] Suc.prems by simp
qed simp


definition example_services :: "nat service_manager" where
  "example_services = \<lparr>services =
     [\<lparr>svc_name = ''log'' @ [NUL], entry_point = 7, state = SERVICE_STOPPED, policy = RESTART_NEVER,
       svc_type = SERVICE_TYPE_DAEMON, pid = -1, restarts = 0, dependency = Some (''net'' @ [NUL])\<rparr>,
      \<lparr>svc_name = ''net'' @ [NUL], entry_point = 8, state = SERVICE_STOPPED, policy = RESTART_ALWAYS,
       svc_type = SERVICE_TYPE_DAEMON, pid = -1, restarts = 0, dependency = None\<rparr>], spawned = []\<rparr>"


section \<open>Supervision\<close>

text \<open>A round of the monitor: what becomes of each service, and which tasks it creates.\<close>

definition supervised :: "('f \<times> bool) list \<Rightarrow> 'f service_unit \<Rightarrow> 'f service_unit" where
  "supervised procs s =
     (if state s \<noteq> SERVICE_RUNNING \<or> (entry_point s, False) \<in> set procs then s
      else if svc_type s \<noteq> SERVICE_TYPE_DAEMON then s\<lparr>state := SERVICE_FINISHED\<rparr>
      else if policy s = RESTART_NEVER then s\<lparr>state := SERVICE_DEAD\<rparr>
      else s\<lparr>restarts := restarts s + 1\<rparr>)"

lemma service_alive_iff: "service_alive f ps \<longleftrightarrow> (f, False) \<in> set ps"
  by (induction f ps rule: service_alive.induct) auto

lemma monitor_service_eq:
  assumes "i < length (services m)"
  shows "\<exists>m'. monitor_service procs i m = Some m' \<and> services m' = (services m)[i := supervised procs (services m ! i)]"
proof -
  define s where "s = services m ! i"
  have u: "s\<lparr>state := SERVICE_RUNNING, restarts := r\<rparr> = s\<lparr>restarts := r\<rparr>" if "state s = SERVICE_RUNNING" for r
    using that by (cases s) simp
  have "load (services m) i = Some s" using assms by (simp add: load_def s_def)
  moreover have "(services m)[i := s] = services m" by (simp add: s_def)
  ultimately show ?thesis
    by (cases "svc_type s"; cases "policy s")
      (simp_all add: monitor_service_def supervised_def service_alive_iff set_service_def create_kernel_task_def Let_def u
        flip: s_def)
qed

lemma monitor_loop_eq:
  "i + k = length (services m) \<Longrightarrow> \<exists>m'. monitor_loop procs i k m = Some m' \<and> length (services m') = length (services m)
     \<and> (\<forall>j < length (services m). services m' ! j
          = (if i \<le> j then supervised (procs j) (services m ! j) else services m ! j))"
proof (induction k arbitrary: i m)
  case (Suc k)
  then have i: "i < length (services m)" by simp
  from monitor_service_eq[OF i, of "procs i"] obtain m1 where m1: "monitor_service (procs i) i m = Some m1"
    "services m1 = (services m)[i := supervised (procs i) (services m ! i)]" by blast
  have "Suc i + k = length (services m1)" using Suc.prems m1(2) by simp
  from Suc.IH[OF this] obtain m2 where m2: "monitor_loop procs (Suc i) k m1 = Some m2" "length (services m2) = length (services m1)"
    "\<forall>j < length (services m1). services m2 ! j = (if Suc i \<le> j then supervised (procs j) (services m1 ! j) else services m1 ! j)"
    by blast
  then show ?case using m1 i by (auto simp: nth_list_update Suc_le_eq)
qed simp

text \<open>
  After a round of the monitor a running daemon that is not restarted is alive, and one that may be restarted is still
  running, with its counter raised if it was not alive.
\<close>

lemma monitor_round_ok:
  "\<exists>m'. monitor_round procs m = Some m' \<and> length (services m') = length (services m)
     \<and> (\<forall>j < length (services m). services m' ! j = supervised (procs j) (services m ! j))"
  using monitor_loop_eq[of 0 "length (services m)" m procs] by (simp add: monitor_round_def)

text \<open>\<open>waitForOneshots\<close> returns if the timer ever shows more than 1000 ticks after the start.\<close>

lemma wait_loop_returns:
  "k \<le> n \<Longrightarrow> ticks (Suc n) - ticks 0 > 1000 \<Longrightarrow> \<exists>r. wait_loop table ticks k = Some r \<and> r \<le> n
     \<and> (all_done (table r) \<or> ticks (Suc r) - ticks 0 > 1000)"
proof (induction "n - k" arbitrary: k)
  case 0
  then have "k = n" by simp
  then show ?case using 0 by (subst wait_loop.simps) auto
next
  case (Suc d)
  then have "d = n - Suc k" "Suc k \<le> n" by simp_all
  then have "\<exists>r. wait_loop table ticks (Suc k) = Some r \<and> r \<le> n \<and> (all_done (table r) \<or> ticks (Suc r) - ticks 0 > 1000)"
    using Suc.hyps(1)[of "Suc k"] Suc.prems by simp
  then show ?case using Suc.prems by (subst wait_loop.simps) auto
qed

end
