(* ===== verification/Spec2Isabelle.thy ===== *)
theory Spec2Isabelle
  imports Libc_Memory Libc_String Kom_Syscalls Kevent Pmm Vm_Arena Spinlock Rwlock Disk_Cache Device_Manager Rtc Service_Manager
begin

text \<open>
  \<^bold>\<open>A verification development for the Singularity kernel.\<close>

  \<^bold>\<open>The program.\<close> Singularity is a kernel for x86-64 written in C, C++ and Rust. Its services are kernel objects:
  reference-counted objects that threads reach through handles with capabilities, and that are named by paths in an
  object namespace. Channels and ports carry messages between threads, events and interrupt objects block and wake
  them. Below are the locks, the physical memory manager, the block devices with partitions and a disk cache, the
  device manager, the serial port, the clock, formatted output and a service manager; a small C library serves all of
  them.

  \<^bold>\<open>Conventions.\<close> The program is embedded as functions on explicit states. A machine integer is a word of its width
  where overflow can matter. A result \<open>None\<close> is undefined behaviour, a kernel panic, or a loop that does not return
  (\<open>partial_function\<close>); a refusal or an error code of the source is an ordinary value, so a theorem that an operation
  yields \<open>Some\<close> says that it returns and is safe. An operation that runs under a lock is one atomic step; a blocking
  operation is one turn of its loop, which either finishes or queues the thread, and interleavings are step
  relations. Allocation results, hardware registers, timers and driver transfers are arguments.

  \<^bold>\<open>Theories and sources\<close> (all paths under \<open>src/\<close>).

  \<^item> \<open>Kernel_Prelude\<close>: integer types, C memory as lists of cells, shared lemmas, the collections \<open>mem_simps\<close> and
    \<open>count_simps\<close>.
  \<^item> \<open>Libc_Memory\<close>, \<open>Libc_String\<close>: \<open>libc/string.c\<close>. The functional behaviour of the copy, fill, search and
    conversion routines. \<open>memmove\<close> is proved once over the locale \<open>memcpy_provider\<close>, interpreted for the scalar and the
    SSE2 copy; the tail that \<open>memset_sse2\<close> leaves unwritten is part of its theorem.
  \<^item> \<open>Serial\<close>, \<open>Stdio\<close>: \<open>archs/cpu/x86_64/drivers/serial/serial.cpp\<close>, \<open>libc/stdio.c\<close>, \<open>system/process/safe_math.c\<close>. The ring
    buffer and the wire together are a queue; \<open>vsnprintf\<close> is equivalent to cutting a text defined on mathematical
    numbers and lists; a printed message reaches console, port and line buffer.
  \<^item> \<open>Kom_Types\<close>, \<open>Kobject\<close>: \<open>archs/kom/common/kobject.hpp\<close> and the destructors. With exact counts no reference or
    release panics or touches a freed object. Destruction is a work list, which terminates because every step
    removes an object or a reference.
  \<^item> \<open>Handle_Table\<close>, \<open>Kcontainer\<close>, \<open>Ons\<close>: \<open>handle.cpp\<close>, \<open>kcontainer.cpp\<close>, \<open>ons.cpp\<close> of \<open>archs/kom/common\<close>. Handles resolve to
    their object within their capabilities and become stale; containers are finite maps; resolution follows paths.
  \<^item> \<open>Wait_Queue\<close>: the wait queues of \<open>system/process/process.c\<close>, a refinement of FIFO lists. The locale \<open>fifo_wakeup\<close> is
    what the blocking objects rely on.
  \<^item> \<open>Kblob\<close>, \<open>Kchannel\<close>, \<open>Kport\<close>, \<open>Kevent\<close>: \<open>kblob.cpp\<close>, \<open>kchannel.cpp\<close>, \<open>kport.cpp\<close>, \<open>kevent.cpp\<close> of \<open>archs/kom/common\<close> and
    \<open>system/irq/kir.cpp\<close>. Contents, order of delivery and wake-ups.
  \<^item> \<open>Kom_Syscalls\<close>: \<open>archs/kom/common/kom_syscalls.cpp\<close>. Every sequence of calls keeps the invariants of all of the above
    and never yields \<open>None\<close>.
  \<^item> \<open>Pmm\<close>: \<open>rust_core/src/memory/pmm.rs\<close>. Extents are sets of frames, allocation is exclusive, initialisation frees exactly
    the usable frames.
  \<^item> \<open>Vm_Arena\<close>: the class \<open>VmArena\<close> of \<open>archs/memory/kheap_slab.cpp\<close>. The sorted ranges and the watermark are a set of free
    addresses under allocation and release.
  \<^item> \<open>Spinlock\<close>, \<open>Sleep_Lock\<close>, \<open>Rwlock\<close>: \<open>archs/cpu/x86_64/sync/spinlock.h\<close>, \<open>system/sync/mutex.cpp\<close>, \<open>system/sync/rwlock.cpp\<close>.
    Mutual exclusion and wake-ups under every interleaving, by rule induction over step relations; the locale
    \<open>sleep_lock\<close> is interpreted for mutexes and semaphores.
  \<^item> \<open>Block_Device\<close>, \<open>Disk_Cache\<close>, \<open>Device_Manager\<close>: \<open>system/device/device.cpp\<close>, \<open>system/device/partition.cpp\<close>,
    \<open>system/disk/cache.cpp\<close>, \<open>archs/kom/common/kdevice.cpp\<close>. Partitions confine transfers, the cache is transparent when
    devices share no sector, enumeration ends.
  \<^item> \<open>Rtc\<close>, \<open>Service_Manager\<close>: \<open>archs/cpu/x86_64/drivers/rtc/rtc.cpp\<close>, \<open>system/init/service.cpp\<close>. Decoding of the clock and
    the order in which services start and are supervised.

  \<^bold>\<open>Hypotheses.\<close> A theorem about states assumes the invariant of its component, which the initial state has and every
  operation keeps. The one contract of code that is not modelled is \<open>driver_contract\<close> in \<open>Block_Device\<close>: a driver that
  reports success has transferred exactly the sectors asked for. Its witness is a disk in memory.

  \<^bold>\<open>Errors of the program.\<close> Theorems of kind error exhibit behaviour that the code does not intend: a transferred handle
  leaks a reference, a frame with other owners is handed out again, a reader can be blocked forever on a free lock,
  and a partition write leaves the cached sector of its disk stale.

  \<^bold>\<open>Bounds.\<close> No function takes fuel. Bounds come from the source: 4096 handles, 256-byte paths, 1024 extents, 512 address ranges, 32-bit
  tickets with fewer than \<open>2 ^ 32\<close> processors, 1024 readers, a ring of 16384 and a line buffer of 1024 characters, 32
  services. Reference counts are words; the sequence theorem for system calls assumes fewer calls than would overflow
  them.

  \<^bold>\<open>Not modelled.\<close> Page tables, the heap and its slabs (their address arena apart), the scheduler and context switch, read-copy-update, interrupt and
  system-call entry, processor and firmware set-up, bus and storage drivers, graphics, shell, the Rust file systems,
  assembly routines and host scripts: they are hardware access, assembly, or sit above the components modelled here.
  Of \<open>stdio.c\<close> the conversion of floating-point numbers is a parameter. Memory ordering is sequential consistency.
\<close>

end
